(* ===== verification/Kv_Prelude.thy ===== *)
theory Kv_Prelude
  imports Main "HOL-Library.Word" "HOL-Library.AList" "HOL-Library.Multiset" "HOL-Library.Sublist"
begin

unbundle bit_operations_syntax

text \<open>
  The prelude of the development: the names of the machine types the sources use, the
  collections of rewrite rules the component theories fill, and the generic facts on
  byte strings, little-endian integers and association lists that several components
  share.

  A C++ \<^verbatim>\<open>std::string\<close> is a list of 8-bit characters, which is what HOL's \<^typ>\<open>string\<close>
  is, so strings, file contents and serialized records are all of type \<^typ>\<open>string\<close>.
  Fixed-width integers are words of HOL-Library.Word.
\<close>

type_synonym u8 = "8 word"
type_synonym u16 = "16 word"
type_synonym u32 = "32 word"
type_synonym u64 = "64 word"

text \<open>The content of a \<^verbatim>\<open>std::unordered_map<std::string, std::string>\<close>.\<close>

type_synonym kvmap = "(string \<times> string) list"

named_theorems codec_simps \<open>lengths and inverse laws of the byte codecs\<close>
named_theorems frame_simps \<open>what an operation leaves unchanged\<close>

subsection \<open>Little-endian integers\<close>

text \<open>
  \<open>le_bytes n v\<close> are the \<open>n\<close> bytes of the in-memory image of an unsigned integer with
  value \<open>v\<close> on a little-endian host, least significant byte first; \<open>le_val\<close> reads such
  an image back.
\<close>

fun le_bytes :: "nat \<Rightarrow> nat \<Rightarrow> string" where
  "le_bytes 0 v = []"
| "le_bytes (Suc n) v = char_of v # le_bytes n (v div 256)"

fun le_val :: "string \<Rightarrow> nat" where
  "le_val [] = 0"
| "le_val (c # cs) = of_char c + 256 * le_val cs"

lemma length_le_bytes [simp, codec_simps]: "length (le_bytes n v) = n"
  by (induction n arbitrary: v) auto

lemma le_val_le_bytes: "le_val (le_bytes n v) = v mod 256 ^ n"
proof (induction n arbitrary: v)
  case 0
  then show ?case by simp
next
  case (Suc n)
  then show ?case
    by (simp add: of_char_of mod_mult2_eq)
qed

lemma le_val_le_bytes_word [codec_simps]:
  fixes w :: "'a::len word"
  assumes "LENGTH('a) = 8 * n"
  shows "le_val (le_bytes n (unat w)) = unat w"
proof -
  have "unat w < 2 ^ (8 * n)"
    using unsigned_less [of w, where ?'a = nat] assms by simp
  then have "unat w < 256 ^ n"
    by (simp add: power_mult)
  then show ?thesis
    by (simp add: le_val_le_bytes)
qed

lemma le_val_less: "le_val bs < 256 ^ length bs"
proof (induction bs)
  case Nil
  then show ?case by simp
next
  case (Cons c bs)
  have "of_char c < (256 :: nat)" by simp
  with Cons have "of_char c + 256 * le_val bs < 256 * 256 ^ length bs" by linarith
  then show ?case by simp
qed

lemma char_of_le_val: "char_of (of_char c + 256 * n :: nat) = c"
proof -
  have "(of_char c + 256 * n) mod 256 = (of_char c :: nat)" by simp
  then have "take_bit 8 (of_char c + 256 * n) = (of_char c :: nat)"
    by (simp only: take_bit_eq_mod) simp
  then show ?thesis by (simp add: char_of_eq_iff)
qed

lemma le_bytes_le_val [codec_simps]: "length bs = n \<Longrightarrow> le_bytes n (le_val bs) = bs"
  by (induction bs arbitrary: n) (auto simp: char_of_le_val)

text \<open>
  The image of a fixed-width integer, and the integer read from an image, computed on words:
  this is what the model uses, because it can be executed; the proofs go through the
  numbers above.
\<close>

fun word_bytes :: "nat \<Rightarrow> 'a::len word \<Rightarrow> string" where
  "word_bytes 0 w = []"
| "word_bytes (Suc n) w = char_of (uint (take_bit 8 w)) # word_bytes n (drop_bit 8 w)"

fun word_val :: "string \<Rightarrow> 'a::len word" where
  "word_val [] = 0"
| "word_val (c # cs) = of_char c + 256 * word_val cs"

lemma char_of_uint_byte: "char_of (uint (take_bit 8 w)) = char_of (unat w)"
proof -
  have "uint (take_bit 8 w) = take_bit 8 (uint w)" by (rule unsigned_take_bit_eq)
  then have "char_of (uint (take_bit 8 w)) = char_of (uint w)" by (simp add: char_of_take_bit_eq)
  also have "\<dots> = char_of (of_nat (unat w) :: int)" by simp
  finally show ?thesis by (simp only: char_of_nat)
qed

lemma le_bytes_unat:
  fixes w :: "'a::len word"
  shows "le_bytes n (unat w) = word_bytes n w"
proof (induction n arbitrary: w)
  case 0
  then show ?case by simp
next
  case (Suc n)
  have "take_bit LENGTH('a) (unat w) = unat w"
    using unsigned_less [of w, where ?'a = nat] by (rule take_bit_nat_eq_self)
  then have "unat (drop_bit 8 w) = drop_bit 8 (unat w)"
    by (simp only: unsigned_drop_bit_eq)
  then have "unat w div 256 = unat (drop_bit 8 w)"
    by (simp add: drop_bit_eq_div)
  then show ?case by (simp add: Suc char_of_uint_byte)
qed

lemma of_nat_le_val: "of_nat (le_val bs) = word_val bs"
  by (induction bs) (simp_all add: of_nat_of_char)

lemma length_word_bytes [simp, codec_simps]: "length (word_bytes n w) = n"
  by (simp flip: le_bytes_unat)

lemma word_val_word_bytes [codec_simps]:
  fixes w :: "'a::len word"
  shows "LENGTH('a) = 8 * n \<Longrightarrow> word_val (word_bytes n w) = w"
  by (simp add: le_val_le_bytes_word flip: le_bytes_unat of_nat_le_val)

lemma word_bytes_word_val [codec_simps]:
  assumes "length x = n" and "LENGTH('a) = 8 * n"
  shows "word_bytes n (word_val x :: 'a::len word) = x"
proof -
  have "le_val x < 2 ^ LENGTH('a)" using le_val_less [of x] assms by (simp add: power_mult)
  then have "unat (of_nat (le_val x) :: 'a word) = le_val x" by (rule of_nat_inverse [OF refl])
  with assms(1) show ?thesis by (simp add: le_bytes_le_val flip: le_bytes_unat of_nat_le_val)
qed

declare word_bytes.simps [simp del]

end
