(* ===== verification/Crc32.thy ===== *)
theory Crc32
  imports Kv_Prelude
begin

unbundle bit_operations_syntax

text \<open>
  The checksum of \<^verbatim>\<open>src/src/wal.cpp\<close>: the reflected CRC-32 (IEEE) computed from a lookup
  table of 256 entries.  The table is built by the inner loop of \<^verbatim>\<open>crc32_update\<close>; the
  theory shows that the table-driven update is the bit-serial one, that updating in
  pieces is updating with the concatenation, and that two inputs which differ only
  inside four consecutive bytes never have the same checksum.
\<close>

subsection \<open>The code\<close>

text \<open>One round of the inner loop: \<^verbatim>\<open>c = (c & 1) ? (0xEDB88320u ^ (c >> 1)) : (c >> 1)\<close>.\<close>

definition crc_bit :: "u32 \<Rightarrow> u32" where
  "crc_bit c = (if c AND 1 \<noteq> 0 then 0xEDB88320 XOR drop_bit 1 c else drop_bit 1 c)"

text \<open>The inner loop: eight rounds give the table entry of \<open>i\<close>.\<close>

fun crc_rounds :: "nat \<Rightarrow> u32 \<Rightarrow> u32" where
  "crc_rounds 0 c = c"
| "crc_rounds (Suc k) c = crc_rounds k (crc_bit c)"

definition crc_table :: "u32 list" where
  "crc_table = map (\<lambda>i. crc_rounds 8 (of_nat i)) [0..<256]"

text \<open>One step of the main loop: \<^verbatim>\<open>crc = table[(crc ^ data[i]) & 0xFFu] ^ (crc >> 8)\<close>.\<close>

definition crc_byte :: "u32 \<Rightarrow> char \<Rightarrow> u32" where
  "crc_byte crc b = crc_table ! unat ((crc XOR of_char b) AND 0xFF) XOR drop_bit 8 crc"

definition crc32_update :: "u32 \<Rightarrow> string \<Rightarrow> u32" where
  "crc32_update crc data = NOT (foldl crc_byte (NOT crc) data)"

subsection \<open>The bit-serial round is linear and injective\<close>

lemma and_1_bit: "(c :: u32) AND 1 \<noteq> 0 \<longleftrightarrow> bit c 0"
  by (simp add: and_one_eq odd_iff_mod_2_eq_one bit_0)

lemma crc_bit_alt: "crc_bit c = (if bit c 0 then 0xEDB88320 XOR drop_bit 1 c else drop_bit 1 c)"
  by (simp add: crc_bit_def and_1_bit)

lemma crc_bit_xor: "crc_bit (x XOR y) = crc_bit x XOR crc_bit y"
proof -
  have same: "a XOR (a XOR b) = b" for a b :: u32
    by (simp flip: xor.assoc)
  have lsb: "bit (x XOR y) 0 = (bit x 0 \<noteq> bit y 0)" by (simp only: bit_xor_iff)
  show ?thesis
    by (cases "bit x 0"; cases "bit y 0")
      (simp_all only: crc_bit_alt lsb drop_bit_xor if_True if_False simp_thms same xor.assoc
        xor.left_commute)
qed

lemma crc_rounds_xor: "crc_rounds k (x XOR y) = crc_rounds k x XOR crc_rounds k y"
  by (induction k arbitrary: x y) (simp_all add: crc_bit_xor)

lemma crc_rounds_0 [simp]: "crc_rounds k 0 = 0"
  by (induction k) (simp_all add: crc_bit_def)

lemma crc_rounds_add: "crc_rounds (j + k) c = crc_rounds k (crc_rounds j c)"
  by (induction j arbitrary: c) simp_all

text \<open>The polynomial has its top bit set, so the top bit of the result tells which branch was taken.\<close>

lemma crc_bit_eq_0: "crc_bit c = 0 \<Longrightarrow> c = 0"
proof -
  assume z: "crc_bit c = 0"
  have top: "bit (drop_bit 1 c) 31 = False" "bit (0xEDB88320 :: u32) 31"
    using bit_imp_le_length [of c 32] by (auto simp: bit_drop_bit_eq)
  have even: "\<not> bit c 0"
  proof
    assume "bit c 0"
    then have "bit (crc_bit c) 31" using top by (simp add: crc_bit_alt bit_xor_iff)
    with z show False by simp
  qed
  with z have "drop_bit 1 c = 0" by (simp add: crc_bit_alt)
  then have "\<not> bit c (Suc n)" for n
    using bit_drop_bit_eq [of 1 c] by (simp add: fun_eq_iff)
  with even have "\<not> bit c n" for n by (cases n) auto
  then show ?thesis by (auto intro: bit_eqI)
qed

lemma crc_rounds_eq_0: "crc_rounds k c = 0 \<Longrightarrow> c = 0"
  by (induction k arbitrary: c) (auto dest: crc_bit_eq_0)

lemma crc_rounds_inj: "crc_rounds k x = crc_rounds k y \<Longrightarrow> x = y"
proof -
  assume "crc_rounds k x = crc_rounds k y"
  then have "crc_rounds k (x XOR y) = 0" by (simp add: crc_rounds_xor)
  then have "x XOR y = 0" by (rule crc_rounds_eq_0)
  then have "y XOR (x XOR y) = y" by simp
  then show "x = y" by (simp add: xor.left_commute)
qed

subsection \<open>The table-driven step is eight bit-serial rounds\<close>

lemma crc_rounds_low_zero:
  "(\<And>i. i < k \<Longrightarrow> \<not> bit y i) \<Longrightarrow> crc_rounds k y = drop_bit k y"
proof (induction k arbitrary: y)
  case 0
  then show ?case by simp
next
  case (Suc k)
  have "crc_bit y = drop_bit 1 y" using Suc.prems [of 0] by (simp add: crc_bit_alt)
  moreover have "crc_rounds k (drop_bit 1 y) = drop_bit k (drop_bit 1 y)"
    using Suc.prems by (intro Suc.IH) (simp add: bit_drop_bit_eq)
  ultimately show ?case by simp
qed

lemma crc_table_nth: "unat i < 256 \<Longrightarrow> crc_table ! unat i = crc_rounds 8 i"
  by (simp add: crc_table_def)

lemma unat_and_255: "unat ((x :: u32) AND 0xFF) < 256"
proof -
  have "unat (x AND 0xFF) \<le> unat (0xFF :: u32)"
    by (rule word_and_le1 [THEN word_le_nat_alt [THEN iffD1]])
  then show ?thesis by simp
qed

lemma bit_byte: "bit (of_char b :: u32) n \<Longrightarrow> n < 8"
proof -
  assume a: "bit (of_char b :: u32) n"
  have "(of_char b :: u32) = of_nat (of_char b)" by (simp only: of_nat_of_char)
  moreover have "(of_char b :: nat) = take_bit 8 (of_char b)" by (simp add: take_bit_eq_mod)
  ultimately have "bit (take_bit 8 (of_char b :: nat)) n"
    using a by (metis bit_of_nat_iff)
  then show ?thesis by (simp add: bit_take_bit_iff)
qed

lemma bit_255: "bit (0xFF :: u32) n \<longleftrightarrow> n < 8"
proof -
  have "(0xFF :: u32) = mask 8" by (simp add: mask_eq_exp_minus_1)
  then have "bit (0xFF :: u32) n \<longleftrightarrow> possible_bit TYPE(u32) n \<and> n < 8"
    by (simp only: bit_mask_iff)
  then show ?thesis by auto
qed

lemma crc_byte_rounds [code]: "crc_byte crc b = crc_rounds 8 (crc XOR of_char b)"
proof -
  define x where "x = crc XOR of_char b"
  define m where "m = (0xFF :: u32)"
  have m: "bit m n \<longleftrightarrow> n < 8" for n unfolding m_def by (rule bit_255)
  have split: "x = (x AND m) XOR (x AND NOT m)"
    by (rule bit_eqI) (auto simp: bit_simps)
  have "crc_rounds 8 (x AND NOT m) = drop_bit 8 (x AND NOT m)"
    by (rule crc_rounds_low_zero) (simp add: bit_simps m)
  also have "\<dots> = drop_bit 8 crc"
    by (rule bit_eqI) (auto simp: bit_simps m x_def dest: bit_byte bit_imp_le_length)
  finally have "crc_rounds 8 x = crc_rounds 8 (x AND m) XOR drop_bit 8 crc"
    using split crc_rounds_xor [of 8 "x AND m" "x AND NOT m"] by simp
  moreover have "crc_byte crc b = crc_table ! unat (x AND m) XOR drop_bit 8 crc"
    by (simp only: crc_byte_def x_def m_def)
  moreover have "unat (x AND m) < 256" unfolding m_def by (rule unat_and_255)
  ultimately show ?thesis by (simp add: crc_table_nth x_def)
qed

lemma crc_byte_inj_state: "crc_byte c b = crc_byte c' b \<Longrightarrow> c = c'"
proof -
  assume "crc_byte c b = crc_byte c' b"
  then have "c XOR of_char b = c' XOR of_char b"
    by (simp add: crc_byte_rounds) (rule crc_rounds_inj)
  then have "(c XOR of_char b) XOR of_char b = (c' XOR of_char b) XOR of_char b" by simp
  then show "c = c'" by (simp add: xor.assoc)
qed

lemma foldl_crc_byte_inj: "foldl crc_byte c xs = foldl crc_byte c' xs \<Longrightarrow> c = c'"
  by (induction xs arbitrary: c c') (auto dest: crc_byte_inj_state)

subsection \<open>Updating in pieces, and bursts of up to four bytes\<close>

lemma crc32_update_append [simp]:
  "crc32_update (crc32_update crc xs) ys = crc32_update crc (xs @ ys)"
  by (simp add: crc32_update_def)

lemma crc_rounds_push:
  assumes "n < 2 ^ 24"
  shows "crc_rounds 8 (push_bit 8 (of_nat n)) = of_nat n"
proof -
  define v :: u32 where "v = of_nat n"
  have "take_bit 24 n = n" using assms by (rule take_bit_nat_eq_self)
  then have high: "bit v i \<Longrightarrow> i < 24" for i by (metis bit_of_nat_iff bit_take_bit_iff v_def)
  have "crc_rounds 8 (push_bit 8 v) = drop_bit 8 (push_bit 8 v)"
    by (rule crc_rounds_low_zero) (simp add: bit_simps)
  also have "\<dots> = v"
    by (rule bit_eqI) (use high in \<open>auto simp: bit_simps\<close>)
  finally show ?thesis by (simp only: v_def)
qed

lemma le_word_Cons:
  "(of_nat (le_val (b # bs)) :: u32) = of_char b XOR push_bit 8 (of_nat (le_val bs))"
proof -
  have "(of_nat (le_val (b # bs)) :: u32) = of_char b + push_bit 8 (of_nat (le_val bs))"
    by (simp add: push_bit_eq_mult of_nat_of_char)
  also have "\<dots> = of_char b XOR push_bit 8 (of_nat (le_val bs))"
    by (rule disjunctive_add_eq_xor)
      (rule bit_eqI, auto simp: bit_simps dest: bit_byte)
  finally show ?thesis .
qed

lemma foldl_crc_byte_word:
  "length bs \<le> 4 \<Longrightarrow>
   foldl crc_byte c bs = crc_rounds (8 * length bs) (c XOR of_nat (le_val bs))"
proof (induction bs arbitrary: c)
  case Nil
  then show ?case by simp
next
  case (Cons b bs)
  define v :: u32 where "v = of_nat (le_val bs)"
  have "le_val bs < 256 ^ 3"
    using le_val_less [of bs] Cons.prems power_increasing [of "length bs" 3 "256 :: nat"] by simp
  then have push: "crc_rounds 8 (push_bit 8 v) = v" unfolding v_def by (intro crc_rounds_push) simp
  have "foldl crc_byte c (b # bs) = crc_rounds (8 * length bs) (crc_rounds 8 (c XOR of_char b) XOR v)"
    using Cons.IH [of "crc_byte c b"] Cons.prems by (simp add: crc_byte_rounds [of c b] v_def)
  also have "crc_rounds 8 (c XOR of_char b) XOR v = crc_rounds 8 ((c XOR of_char b) XOR push_bit 8 v)"
    by (simp only: crc_rounds_xor push)
  also have "crc_rounds (8 * length bs) \<dots> =
      crc_rounds (8 + 8 * length bs) (c XOR (of_char b XOR push_bit 8 v))"
    by (simp only: crc_rounds_add xor.assoc)
  finally show ?case by (simp add: le_word_Cons v_def del: le_val.simps)
qed

lemma u32_of_nat_inverse: "n < 2 ^ 32 \<Longrightarrow> unat (of_nat n :: u32) = n"
  by (rule of_nat_inverse) simp_all

lemma foldl_crc_byte_burst:
  assumes "length b = length b'" and "length b \<le> 4"
    and eq: "foldl crc_byte c b = foldl crc_byte c b'"
  shows "b = b'"
proof -
  from assms have "crc_rounds (8 * length b) (c XOR of_nat (le_val b)) =
      crc_rounds (8 * length b) (c XOR of_nat (le_val b'))"
    by (simp add: foldl_crc_byte_word)
  then have "c XOR of_nat (le_val b) = c XOR (of_nat (le_val b') :: u32)" by (rule crc_rounds_inj)
  then have "c XOR (c XOR of_nat (le_val b)) = c XOR (c XOR (of_nat (le_val b') :: u32))" by simp
  then have eqw: "of_nat (le_val b) = (of_nat (le_val b') :: u32)" by (simp flip: xor.assoc)
  have "le_val b < 2 ^ 32" "le_val b' < 2 ^ 32"
    using le_val_less [of b] le_val_less [of b'] assms(1,2)
      power_increasing [of "length b" 4 "256 :: nat"] by simp_all
  with eqw have "le_val b = le_val b'"
    by (metis u32_of_nat_inverse)
  then have "le_bytes (length b) (le_val b) = le_bytes (length b) (le_val b')" by simp
  with assms(1) show ?thesis by (simp add: le_bytes_le_val)
qed

text \<open>
  The stored checksum of \<open>x\<close> is right exactly when the register, run over \<open>x\<close> and the four
  checksum bytes, ends in one fixed value; so a burst may also overlap the checksum.
\<close>

lemma crc32_residue:
  assumes "length stored = 4"
  shows "crc32_update 0 x = of_nat (le_val stored) \<longleftrightarrow>
    foldl crc_byte (NOT 0) (x @ stored) = crc_rounds 32 (NOT 0)"
proof -
  define c where "c = foldl crc_byte (NOT 0) x"
  define w :: u32 where "w = of_nat (le_val stored)"
  have "foldl crc_byte (NOT 0) (x @ stored) = crc_rounds 32 (c XOR w)"
    using assms foldl_crc_byte_word [of stored c] by (simp add: c_def w_def)
  then have "foldl crc_byte (NOT 0) (x @ stored) = crc_rounds 32 (NOT 0) \<longleftrightarrow> c XOR w = NOT 0"
    by (auto dest: crc_rounds_inj)
  also have "\<dots> \<longleftrightarrow> NOT c = w"
  proof
    assume "c XOR w = NOT 0"
    then have "c XOR (c XOR w) = c XOR NOT 0" by simp
    then show "NOT c = w" by (simp flip: xor.assoc)
  next
    assume "NOT c = w"
    then show "c XOR w = NOT 0" by (auto simp: bit_eq_iff bit_simps)
  qed
  finally show ?thesis by (simp add: crc32_update_def c_def w_def)
qed

lemma crc32_codeword_burst:
  assumes "length b = length b'" and "length b \<le> 4"
    and "foldl crc_byte c (xs @ b @ ys) = foldl crc_byte c (xs @ b' @ ys)"
  shows "b = b'"
proof -
  from assms(3) have "foldl crc_byte (foldl crc_byte c xs) b = foldl crc_byte (foldl crc_byte c xs) b'"
    by (auto dest: foldl_crc_byte_inj)
  with assms(1,2) show ?thesis by (rule foldl_crc_byte_burst)
qed

end
