(* ===== verification/Host_Io.thy ===== *)
theory Host_Io
  imports Kv_Prelude
begin

text \<open>
  The operating system and stream library as the sources use them: a disk of regular
  files, each with the length of its durable prefix, the calls \<^verbatim>\<open>open\<close>, \<^verbatim>\<open>lseek\<close>, \<^verbatim>\<open>read\<close>,
  \<^verbatim>\<open>write\<close>, \<^verbatim>\<open>ftruncate\<close>, \<^verbatim>\<open>fsync\<close> on them, and what a power failure leaves.

  A call that can fail takes its outcome from an \<open>io\<close> record, an argument of every
  operation that does I/O, so that each theorem says for which outcomes it holds.  One \<open>io\<close>
  serves one method of the log or the store, which makes each kind of call once (and \<^verbatim>\<open>write\<close>
  as often as \<open>io_writes\<close> says); an operation that calls several such methods takes a function
  \<open>ios :: nat \<Rightarrow> io\<close> with the outcomes for its first, second, ... call.
\<close>

record dfile =
  content :: string
  synced :: nat  \<comment> \<open>the first \<open>synced\<close> bytes have reached stable storage\<close>

type_synonym disk = "string \<rightharpoonup> dfile"

abbreviation empty_file :: dfile where
  "empty_file \<equiv> \<lparr>content = [], synced = 0\<rparr>"

text \<open>What one \<^verbatim>\<open>write\<close> returns: a byte count, or -1 with \<^verbatim>\<open>errno\<close> equal to \<^verbatim>\<open>EINTR\<close> or not.\<close>

datatype wres = Wrote nat | WIntr | WFail

record io =
  io_open :: bool             \<comment> \<open>\<^verbatim>\<open>open\<close> returns a descriptor\<close>
  io_seek :: bool             \<comment> \<open>\<^verbatim>\<open>lseek\<close> to the end of the file just opened succeeds\<close>
  io_rewind :: bool           \<comment> \<open>\<^verbatim>\<open>lseek\<close> to the start of the file before replay succeeds\<close>
  io_writes :: "wres list"    \<comment> \<open>the results of the next \<^verbatim>\<open>write\<close> calls; then every call writes all\<close>
  io_fsync :: bool            \<comment> \<open>\<^verbatim>\<open>fsync\<close> returns 0\<close>
  io_trunc :: bool            \<comment> \<open>\<^verbatim>\<open>ftruncate\<close> returns 0\<close>
  io_stream :: bool           \<comment> \<open>an output stream opens its file\<close>
  io_room :: "nat option"     \<comment> \<open>how many bytes an output stream can store, if limited\<close>
  io_rename :: bool           \<comment> \<open>\<^verbatim>\<open>rename\<close> returns 0\<close>
  io_remove :: bool           \<comment> \<open>\<^verbatim>\<open>remove\<close> unlinks the file\<close>

definition io_ok :: io where
  "io_ok = \<lparr>io_open = True, io_seek = True, io_rewind = True, io_writes = [], io_fsync = True,
     io_trunc = True, io_stream = True, io_room = None, io_rename = True, io_remove = True\<rparr>"

lemma io_ok_simps [simp]:
  "io_open io_ok" "io_seek io_ok" "io_rewind io_ok" "io_writes io_ok = []" "io_fsync io_ok" "io_trunc io_ok"
  "io_stream io_ok" "io_room io_ok = None" "io_rename io_ok" "io_remove io_ok"
  by (simp_all add: io_ok_def)

subsection \<open>Calls on one file\<close>

text \<open>
  \<^verbatim>\<open>write\<close> at an offset: a gap between the end of the file and the offset is filled with
  zero bytes.  Overwritten durable bytes are no longer durable.
\<close>

definition write_at :: "nat \<Rightarrow> string \<Rightarrow> dfile \<Rightarrow> dfile" where
  "write_at off data f =
     f\<lparr>content := take off (content f) @ replicate (off - length (content f)) (CHR 0x00)
         @ data @ drop (off + length data) (content f),
       synced := min (synced f) off\<rparr>"

definition fsync_file :: "dfile \<Rightarrow> dfile" where
  "fsync_file f = f\<lparr>synced := length (content f)\<rparr>"

definition truncate_file :: "nat \<Rightarrow> dfile \<Rightarrow> dfile" where
  "truncate_file n f =
     f\<lparr>content := take n (content f) @ replicate (n - length (content f)) (CHR 0x00),
       synced := min (synced f) n\<rparr>"

lemma write_at_end [simp]:
  "off = length (content f) \<Longrightarrow> content (write_at off data f) = content f @ data"
  by (simp add: write_at_def)

lemma synced_write_at_end [simp]:
  "off = length (content f) \<Longrightarrow> synced f \<le> off \<Longrightarrow> synced (write_at off data f) = synced f"
  by (simp add: write_at_def)

lemma fsync_file_simps [simp]:
  "content (fsync_file f) = content f" "synced (fsync_file f) = length (content f)"
  by (simp_all add: fsync_file_def)

subsection \<open>Power failure\<close>

text \<open>
  A power failure keeps the durable prefix and any number of the bytes written after
  it: \<open>power_loss f f'\<close> relates a file to what may be found on restart.  A crash of the
  process alone (\<^verbatim>\<open>kill -9\<close>) keeps every written byte, which is one of the outcomes.
\<close>

definition power_loss :: "dfile \<Rightarrow> dfile \<Rightarrow> bool" where
  "power_loss f f' \<longleftrightarrow>
     (\<exists>n. synced f \<le> n \<and> n \<le> length (content f) \<and> f' = \<lparr>content = take n (content f), synced = n\<rparr>)"

end
