(* ===== verification/Framing.thy ===== *)
theory Framing
  imports Kv_Prelude
begin

text \<open>
  The interface between a stream of bytes and the records written to it: an encoder, a
  decoder that returns the record and the rest of the stream, and the records the
  encoder can represent.  The laws are what the reader of the stream relies on: a whole
  record decodes, a torn one does not, and decoding consumes bytes.  The lemmas of the
  locale say what a reader recovers from a stream that was cut at any byte.
\<close>

text \<open>Decode records until the decoder gives up: the records, and the bytes left over.\<close>

function decode_all :: "(string \<Rightarrow> ('r \<times> string) option) \<Rightarrow> string \<Rightarrow> 'r list \<times> string" where
  "decode_all dec bs =
     (case dec bs of
        None \<Rightarrow> ([], bs)
      | Some (r, rest) \<Rightarrow>
          if length rest < length bs
          then (let (rs, left) = decode_all dec rest in (r # rs, left))
          else ([], bs))"
  by pat_completeness auto
termination
  by (relation "measure (\<lambda>(dec, bs). length bs)") auto

declare decode_all.simps [simp del]

lemma decode_all_None: "dec bs = None \<Longrightarrow> decode_all dec bs = ([], bs)"
  by (simp add: decode_all.simps [of dec bs])

lemma decode_all_Nil: "decode_all dec bs = ([], left) \<Longrightarrow> left = bs"
  by (auto simp: decode_all.simps [of dec bs] split: option.splits if_splits prod.splits)

lemma decode_all_left_le: "length (snd (decode_all dec bs)) \<le> length bs"
proof (induction dec bs rule: decode_all.induct)
  case (1 dec bs)
  then show ?case
    by (fastforce simp: decode_all.simps [of dec bs] split: option.splits prod.splits)
qed

text \<open>How many of the records fit completely into the first \<open>n\<close> bytes.\<close>

fun whole_records :: "('r \<Rightarrow> string) \<Rightarrow> 'r list \<Rightarrow> nat \<Rightarrow> nat" where
  "whole_records enc [] n = 0"
| "whole_records enc (r # rs) n =
     (if length (enc r) \<le> n then Suc (whole_records enc rs (n - length (enc r))) else 0)"

lemma whole_records_le: "whole_records enc rs n \<le> length rs"
  by (induction rs arbitrary: n) auto

lemma whole_records_append:
  "length (concat (map enc rs)) \<le> n \<Longrightarrow>
   whole_records enc (rs @ rs') n =
     length rs + whole_records enc rs' (n - length (concat (map enc rs)))"
  by (induction rs arbitrary: n) auto

locale framing =
  fixes enc :: "'r \<Rightarrow> string"
    and dec :: "string \<Rightarrow> ('r \<times> string) option"
    and wf :: "'r \<Rightarrow> bool"
  assumes dec_enc: "wf r \<Longrightarrow> dec (enc r @ rest) = Some (r, rest)"
    and dec_torn: "wf r \<Longrightarrow> strict_prefix p (enc r) \<Longrightarrow> dec p = None"
    and dec_consumes: "dec bs = Some (r, rest) \<Longrightarrow> length rest < length bs"
begin

lemma decode_all_step:
  "dec bs = Some (r, rest) \<Longrightarrow>
   decode_all dec bs = (r # fst (decode_all dec rest), snd (decode_all dec rest))"
  using dec_consumes [of bs r rest]
  by (simp add: decode_all.simps [of dec bs] split: prod.split)

lemma decode_all_append:
  "\<forall>r \<in> set rs. wf r \<Longrightarrow>
   decode_all dec (concat (map enc rs) @ tail) =
     (rs @ fst (decode_all dec tail), snd (decode_all dec tail))"
proof (induction rs)
  case Nil
  then show ?case by simp
next
  case (Cons r rs)
  then have "dec (enc r @ concat (map enc rs) @ tail) = Some (r, concat (map enc rs) @ tail)"
    by (intro dec_enc) simp
  with Cons show ?case by (simp add: decode_all_step)
qed

lemma decode_all_stuck:
  "\<forall>r \<in> set rs. wf r \<Longrightarrow> dec tail = None \<Longrightarrow>
   decode_all dec (concat (map enc rs) @ tail) = (rs, tail)"
  by (simp add: decode_all_append decode_all_None)

lemma dec_Nil [simp]: "dec [] = None"
  using dec_consumes [of "[]"] by (cases "dec []") auto

text \<open>A stream cut anywhere yields exactly the records that are whole.\<close>

lemma decode_all_cut:
  "\<forall>r \<in> set rs. wf r \<Longrightarrow>
   fst (decode_all dec (take n (concat (map enc rs)))) = take (whole_records enc rs n) rs"
proof (induction rs arbitrary: n)
  case Nil
  then show ?case by (simp add: decode_all_None)
next
  case (Cons r rs)
  show ?case
  proof (cases "length (enc r) \<le> n")
    case True
    have "dec (enc r @ take (n - length (enc r)) (concat (map enc rs)))
        = Some (r, take (n - length (enc r)) (concat (map enc rs)))"
      using Cons.prems by (intro dec_enc) simp
    then show ?thesis
      using True Cons by (simp add: decode_all_step)
  next
    case False
    then have "strict_prefix (take n (enc r)) (enc r)"
      by (metis take_is_prefix prefix_order.le_neq_trans nat_le_linear length_take min.absorb2)
    then have "dec (take n (enc r)) = None" using Cons.prems by (intro dec_torn) simp_all
    with False show ?thesis by (simp add: decode_all_None)
  qed
qed

end

end
