(* ===== verification/Wal.thy ===== *)
theory Wal
  imports Crc32 Host_Io Framing
begin

text \<open>
  The write-ahead log: \<^verbatim>\<open>class Wal\<close> of \<^verbatim>\<open>src/include/kv/wal.h\<close> and \<^verbatim>\<open>src/src/wal.cpp\<close>.
  The state of the class is the record \<open>wal\<close>; its methods are functions on it and on the
  disk.  The record format is the in-memory image of the packed \<^verbatim>\<open>WalHeader\<close> on a
  little-endian host, then the key, the value and the checksum.
\<close>

subsection \<open>Helpers of the file\<close>

text \<open>
  \<^verbatim>\<open>write_all\<close>: write a buffer completely, retrying interrupted calls.  The result is the
  bytes that reached the file and the return value; \<open>rs\<close> are the results of the
  successive \<^verbatim>\<open>write\<close> calls, after which every call writes all it is given.
\<close>

fun write_all :: "wres list \<Rightarrow> string \<Rightarrow> string \<times> bool" where
  "write_all rs [] = ([], True)"
| "write_all [] p = (p, True)"
| "write_all (WIntr # rs) p = write_all rs p"
| "write_all (WFail # rs) p = ([], False)"
| "write_all (Wrote n # rs) p = (let (q, ok) = write_all rs (drop n p) in (take n p @ q, ok))"

text \<open>
  \<^verbatim>\<open>read_exact\<close> on the unread bytes of a regular file: the bytes read and the bytes
  after them, or a failure at the end of the file.
\<close>

definition read_exact :: "nat \<Rightarrow> string \<Rightarrow> (string \<times> string) option" where
  "read_exact n bs = (if length bs < n then None else Some (take n bs, drop n bs))"

subsection \<open>Record format\<close>

datatype wal_type = WPut | WDel

fun type_code :: "wal_type \<Rightarrow> u8" where
  "type_code WPut = 1"
| "type_code WDel = 2"

record wal_header =
  magic :: u32
  version :: u16
  htype :: u8
  key_len :: u32
  val_len :: u32
  hseq :: u64

definition kMagic :: u32 where
  "kMagic = 0x474C564B"

definition kVersion :: u16 where
  "kVersion = 1"

text \<open>The 23 bytes of a packed header, and the header read from such bytes.\<close>

definition header_image :: "wal_header \<Rightarrow> string" where
  "header_image h =
     word_bytes 4 (magic h) @ word_bytes 2 (version h) @ word_bytes 1 (htype h) @
     word_bytes 4 (key_len h) @ word_bytes 4 (val_len h) @ word_bytes 8 (hseq h)"

definition header_of_image :: "string \<Rightarrow> wal_header" where
  "header_of_image bs =
     \<lparr>magic = word_val (take 4 bs),
      version = word_val (take 2 (drop 4 bs)),
      htype = word_val (take 1 (drop 6 bs)),
      key_len = word_val (take 4 (drop 7 bs)),
      val_len = word_val (take 4 (drop 11 bs)),
      hseq = word_val (take 8 (drop 15 bs))\<rparr>"

text \<open>The header \<^verbatim>\<open>write_record\<close> fills in.\<close>

definition make_header :: "wal_type \<Rightarrow> u64 \<Rightarrow> string \<Rightarrow> string \<Rightarrow> wal_header" where
  "make_header t s key val =
     \<lparr>magic = kMagic, version = kVersion, htype = type_code t,
      key_len = of_nat (length key), val_len = of_nat (length val), hseq = s\<rparr>"

text \<open>The checksum of a record: header, key and, for a Put, the value.\<close>

definition record_crc :: "wal_header \<Rightarrow> string \<Rightarrow> string \<Rightarrow> u32" where
  "record_crc h key val =
     (let crc = crc32_update (crc32_update 0 (header_image h)) key
      in if htype h = type_code WPut then crc32_update crc val else crc)"

definition record_image :: "wal_type \<Rightarrow> u64 \<Rightarrow> string \<Rightarrow> string \<Rightarrow> string" where
  "record_image t s key val =
     (let h = make_header t s key val
      in header_image h @ key @ (if t = WPut then val else []) @
         word_bytes 4 (record_crc h key val))"

subsection \<open>The class\<close>

record wal =
  wal_buffer :: "string list"
  wal_fd :: "(string \<times> nat) option"  \<comment> \<open>the open file and the file offset; None is \<^verbatim>\<open>fd_ < 0\<close>\<close>
  wal_path :: string
  wal_last_good :: nat

definition wal_new :: wal where
  "wal_new = \<lparr>wal_buffer = [], wal_fd = None, wal_path = [], wal_last_good = 0\<rparr>"

definition file_size :: "disk \<Rightarrow> string \<Rightarrow> nat" where
  "file_size d p = (case d p of None \<Rightarrow> 0 | Some f \<Rightarrow> length (content f))"

definition wal_open :: "io \<Rightarrow> string \<Rightarrow> wal \<Rightarrow> disk \<Rightarrow> bool \<times> wal \<times> disk" where
  "wal_open io path w d =
     (let w = w\<lparr>wal_path := path\<rparr> in
      if \<not> io_open io then (False, w\<lparr>wal_fd := None\<rparr>, d)
      else
        let d = (case d path of None \<Rightarrow> d(path \<mapsto> empty_file) | Some _ \<Rightarrow> d) in
        if \<not> io_seek io then (False, w\<lparr>wal_fd := Some (path, 0)\<rparr>, d)
        else (True, w\<lparr>wal_fd := Some (path, file_size d path), wal_last_good := 0\<rparr>, d))"

definition wal_close :: "wal \<Rightarrow> wal" where
  "wal_close w = w\<lparr>wal_fd := None\<rparr>"

definition write_record ::
    "wal_type \<Rightarrow> u64 \<Rightarrow> string \<Rightarrow> string \<Rightarrow> wal \<Rightarrow> bool \<times> wal" where
  "write_record t s key val w =
     (case wal_fd w of
        None \<Rightarrow> (False, w)
      | Some _ \<Rightarrow> (True, w\<lparr>wal_buffer := wal_buffer w @ [record_image t s key val]\<rparr>))"

definition append_put :: "u64 \<Rightarrow> string \<Rightarrow> string \<Rightarrow> wal \<Rightarrow> bool \<times> wal" where
  "append_put s key val w = write_record WPut s key val w"

definition append_del :: "u64 \<Rightarrow> string \<Rightarrow> wal \<Rightarrow> bool \<times> wal" where
  "append_del s key w = write_record WDel s key [] w"

text \<open>
  \<^verbatim>\<open>flush\<close>: the inner loop over the \<^verbatim>\<open>write\<close> calls for one record gives up on every
  negative result, also on \<^verbatim>\<open>EINTR\<close>; the outer loop runs over the buffered records.  Both
  return the bytes that reached the file, whether no call failed, and the results not
  yet used.
\<close>

fun write_rec :: "wres list \<Rightarrow> string \<Rightarrow> string \<times> bool \<times> wres list" where
  "write_rec rs [] = ([], True, rs)"
| "write_rec [] p = (p, True, [])"
| "write_rec (WIntr # rs) p = ([], False, rs)"
| "write_rec (WFail # rs) p = ([], False, rs)"
| "write_rec (Wrote n # rs) p =
     (let (q, ok, rs') = write_rec rs (drop n p) in (take n p @ q, ok, rs'))"

fun write_recs :: "wres list \<Rightarrow> string list \<Rightarrow> string \<times> bool" where
  "write_recs rs [] = ([], True)"
| "write_recs rs (p # ps) =
     (case write_rec rs p of
        (q, False, _) \<Rightarrow> (q, False)
      | (q, True, rs') \<Rightarrow> (let (q', ok) = write_recs rs' ps in (q @ q', ok)))"

definition wal_flush :: "io \<Rightarrow> wal \<Rightarrow> disk \<Rightarrow> bool \<times> wal \<times> disk" where
  "wal_flush io w d =
     (case wal_fd w of
        None \<Rightarrow> (False, w, d)
      | Some (p, off) \<Rightarrow>
          if wal_buffer w = [] then (True, w, d)
          else
            let (out, ok) = write_recs (io_writes io) (wal_buffer w);
                f = write_at off out (case d p of None \<Rightarrow> empty_file | Some f \<Rightarrow> f);
                w = w\<lparr>wal_fd := Some (p, off + length out)\<rparr>
            in if \<not> ok then (False, w, d(p \<mapsto> f))
               else if \<not> io_fsync io then (False, w, d(p \<mapsto> f))
               else (True, w\<lparr>wal_buffer := []\<rparr>, d(p \<mapsto> fsync_file f)))"

definition truncate_to_last_good :: "io \<Rightarrow> wal \<Rightarrow> disk \<Rightarrow> bool \<times> disk" where
  "truncate_to_last_good io w d =
     (case wal_fd w of
        None \<Rightarrow> (False, d)
      | Some (p, off) \<Rightarrow>
          if io_trunc io
          then (True, d(p := map_option (truncate_file (wal_last_good w)) (d p)))
          else (False, d))"

subsection \<open>Replay\<close>

text \<open>A record of the log, as replay applies it.\<close>

datatype wal_rec = RPut u64 string string | RDel u64 string

fun rec_seq :: "wal_rec \<Rightarrow> u64" where
  "rec_seq (RPut s k v) = s"
| "rec_seq (RDel s k) = s"

text \<open>
  One round of the loop of \<^verbatim>\<open>replay_into\<close>, up to the point where the record is known to be
  good; every \<^verbatim>\<open>break\<close> is None.  The body after the checks of the header fields:
\<close>

definition read_body :: "wal_header \<Rightarrow> string \<Rightarrow> (wal_rec \<times> string) option" where
  "read_body h r0 =
     (case (if key_len h \<noteq> 0 then read_exact (unat (key_len h)) r0 else Some ([], r0)) of
        None \<Rightarrow> None
      | Some (key, r1) \<Rightarrow>
        (case (if htype h = type_code WPut \<and> val_len h \<noteq> 0
               then read_exact (unat (val_len h)) r1
               else Some (replicate (unat (val_len h)) (CHR 0x00), r1)) of
           None \<Rightarrow> None
         | Some (val, r2) \<Rightarrow>
           (case read_exact 4 r2 of
              None \<Rightarrow> None
            | Some (stored, r3) \<Rightarrow>
                if record_crc h key val \<noteq> word_val stored then None
                else Some (if htype h = type_code WPut then RPut (hseq h) key val
                           else RDel (hseq h) key, r3))))"

definition read_record :: "string \<Rightarrow> (wal_rec \<times> string) option" where
  "read_record bs =
     (if length bs < 23 then None
      else
        let h = header_of_image (take 23 bs) in
        if magic h \<noteq> kMagic \<or> version h \<noteq> kVersion then None
        else if htype h \<noteq> type_code WPut \<and> htype h \<noteq> type_code WDel then None
        else read_body h (drop 23 bs))"

text \<open>Applying a record to the map of the store: \<^verbatim>\<open>map_[key] = val\<close> or \<^verbatim>\<open>map_.erase(key)\<close>.\<close>

fun apply_rec :: "wal_rec \<Rightarrow> kvmap \<Rightarrow> kvmap" where
  "apply_rec (RPut s k v) m = AList.update k v m"
| "apply_rec (RDel s k) m = AList.delete k m"

lemma read_exact_Some_iff [simp]:
  "read_exact n bs = Some (x, rest) \<longleftrightarrow> length x = n \<and> bs = x @ rest"
  by (auto simp: read_exact_def)

lemma read_body_Some:
  "read_body h r0 = Some (r, rest) \<Longrightarrow>
   \<exists>key val stored. r0 = key @ (if htype h = type_code WPut then val else []) @ stored @ rest \<and>
     length key = unat (key_len h) \<and> length val = unat (val_len h) \<and> length stored = 4 \<and>
     record_crc h key val = word_val stored \<and>
     r = (if htype h = type_code WPut then RPut (hseq h) key val else RDel (hseq h) key)"
  unfolding read_body_def
  by (cases "key_len h = 0"; cases "htype h = type_code WPut \<and> val_len h \<noteq> 0")
    (auto split: option.splits if_splits simp del: type_code.simps
      intro!: exI [of "\<lambda>val. length val = unat (val_len h) \<and> P val"
        "replicate (unat (val_len h)) (CHR 0x00)" for P])

lemma read_record_shorter:
  assumes "read_record bs = Some (r, rest)"
  shows "length rest < length bs"
proof -
  from assms have "23 \<le> length bs" and "read_body (header_of_image (take 23 bs)) (drop 23 bs) = Some (r, rest)"
    by (auto simp: read_record_def Let_def split: if_splits)
  from read_body_Some [OF this(2)] this(1) show ?thesis
    by (auto dest!: arg_cong [where f = length])
qed

text \<open>
  The loop: the map, the largest sequence number, the offset after the last good record,
  the current offset and the unread bytes.
\<close>

function replay_loop ::
    "kvmap \<Rightarrow> u64 \<Rightarrow> nat \<Rightarrow> nat \<Rightarrow> string \<Rightarrow> kvmap \<times> u64 \<times> nat" where
  "replay_loop m mx good pos bs =
     (case read_record bs of
        None \<Rightarrow> (m, mx, good)
      | Some (r, rest) \<Rightarrow>
          let pos' = pos + (length bs - length rest)
          in replay_loop (apply_rec r m) (max mx (rec_seq r)) pos' pos' rest)"
  by pat_completeness auto
termination
  by (relation "measure (\<lambda>(m, mx, good, pos, bs). length bs)") (auto dest: read_record_shorter)

declare replay_loop.simps [simp del]

text \<open>\<^verbatim>\<open>replay_into\<close> on the map of the store; \<open>mx\<close> is the caller's \<^verbatim>\<open>max_seq\<close>.\<close>

definition replay_into ::
    "io \<Rightarrow> kvmap \<Rightarrow> u64 \<Rightarrow> wal \<Rightarrow> disk \<Rightarrow> bool \<times> kvmap \<times> u64 \<times> wal" where
  "replay_into io m mx w d =
     (case wal_fd w of
        None \<Rightarrow> (False, m, mx, w)
      | Some (p, off) \<Rightarrow>
          if \<not> io_rewind io then (False, m, mx, w)
          else
            let (m', mx', good) =
                  replay_loop m 0 0 0 (case d p of None \<Rightarrow> [] | Some f \<Rightarrow> content f)
            in (True, m', mx', w\<lparr>wal_last_good := good, wal_fd := Some (p, file_size d p)\<rparr>))"

subsection \<open>What a flush writes\<close>

lemma write_rec_spec:
  "write_rec rs p = (q, ok, rs') \<Longrightarrow> prefix q p \<and> (ok \<longrightarrow> q = p)"
proof (induction rs p arbitrary: q rule: write_rec.induct)
  case (5 n rs v va)
  then obtain q' where q': "write_rec rs (drop n (v # va)) = (q', ok, rs')"
    and q: "q = take n (v # va) @ q'"
    by (auto split: prod.splits)
  define x where "x = v # va"
  from "5.IH" [OF q'] have "prefix (take n x @ q') (take n x @ drop n x)"
    and "ok \<longrightarrow> take n x @ q' = take n x @ drop n x"
    unfolding x_def same_prefix_prefix by blast+
  then show ?case using q by (simp only: append_take_drop_id x_def)
qed auto

lemma write_rec_ok [simp]: "write_rec [] p = (p, True, [])"
  by (cases p) simp_all

lemma write_recs_ok [simp]: "write_recs [] ps = (concat ps, True)"
  by (induction ps) simp_all

lemma write_recs_spec:
  "write_recs rs ps = (q, ok) \<Longrightarrow> prefix q (concat ps) \<and> (ok \<longrightarrow> q = concat ps)"
proof (induction rs ps arbitrary: q ok rule: write_recs.induct)
  case (1 rs)
  then show ?case by simp
next
  case (2 rs p ps)
  obtain q1 ok1 rs1 where w: "write_rec rs p = (q1, ok1, rs1)" by (cases "write_rec rs p") auto
  note spec1 = write_rec_spec [OF w]
  show ?case
  proof (cases ok1)
    case True
    obtain q2 ok2 where w2: "write_recs rs1 ps = (q2, ok2)" by (cases "write_recs rs1 ps") auto
    have "prefix q2 (concat ps) \<and> (ok2 \<longrightarrow> q2 = concat ps)"
      using "2.IH" [of q1 "(ok1, rs1)" ok1 rs1] w w2 True by simp
    with "2.prems" w w2 True spec1 show ?thesis by auto
  next
    case False
    with "2.prems" w spec1 show ?thesis by (auto intro: prefix_prefix)
  qed
qed

end
