(* ===== verification/Wal_Log.thy ===== *)
theory Wal_Log
  imports Wal
begin

text \<open>
  The log as a sequence of records.  The record format is a framing: what \<^verbatim>\<open>write_record\<close>
  buffers, one round of \<^verbatim>\<open>replay_into\<close> reads back, and it reads nothing from a torn record.
  So replaying a log is applying its records in order, whatever follows the first byte
  that is not part of a whole good record; and a good record stays good only if no burst
  of up to four bytes is changed in it.
\<close>

subsection \<open>Images of records\<close>

fun rec_image :: "wal_rec \<Rightarrow> string" where
  "rec_image (RPut s k v) = record_image WPut s k v"
| "rec_image (RDel s k) = record_image WDel s k []"

text \<open>The records whose lengths fit the 32-bit fields of the header.\<close>

fun wf_rec :: "wal_rec \<Rightarrow> bool" where
  "wf_rec (RPut s k v) \<longleftrightarrow> length k < 2 ^ 32 \<and> length v < 2 ^ 32"
| "wf_rec (RDel s k) \<longleftrightarrow> length k < 2 ^ 32"

definition log_image :: "wal_rec list \<Rightarrow> string" where
  "log_image rs = concat (map rec_image rs)"

lemma log_image_simps [simp]:
  "log_image [] = []"
  "log_image (r # rs) = rec_image r @ log_image rs"
  "log_image (rs @ rs') = log_image rs @ log_image rs'"
  by (simp_all add: log_image_def)

lemma length_header_image [simp, codec_simps]: "length (header_image h) = 23"
  by (simp add: header_image_def)

lemma header_of_header_image [simp, codec_simps]: "header_of_image (header_image h) = h"
  by (simp add: header_image_def header_of_image_def word_val_word_bytes)

lemma header_image_of_image:
  assumes "length bs = 23"
  shows "header_image (header_of_image bs) = bs"
proof -
  have "header_image (header_of_image bs) = take 4 bs @ take 2 (drop 4 bs) @ take 1 (drop 6 bs) @
      take 4 (drop 7 bs) @ take 4 (drop 11 bs) @ take 8 (drop 15 bs)"
    using assms by (simp add: header_image_def header_of_image_def word_bytes_word_val)
  also have "\<dots> = take (4 + (2 + (1 + (4 + (4 + 8))))) bs"
    by (simp only: take_add drop_drop) simp
  finally show ?thesis using assms by simp
qed

lemma make_header_simps [simp]:
  "magic (make_header t s k v) = kMagic" "version (make_header t s k v) = kVersion"
  "htype (make_header t s k v) = type_code t" "hseq (make_header t s k v) = s"
  "key_len (make_header t s k v) = of_nat (length k)"
  "val_len (make_header t s k v) = of_nat (length v)"
  by (simp_all add: make_header_def)

lemma type_code_inject [simp]: "type_code t = type_code u \<longleftrightarrow> t = u"
  by (cases t; cases u) simp_all

lemma wal_type_cases: "t = WPut \<or> t = WDel"
  by (cases t) simp_all

lemma length_u32: "n < 2 ^ 32 \<Longrightarrow> unat (of_nat n :: u32) = n"
  by (rule of_nat_inverse) simp_all

lemma of_nat_0_u32: "n < 2 ^ 32 \<Longrightarrow> (of_nat n :: u32) = 0 \<longleftrightarrow> n = 0"
  using length_u32 [of n] by auto

lemma record_crc_le: "word_val (word_bytes 4 w) = (w :: u32)"
  by (rule word_val_word_bytes) simp

lemma read_body_record:
  assumes "length k < 2 ^ 32" "length v < 2 ^ 32" and del: "t = WDel \<longrightarrow> v = []"
  shows "read_body (make_header t s k v)
      (k @ (if t = WPut then v else []) @
       word_bytes 4 (record_crc (make_header t s k v) k v) @ rest)
    = Some (if t = WPut then RPut s k v else RDel s k, rest)"
proof -
  have exact: "read_exact n (x @ y) = Some (x, y)" if "n = length x" for n and x y :: string
    using that by simp
  show ?thesis
    using assms
    by (cases t) (simp_all add: read_body_def exact length_u32 of_nat_0_u32 record_crc_le
        del: read_exact_Some_iff type_code.simps)
qed

lemma take_record_image [simp]: "take 23 (record_image t s k v) = header_image (make_header t s k v)"
  by (simp add: record_image_def Let_def)

lemma length_record_image:
  "length (record_image t s k v) = 27 + length k + (if t = WPut then length v else 0)"
  by (simp add: record_image_def Let_def)

lemma read_record_image:
  assumes "length k < 2 ^ 32" "length v < 2 ^ 32" and "t = WDel \<longrightarrow> v = []"
  shows "read_record (record_image t s k v @ rest) =
    Some (if t = WPut then RPut s k v else RDel s k, rest)"
proof -
  have "record_image t s k v @ rest = header_image (make_header t s k v) @
      (k @ (if t = WPut then v else []) @
       word_bytes 4 (record_crc (make_header t s k v) k v) @ rest)"
    by (simp add: record_image_def Let_def)
  with read_body_record [OF assms] show ?thesis
    by (simp add: read_record_def Let_def wal_type_cases del: type_code.simps)
qed

lemma read_record_torn:
  assumes "length k < 2 ^ 32" "length v < 2 ^ 32"
    and p: "strict_prefix p (record_image t s k v)"
  shows "read_record p = None"
proof (rule ccontr)
  assume "read_record p \<noteq> None"
  then obtain r rest where ok: "read_record p = Some (r, rest)" by auto
  define h where "h = make_header t s k v"
  from ok have len: "23 \<le> length p" by (auto simp: read_record_def split: if_splits)
  then have "take 23 p = header_image h"
    using p by (metis h_def prefix_def strict_prefix_def take_append take_record_image
        diff_is_0_eq take0 append_Nil2)
  with ok have "read_body h (drop 23 p) = Some (r, rest)"
    by (auto simp: read_record_def Let_def split: if_splits)
  from read_body_Some [OF this] have
    "23 + length k + (if t = WPut then length v else 0) + 4 \<le> length p"
    using assms(1,2) len by (auto simp: h_def length_u32 simp del: type_code.simps
        dest!: arg_cong [where f = length])
  moreover have "length p < length (record_image t s k v)"
    using p by (rule prefix_length_less)
  ultimately show False by (simp add: length_record_image)
qed

interpretation wal_log: framing rec_image read_record wf_rec
proof unfold_locales
  fix r rest
  assume "wf_rec r"
  then show "read_record (rec_image r @ rest) = Some (r, rest)"
    by (cases r) (simp_all add: read_record_image)
next
  fix r p
  assume "wf_rec r" and "strict_prefix p (rec_image r)"
  then show "read_record p = None"
    by (cases r) (auto intro: read_record_torn [where v = "[]"] read_record_torn)
next
  fix bs r rest
  assume "read_record bs = Some (r, rest)"
  then show "length rest < length bs" by (rule read_record_shorter)
qed

subsection \<open>Replaying a log applies its records in order\<close>

definition recs_seq :: "wal_rec list \<Rightarrow> u64 \<Rightarrow> u64" where
  "recs_seq rs mx = fold (\<lambda>r a. max a (rec_seq r)) rs mx"

lemma replay_loop_decode:
  "replay_loop m mx good pos bs =
     (case decode_all read_record bs of (rs, left) \<Rightarrow>
        (fold apply_rec rs m, recs_seq rs mx,
         if rs = [] then good else pos + (length bs - length left)))"
proof (induction m mx good pos bs rule: replay_loop.induct)
  case (1 m mx good pos bs)
  show ?case
  proof (cases "read_record bs")
    case None
    then show ?thesis
      by (simp add: replay_loop.simps [of m mx good pos bs] decode_all_None recs_seq_def)
  next
    case (Some p)
    then obtain r rest where p: "read_record bs = Some (r, rest)" by (cases p) auto
    then have "length rest < length bs" by (rule read_record_shorter)
    with 1 [OF p refl refl] p decode_all_left_le [of read_record rest] show ?thesis
      by (auto simp: replay_loop.simps [of m mx good pos bs] wal_log.decode_all_step Let_def
          recs_seq_def split: prod.split dest: decode_all_Nil)
  qed
qed

lemma replay_loop_log:
  assumes "\<forall>r \<in> set rs. wf_rec r" and "read_record tail = None"
  shows "replay_loop m mx 0 0 (log_image rs @ tail) =
    (fold apply_rec rs m, recs_seq rs mx, length (log_image rs))"
  using wal_log.decode_all_stuck [OF assms]
  by (simp add: replay_loop_decode log_image_def)

subsection \<open>Corrupted records\<close>

text \<open>The codeword of a record: everything the checksum covers, then the checksum.\<close>

lemma record_crc_codeword:
  assumes "length stored = 4"
  shows "record_crc h key val = word_val stored \<longleftrightarrow>
    foldl crc_byte (NOT 0)
      (header_image h @ key @ (if htype h = type_code WPut then val else []) @ stored)
      = crc_rounds 32 (NOT 0)"
  using crc32_residue [OF assms, unfolded of_nat_le_val, of "header_image h @ key @ (if htype h = type_code WPut then val else [])"]
  by (cases "htype h = type_code WPut")
    (simp_all add: record_crc_def Let_def del: type_code.simps foldl_append)

lemma record_image_codeword:
  "foldl crc_byte (NOT 0) (record_image t s k v) = crc_rounds 32 (NOT 0)"
  using record_crc_codeword [of "word_bytes 4 (record_crc (make_header t s k v) k v)"
      "make_header t s k v" k v]
  by (cases t) (simp_all add: record_image_def Let_def record_crc_le
    del: foldl_append type_code.simps)

text \<open>Bytes 6 to 14 of a header, the type and the two lengths, fix where the record ends.\<close>

definition frame_bytes :: "string \<Rightarrow> string" where
  "frame_bytes bs = take 9 (drop 6 bs)"

lemma frame_bytes_take: "frame_bytes (take 23 x) = frame_bytes x"
  by (simp add: frame_bytes_def drop_take)

lemma frame_bytes_burst:
  assumes "length b' = length b" and "15 \<le> length pre \<or> length pre + length b \<le> 6"
  shows "frame_bytes (pre @ b' @ post) = frame_bytes (pre @ b @ post)"
  using assms(2)
proof
  assume "15 \<le> length pre"
  then show ?thesis by (simp add: frame_bytes_def)
next
  assume "length pre + length b \<le> 6"
  with assms(1) show ?thesis by (simp add: frame_bytes_def)
qed

lemma header_frame:
  assumes "frame_bytes bs = frame_bytes bs'"
  shows "htype (header_of_image bs) = htype (header_of_image bs')"
    and "key_len (header_of_image bs) = key_len (header_of_image bs')"
    and "val_len (header_of_image bs) = val_len (header_of_image bs')"
proof -
  have sub: "take n (drop (6 + i) x) = take n (drop i (frame_bytes x))" if "n + i \<le> 9" for n i x
    using that by (simp add: frame_bytes_def drop_take add.commute)
  show "htype (header_of_image bs) = htype (header_of_image bs')"
    and "key_len (header_of_image bs) = key_len (header_of_image bs')"
    and "val_len (header_of_image bs) = val_len (header_of_image bs')"
    using assms sub [of 1 0] sub [of 4 1] sub [of 4 5] by (simp_all add: header_of_image_def)
qed

lemma read_record_codeword:
  assumes "read_record (bs @ rest) = Some (r, rest')"
    and len: "length bs = 27 + unat (key_len (header_of_image (take 23 bs))) +
      (if htype (header_of_image (take 23 bs)) = type_code WPut
       then unat (val_len (header_of_image (take 23 bs))) else 0)"
  shows "foldl crc_byte (NOT 0) bs = crc_rounds 32 (NOT 0)"
proof -
  define h where "h = header_of_image (take 23 bs)"
  have l23: "23 \<le> length bs" unfolding len by linarith
  then have hi: "header_image h = take 23 bs"
    by (simp add: h_def header_image_of_image)
  from assms(1) l23 have "read_body h (drop 23 bs @ rest) = Some (r, rest')"
    unfolding read_record_def Let_def by (simp add: h_def split: if_splits del: type_code.simps)
  from read_body_Some [OF this] obtain key val stored where
    split: "drop 23 bs @ rest = key @ (if htype h = type_code WPut then val else []) @ stored @ rest'"
    and lens: "length key = unat (key_len h)" "length val = unat (val_len h)" "length stored = 4"
    and crc: "record_crc h key val = word_val stored"
    by (elim exE conjE) (rule that)
  have "length (drop 23 bs) = length (key @ (if htype h = type_code WPut then val else []) @ stored)"
    unfolding length_drop len h_def [symmetric] using lens by simp
  moreover from split have "drop 23 bs @ rest =
      (key @ (if htype h = type_code WPut then val else []) @ stored) @ rest'"
    by (simp only: append_assoc)
  ultimately have "drop 23 bs = key @ (if htype h = type_code WPut then val else []) @ stored"
    using append_eq_append_conv by blast
  then have "bs = header_image h @ key @ (if htype h = type_code WPut then val else []) @ stored"
    using append_take_drop_id [of 23 bs] hi by simp
  with crc record_crc_codeword [OF lens(3), of h key val] show ?thesis by simp
qed

lemma record_burst:
  assumes "length k < 2 ^ 32" "length v < 2 ^ 32"
    and img: "record_image t s k v = pre @ b @ post"
    and b': "length b' = length b" "length b \<le> 4" "b' \<noteq> b"
    and frame: "15 \<le> length pre \<or> length pre + length b \<le> 6"
  shows "read_record (pre @ b' @ post @ rest) = None"
proof (rule ccontr)
  assume "read_record (pre @ b' @ post @ rest) \<noteq> None"
  then obtain r rest' where ok: "read_record ((pre @ b' @ post) @ rest) = Some (r, rest')"
    by auto
  have fr: "frame_bytes (take 23 (pre @ b' @ post)) = frame_bytes (take 23 (pre @ b @ post))"
    using frame frame_bytes_burst [OF b'(1)] by (simp only: frame_bytes_take)
  have "take 23 (pre @ b @ post) = header_image (make_header t s k v)"
    by (simp flip: img)
  with header_frame [OF fr] have
    "htype (header_of_image (take 23 (pre @ b' @ post))) = type_code t"
    "key_len (header_of_image (take 23 (pre @ b' @ post))) = of_nat (length k)"
    "val_len (header_of_image (take 23 (pre @ b' @ post))) = of_nat (length v)"
    by simp_all
  moreover have "length (pre @ b' @ post) = length (record_image t s k v)"
    using b'(1) img by simp
  ultimately have "foldl crc_byte (NOT 0) (pre @ b' @ post) = crc_rounds 32 (NOT 0)"
    using assms(1,2) by (intro read_record_codeword [OF ok])
      (simp add: length_record_image length_u32 del: type_code.simps)
  then have "foldl crc_byte (NOT 0) (pre @ b' @ post) = foldl crc_byte (NOT 0) (pre @ b @ post)"
    using record_image_codeword [of t s k v] by (simp add: img del: foldl_append)
  then have "b' = b" using b' by (intro crc32_codeword_burst) simp_all
  with b'(3) show False by simp
qed

end
