(* ===== verification/Wal_Props.thy ===== *)
theory Wal_Props
  imports Wal_Log
begin

unbundle bit_operations_syntax

text \<open>
  The properties of the write-ahead log: its checksum, replay of whole, cut and
  corrupted logs, and the retrying writer.
\<close>

subsection \<open>The checksum\<close>

text \<open>
  C40.  The table-driven checksum is the bit-serial CRC with the reversed polynomial: eight
  rounds of shift and conditional xor for every byte, for every input and start value.
\<close>

theorem crc32_serial:
  "crc32_update crc data = NOT (foldl (\<lambda>c b. crc_rounds 8 (c XOR of_char b)) (NOT crc) data)"
proof -
  have "foldl crc_byte c data = foldl (\<lambda>c b. crc_rounds 8 (c XOR of_char b)) c data" for c
    by (induction data arbitrary: c) (simp_all add: crc_byte_rounds)
  then show ?thesis by (simp add: crc32_update_def)
qed

text \<open>The published check value of the CRC-32: the checksum of the digits 1 to 9.\<close>

theorem crc32_check: "crc32_update 0 ''123456789'' = 0xCBF43926"
  by code_simp

subsection \<open>Replay\<close>

text \<open>
  C10.  Replaying a log.  On a file that holds the images of well-formed records and then
  bytes that are not a good record, \<^verbatim>\<open>replay_into\<close> applies exactly these records in
  order, reports their largest sequence number, remembers the offset after the last
  of them and positions the file at its end.
\<close>

theorem replay_applies_log:
  assumes "list_all wf_rec rs" and "read_record junk = None"
    and "wal_fd w = Some (p, off)" and "d p = Some \<lparr>content = log_image rs @ junk, synced = n\<rparr>"
  shows "replay_into io_ok m mx w d =
    (True, fold apply_rec rs m, fold (\<lambda>r a. max a (rec_seq r)) rs 0,
     w\<lparr>wal_last_good := length (log_image rs), wal_fd := Some (p, length (log_image rs @ junk))\<rparr>)"
  using assms replay_loop_log [of rs junk m 0]
  by (simp add: replay_into_def file_size_def recs_seq_def list_all_iff)

theorem replay_applies_log_witness:
  "replay_into io_ok [] 7 (wal_new\<lparr>wal_fd := Some (''w'', 0)\<rparr>)
     [''w'' \<mapsto> \<lparr>content = log_image [RPut 4 ''a'' ''1'', RPut 9 ''b'' [], RDel 5 ''a''] @ ''KVLG'', synced = 0\<rparr>] =
   (True, [(''b'', [])], 9, wal_new\<lparr>wal_last_good := 85, wal_fd := Some (''w'', 89)\<rparr>)"
proof -
  let ?rs = "[RPut 4 ''a'' ''1'', RPut 9 ''b'' [], RDel 5 ''a'']"
  have "read_record ''KVLG'' = None" by (simp add: read_record_def)
  then have "replay_into io_ok [] 7 (wal_new\<lparr>wal_fd := Some (''w'', 0)\<rparr>)
      [''w'' \<mapsto> \<lparr>content = log_image ?rs @ ''KVLG'', synced = 0\<rparr>] =
    (True, fold apply_rec ?rs [], fold (\<lambda>r a. max a (rec_seq r)) ?rs 0,
     wal_new\<lparr>wal_fd := Some (''w'', 0)\<rparr>\<lparr>wal_last_good := length (log_image ?rs),
       wal_fd := Some (''w'', length (log_image ?rs @ ''KVLG''))\<rparr>)"
    by (intro replay_applies_log [where n = 0]) simp_all
  then show ?thesis by (simp add: length_record_image max_def)
qed

text \<open>
  Replaying a cut log.  A log of well-formed records cut after any number of bytes
  replays exactly the records that are complete in it; no torn record is ever applied.
\<close>

theorem replay_cut_log:
  assumes "list_all wf_rec rs"
  shows "fst (replay_loop m mx 0 0 (take n (log_image rs))) =
    fold apply_rec (take (whole_records rec_image rs n) rs) m"
  using assms wal_log.decode_all_cut [of rs n]
  by (auto simp: replay_loop_decode log_image_def list_all_iff split: prod.split)

theorem replay_cut_log_witness:
  "fst (replay_loop [] 0 0 0 (take 40 (log_image [RPut 1 ''a'' ''1'', RPut 2 ''b'' ''2'']))) = [(''a'', ''1'')]"
  using replay_cut_log [of "[RPut 1 ''a'' ''1'', RPut 2 ''b'' ''2'']" "[]" 0 40]
  by (simp add: length_record_image)

text \<open>
  C11.  Corruption.  Changing up to four consecutive bytes of a stored record, anywhere but
  in its type and length fields, makes replay stop in front of it: the records before are
  applied, the changed one and everything after it are not.
\<close>

theorem replay_stops_at_corruption:
  assumes "list_all wf_rec rs" and "length k < 2 ^ 32" and "length v < 2 ^ 32"
    and "record_image t s k v = pre @ b @ post"
    and "length b' = length b" and "length b \<le> 4" and "b' \<noteq> b"
    and "15 \<le> length pre \<or> length pre + length b \<le> 6"
  shows "replay_loop m 0 0 0 (log_image rs @ pre @ b' @ post @ rest) =
    (fold apply_rec rs m, fold (\<lambda>r a. max a (rec_seq r)) rs 0, length (log_image rs))"
  using assms(1) replay_loop_log [of rs "pre @ b' @ post @ rest" m 0, OF _ record_burst [OF assms(2-8)]]
  by (simp add: recs_seq_def list_all_iff)

theorem replay_stops_at_corruption_witness:
  "replay_loop [] 0 0 0 (log_image [RPut 1 ''a'' ''1''] @ header_image (make_header WPut 2 ''b'' ''2'') @
      ''c'' @ ''2'' @ word_bytes 4 (record_crc (make_header WPut 2 ''b'' ''2'') ''b'' ''2'') @ rec_image (RPut 3 ''x'' [])) =
    ([(''a'', ''1'')], 1, 29)"
proof -
  let ?h = "make_header WPut 2 ''b'' ''2''"
  have "record_image WPut 2 ''b'' ''2'' =
      header_image ?h @ ''b'' @ ''2'' @ word_bytes 4 (record_crc ?h ''b'' ''2'')"
    by (simp add: record_image_def Let_def)
  from replay_stops_at_corruption [OF _ _ _ this, of "[RPut 1 ''a'' ''1'']" "''c''" "[]" "rec_image (RPut 3 ''x'' [])"]
  show ?thesis by (simp add: length_record_image max_def)
qed

subsection \<open>Writing\<close>

lemma write_all_no_fail: "WFail \<notin> set rs \<Longrightarrow> snd (write_all rs p)"
  by (induction rs p rule: write_all.induct) (auto split: prod.split)

text \<open>
  The retrying writer.  Whatever the single \<^verbatim>\<open>write\<close> calls return, \<^verbatim>\<open>write_all\<close> stores a
  prefix of its data and reports success exactly when all of it is stored; interrupted
  and partial calls alone never make it fail.
\<close>

theorem write_all_spec:
  "prefix (fst (write_all rs p)) p \<and> (snd (write_all rs p) \<longleftrightarrow> fst (write_all rs p) = p) \<and>
   snd (write_all (filter (\<lambda>r. r \<noteq> WFail) rs) p)"
proof (induction rs p rule: write_all.induct)
  case (5 n rs v va)
  define x where "x = v # va"
  obtain q ok where q: "write_all rs (drop n x) = (q, ok)" by (cases "write_all rs (drop n x)")
  from "5.IH" [folded x_def] have IH: "prefix q (drop n x)" "ok \<longleftrightarrow> q = drop n x"
    by (simp_all add: q)
  have 1: "write_all (Wrote n # rs) x = (take n x @ q, ok)" by (simp add: x_def q [unfolded x_def])
  have 2: "prefix (take n x @ q) (take n x @ drop n x)" using IH(1) by (simp only: same_prefix_prefix)
  have 3: "take n x @ q = take n x @ drop n x \<longleftrightarrow> q = drop n x" by (simp only: same_append_eq)
  from 1 2 3 IH(2) write_all_no_fail [of "filter (\<lambda>r. r \<noteq> WFail) (Wrote n # rs)" x]
  show ?case by (simp add: x_def [symmetric])
qed (auto intro: write_all_no_fail)

end
