(* ===== verification/Text_Streams.thy ===== *)
theory Text_Streams
  imports Kv_Prelude
begin

text \<open>
  The formatted input and output of the C++ standard library that the sources use:
  \<^verbatim>\<open>operator>>\<close> into a string, which skips white space and reads one word, and
  \<^verbatim>\<open>std::getline\<close> with a delimiter.  An input stream is the string of its unread
  characters.
\<close>

text \<open>\<^verbatim>\<open>isspace\<close> of the C locale: blank, and the codes 9 to 13.\<close>

definition is_space :: "char \<Rightarrow> bool" where
  "is_space c \<longleftrightarrow> c = CHR '' '' \<or> (9 \<le> (of_char c :: nat) \<and> (of_char c :: nat) \<le> 13)"

text \<open>\<^verbatim>\<open>in >> word\<close>: the word and the rest, or None when the stream fails at its end.\<close>

definition extract_word :: "string \<Rightarrow> (string \<times> string) option" where
  "extract_word s =
     (case dropWhile is_space s of
        [] \<Rightarrow> None
      | t \<Rightarrow> Some (takeWhile (\<lambda>c. \<not> is_space c) t, dropWhile (\<lambda>c. \<not> is_space c) t))"

text \<open>
  \<^verbatim>\<open>std::getline(in, x, delim)\<close>: fails when no character is left, otherwise reads up to the
  delimiter, which is dropped.
\<close>

definition get_line :: "char \<Rightarrow> string \<Rightarrow> (string \<times> string) option" where
  "get_line d s =
     (if s = [] then None
      else Some (takeWhile (\<lambda>c. c \<noteq> d) s, drop 1 (dropWhile (\<lambda>c. c \<noteq> d) s)))"

text \<open>A string that \<^verbatim>\<open>operator>>\<close> reads back as it was written.\<close>

definition is_word :: "string \<Rightarrow> bool" where
  "is_word s \<longleftrightarrow> s \<noteq> [] \<and> list_all (\<lambda>c. \<not> is_space c) s"

abbreviation (input) TAB :: char where "TAB \<equiv> CHR 0x09"
abbreviation (input) NL :: char where "NL \<equiv> CHR 0x0A"

lemma is_space_simps [simp]:
  "is_space (CHR '' '')" "is_space (CHR 0x09)" "is_space (CHR 0x0A)"
  by (simp_all add: is_space_def)

lemma dropWhile_shorter: "length (dropWhile P s) \<le> length s"
  by (induction s) auto

lemma extract_word_shorter: "extract_word s = Some (w, rest) \<Longrightarrow> length rest < length s"
proof -
  assume a: "extract_word s = Some (w, rest)"
  then obtain c t where t: "dropWhile is_space s = c # t"
    by (auto simp: extract_word_def split: list.splits)
  then have "\<not> is_space c" by (metis dropWhile_eq_Cons_conv)
  with a t have "rest = dropWhile (\<lambda>c. \<not> is_space c) t"
    by (simp add: extract_word_def)
  then have "length rest \<le> length t" by (simp add: dropWhile_shorter)
  also have "length t < length s"
    using t dropWhile_shorter [of is_space s] by (metis length_Cons Suc_le_lessD)
  finally show ?thesis .
qed

lemma extract_word_blank [simp]: "is_space c \<Longrightarrow> extract_word (c # s) = extract_word s"
  by (simp add: extract_word_def)

lemma extract_word_Nil [simp]: "extract_word [] = None"
  by (simp add: extract_word_def)

lemma extract_word_word:
  assumes "is_word w" and "is_space c"
  shows "extract_word (w @ c # s) = Some (w, c # s)"
proof -
  obtain x xs where w: "w = x # xs" "\<not> is_space x" "list_all (\<lambda>c. \<not> is_space c) xs"
    using assms(1) by (cases w) (auto simp: is_word_def)
  then have "takeWhile (\<lambda>c. \<not> is_space c) (xs @ c # s) = xs"
    and "dropWhile (\<lambda>c. \<not> is_space c) (xs @ c # s) = c # s"
    using assms(2) by (auto simp: list_all_iff takeWhile_append dropWhile_append)
  with w show ?thesis by (simp add: extract_word_def)
qed

lemma get_line_field:
  assumes "d \<notin> set x"
  shows "get_line d (x @ d # s) = Some (x, s)"
proof -
  have "takeWhile (\<lambda>c. c \<noteq> d) (x @ d # s) = x" "dropWhile (\<lambda>c. c \<noteq> d) (x @ d # s) = d # s"
    using assms by (auto simp: takeWhile_append dropWhile_append)
  then show ?thesis by (simp add: get_line_def)
qed

lemma get_line_last:
  assumes "d \<notin> set x" and "x \<noteq> []"
  shows "get_line d x = Some (x, [])"
proof -
  have "takeWhile (\<lambda>c. c \<noteq> d) x = x" "dropWhile (\<lambda>c. c \<noteq> d) x = []"
    using assms by auto
  with assms show ?thesis by (simp add: get_line_def del: dropWhile_eq_Nil_conv takeWhile_eq_all_conv)
qed

end
