(* ===== verification/Kv_Store.thy ===== *)
theory Kv_Store
  imports Wal_Log Text_Streams
begin

text \<open>
  The storage engine: \<^verbatim>\<open>class KVStore\<close> of \<^verbatim>\<open>src/include/kv/kv_store.h\<close> and
  \<^verbatim>\<open>src/src/kv_store.cpp\<close>.  A state of the program is the store and the disk.  Every method
  runs under the store's lock, so it is one step.

  The map is an association list with distinct keys; \<^verbatim>\<open>std::unordered_map\<close> does not say in
  which order it visits its entries, so the methods that iterate over it take the order
  as an argument \<open>ord\<close>, a permutation of the entries.
\<close>

record kvstore =
  kv_map :: kvmap
  kv_wal :: wal
  kv_seq :: u64
  kv_opened :: bool
  kv_group :: int  \<comment> \<open>\<^verbatim>\<open>group_commit_every_\<close>\<close>

text \<open>An iteration order of the hash map: the same entries in some order.\<close>

definition iter_order :: "(kvmap \<Rightarrow> kvmap) \<Rightarrow> bool" where
  "iter_order ord \<longleftrightarrow> (\<forall>m. mset (ord m) = mset m)"

type_synonym sys = "kvstore \<times> disk"

definition kv_new :: kvstore where
  "kv_new = \<lparr>kv_map = [], kv_wal = wal_new, kv_seq = 0, kv_opened = False, kv_group = 5\<rparr>"

abbreviation kv_snapshot :: string where
  "kv_snapshot \<equiv> ''/tmp/kv.snapshot''"

subsection \<open>Snapshot files\<close>

text \<open>The loop \<^verbatim>\<open>while (in >> k >> v) map_[k] = v\<close>.\<close>

function load_pairs :: "kvmap \<Rightarrow> string \<Rightarrow> kvmap" where
  "load_pairs m s =
     (case extract_word s of
        None \<Rightarrow> m
      | Some (k, s1) \<Rightarrow>
          (case extract_word s1 of
             None \<Rightarrow> m
           | Some (v, s2) \<Rightarrow> load_pairs (AList.update k v m) s2))"
  by pat_completeness auto
termination
  by (relation "measure (\<lambda>(m, s). length s)")
    (auto dest!: extract_word_shorter)

declare load_pairs.simps [simp del]

text \<open>The loop \<^verbatim>\<open>for (const auto& [k, v] : map_) out << k << '\t' << v << '\n'\<close>.\<close>

definition save_text :: "kvmap \<Rightarrow> string" where
  "save_text m = concat (map (\<lambda>(k, v). k @ [TAB] @ v @ [NL]) m)"

text \<open>
  A file written through an output stream: the part of the text that finds room, none of it
  synchronised.  The code never asks the stream whether its writes succeeded.
\<close>

definition stream_file :: "io \<Rightarrow> string \<Rightarrow> dfile" where
  "stream_file io t =
     \<lparr>content = (case io_room io of None \<Rightarrow> t | Some n \<Rightarrow> take n t), synced = 0\<rparr>"

definition load_from_file_unlocked :: "string \<Rightarrow> sys \<Rightarrow> bool \<times> sys" where
  "load_from_file_unlocked path sd =
     (case sd of (s, d) \<Rightarrow>
       case d path of
         None \<Rightarrow> (False, (s, d))
       | Some f \<Rightarrow> (True, (s\<lparr>kv_map := load_pairs (kv_map s) (content f)\<rparr>, d)))"

definition save_to_file_unlocked ::
    "io \<Rightarrow> (kvmap \<Rightarrow> kvmap) \<Rightarrow> string \<Rightarrow> sys \<Rightarrow> bool \<times> sys" where
  "save_to_file_unlocked io ord path sd =
     (case sd of (s, d) \<Rightarrow>
       if \<not> io_stream io then (False, (s, d))
       else (True, (s, d(path \<mapsto> stream_file io (save_text (ord (kv_map s)))))))"

definition load_from_file :: "string \<Rightarrow> sys \<Rightarrow> bool \<times> sys" where
  "load_from_file path sd = load_from_file_unlocked path sd"

definition save_to_file :: "io \<Rightarrow> (kvmap \<Rightarrow> kvmap) \<Rightarrow> string \<Rightarrow> sys \<Rightarrow> bool \<times> sys" where
  "save_to_file io ord path sd = save_to_file_unlocked io ord path sd"

definition save_snapshot :: "io \<Rightarrow> (kvmap \<Rightarrow> kvmap) \<Rightarrow> string \<Rightarrow> sys \<Rightarrow> bool \<times> sys" where
  "save_snapshot io ord path sd =
     (case sd of (s, d) \<Rightarrow>
       let tmp = path @ ''.tmp'' in
       if \<not> io_stream io then (False, (s, d))
       else
         let f = stream_file io (save_text (ord (kv_map s)));
             d = d(tmp \<mapsto> f)
         in if \<not> io_rename io then (False, (s, d))
            else (True, (s, d(tmp := None, path \<mapsto> f))))"

definition load_snapshot :: "string \<Rightarrow> sys \<Rightarrow> bool \<times> sys" where
  "load_snapshot path sd =
     (case sd of (s, d) \<Rightarrow>
       case d path of
         None \<Rightarrow> (False, (s, d))
       | Some f \<Rightarrow> (True, (s\<lparr>kv_map := load_pairs [] (content f)\<rparr>, d)))"

subsection \<open>The methods\<close>

definition kv_open :: "io \<Rightarrow> string \<Rightarrow> sys \<Rightarrow> bool \<times> sys" where
  "kv_open io path sd =
     (if kv_opened (fst sd) then (True, sd)
      else
        let (s, d) = snd (load_from_file_unlocked kv_snapshot sd);
            (ok, w, d) = wal_open io path (kv_wal s) d;
            s = s\<lparr>kv_wal := w\<rparr>
        in if \<not> ok then (False, (s, d))
           else
             let (ok, m, mx, w) = replay_into io (kv_map s) 0 (kv_wal s) d;
                 s = s\<lparr>kv_map := m, kv_wal := w\<rparr>
             in if \<not> ok then (False, (s, d))
                else (True, (s\<lparr>kv_seq := mx, kv_opened := True\<rparr>, d)))"

definition set_group_commit_every :: "int \<Rightarrow> kvstore \<Rightarrow> kvstore" where
  "set_group_commit_every n s = s\<lparr>kv_group := (if n \<le> 0 then 1 else n)\<rparr>"

definition flush_wal :: "io \<Rightarrow> sys \<Rightarrow> bool \<times> sys" where
  "flush_wal io sd =
     (case sd of (s, d) \<Rightarrow>
       let (ok, w, d) = wal_flush io (kv_wal s) d in (ok, (s\<lparr>kv_wal := w\<rparr>, d)))"

text \<open>\<^verbatim>\<open>(s % group_commit_every_) == 0\<close>, where the \<^verbatim>\<open>int\<close> is converted to 64 bits unsigned.\<close>

definition commit_due :: "u64 \<Rightarrow> int \<Rightarrow> bool" where
  "commit_due q n \<longleftrightarrow> q mod word_of_int n = 0"

definition kv_put :: "io \<Rightarrow> string \<Rightarrow> string \<Rightarrow> sys \<Rightarrow> sys" where
  "kv_put io key val sd =
     (case sd of (s, d) \<Rightarrow>
       if \<not> kv_opened s then (s, d)
       else
         let q = kv_seq s + 1;
             s = s\<lparr>kv_seq := q\<rparr>;
             (ok, w) = append_put q key val (kv_wal s);
             s = s\<lparr>kv_wal := w\<rparr>
         in if \<not> ok then (s, d)
            else
              let s = s\<lparr>kv_map := AList.update key val (kv_map s)\<rparr>
              in if commit_due q (kv_group s) then snd (flush_wal io (s, d)) else (s, d))"

definition kv_get :: "string \<Rightarrow> kvstore \<Rightarrow> string option" where
  "kv_get key s = map_of (kv_map s) key"

definition kv_del :: "io \<Rightarrow> string \<Rightarrow> sys \<Rightarrow> bool \<times> sys" where
  "kv_del io key sd =
     (case sd of (s, d) \<Rightarrow>
       if \<not> kv_opened s then (False, (s, d))
       else
         let q = kv_seq s + 1;
             s = s\<lparr>kv_seq := q\<rparr>;
             (ok, w) = append_del q key (kv_wal s);
             s = s\<lparr>kv_wal := w\<rparr>
         in if \<not> ok then (False, (s, d))
            else
              let (ok, (s, d)) = (if commit_due q (kv_group s) then flush_wal io (s, d)
                                  else (True, (s, d)))
              in if \<not> ok then (False, (s, d))
                 else (kv_get key s \<noteq> None,
                       (s\<lparr>kv_map := AList.delete key (kv_map s)\<rparr>, d)))"

definition kv_size :: "kvstore \<Rightarrow> nat" where
  "kv_size s = length (kv_map s)"

definition checkpoint ::
    "io \<Rightarrow> (kvmap \<Rightarrow> kvmap) \<Rightarrow> string \<Rightarrow> string \<Rightarrow> sys \<Rightarrow> bool \<times> sys" where
  "checkpoint io ord snapshot_path path sd =
     (if \<not> kv_opened (fst sd) then (False, sd)
      else
        let (ok, (s, d)) = save_to_file_unlocked io ord snapshot_path sd
        in if \<not> ok then (False, (s, d))
           else
             let w = wal_close (kv_wal s);
                 d = (if io_remove io then d(path := None) else d);
                 (ok, w, d) = wal_open io path w d
             in (ok, (s\<lparr>kv_wal := w\<rparr>, d)))"

definition ApplyPut :: "string \<Rightarrow> string \<Rightarrow> kvstore \<Rightarrow> kvstore" where
  "ApplyPut key val s = s\<lparr>kv_map := AList.update key val (kv_map s)\<rparr>"

definition ApplyDel :: "string \<Rightarrow> kvstore \<Rightarrow> kvstore" where
  "ApplyDel key s = s\<lparr>kv_map := AList.delete key (kv_map s)\<rparr>"

text \<open>\<^verbatim>\<open>k.rfind(prefix, 0) == 0\<close>: \<open>k\<close> starts with the prefix.\<close>

definition starts_with :: "string \<Rightarrow> string \<Rightarrow> bool" where
  "starts_with p k \<longleftrightarrow> take (length p) k = p"

definition list_keys_with_prefix :: "(kvmap \<Rightarrow> kvmap) \<Rightarrow> string \<Rightarrow> kvstore \<Rightarrow> string list" where
  "list_keys_with_prefix ord p s = filter (starts_with p) (map fst (ord (kv_map s)))"

end
