(* ===== verification/Kv_Log_Inv.thy ===== *)
theory Kv_Log_Inv
  imports Kv_Store
begin

text \<open>
  The store as a map with a log.  The abstract state is a partial map; every command of a
  client has an abstract meaning on it.  The invariant \<open>log_inv\<close> ties the store to its log:
  the file holds the flushed records, the buffer the records not yet flushed, and the map
  in memory is what all of them make of the map the store was opened with.
\<close>

subsection \<open>Commands and their meaning\<close>

datatype kv_cmd = CPut string string | CDel string | CFlush | CBatch int

fun kv_exec :: "io \<Rightarrow> kv_cmd \<Rightarrow> sys \<Rightarrow> sys" where
  "kv_exec io (CPut k v) sd = kv_put io k v sd"
| "kv_exec io (CDel k) sd = snd (kv_del io k sd)"
| "kv_exec io CFlush sd = snd (flush_wal io sd)"
| "kv_exec io (CBatch n) sd = (set_group_commit_every n (fst sd), snd sd)"

fun cmd_upd :: "kv_cmd \<Rightarrow> (string \<rightharpoonup> string) \<Rightarrow> (string \<rightharpoonup> string)" where
  "cmd_upd (CPut k v) m = m(k \<mapsto> v)"
| "cmd_upd (CDel k) m = m(k := None)"
| "cmd_upd CFlush m = m"
| "cmd_upd (CBatch n) m = m"

fun is_write :: "kv_cmd \<Rightarrow> bool" where
  "is_write (CPut k v) = True"
| "is_write (CDel k) = True"
| "is_write CFlush = False"
| "is_write (CBatch n) = False"

text \<open>Keys and values the 32-bit length fields of a log record can describe.\<close>

fun wf_cmd :: "kv_cmd \<Rightarrow> bool" where
  "wf_cmd (CPut k v) \<longleftrightarrow> length k < 2 ^ 32 \<and> length v < 2 ^ 32"
| "wf_cmd (CDel k) \<longleftrightarrow> length k < 2 ^ 32"
| "wf_cmd CFlush = True"
| "wf_cmd (CBatch n) = True"

fun rec_cmd :: "wal_rec \<Rightarrow> kv_cmd" where
  "rec_cmd (RPut s k v) = CPut k v"
| "rec_cmd (RDel s k) = CDel k"

fun cmd_rec :: "u64 \<Rightarrow> kv_cmd \<Rightarrow> wal_rec list" where
  "cmd_rec q (CPut k v) = [RPut q k v]"
| "cmd_rec q (CDel k) = [RDel q k]"
| "cmd_rec q CFlush = []"
| "cmd_rec q (CBatch n) = []"

lemma rec_cmd_cmd_rec [simp]: "map rec_cmd (cmd_rec q c) = filter is_write [c]"
  by (cases c) simp_all

lemma wf_cmd_rec: "wf_cmd c \<Longrightarrow> r \<in> set (cmd_rec q c) \<Longrightarrow> wf_rec r"
  by (cases c) auto

lemma map_of_apply_rec: "map_of (apply_rec r m) = cmd_upd (rec_cmd r) (map_of m)"
  by (cases r) (simp_all add: update_conv' delete_conv')

lemma map_of_fold_apply_rec:
  "map_of (fold apply_rec rs m) = fold cmd_upd (map rec_cmd rs) (map_of m)"
  by (induction rs arbitrary: m) (simp_all add: map_of_apply_rec)

lemma distinct_apply_rec: "distinct (map fst m) \<Longrightarrow> distinct (map fst (apply_rec r m))"
  by (cases r) (simp_all add: distinct_update distinct_delete)

lemma distinct_fold_apply_rec:
  "distinct (map fst m) \<Longrightarrow> distinct (map fst (fold apply_rec rs m))"
  by (induction rs arbitrary: m) (simp_all add: distinct_apply_rec)

lemma fold_cmd_upd_writes: "fold cmd_upd (filter is_write cs) m = fold cmd_upd cs m"
proof (induction cs arbitrary: m)
  case Nil
  then show ?case by simp
next
  case (Cons c cs)
  then show ?case by (cases c) (simp_all add: fun_upd_def)
qed

subsection \<open>The log on disk and in the buffer\<close>

abbreviation log_file :: "wal_rec list \<Rightarrow> dfile" where
  "log_file rs \<equiv> \<lparr>content = log_image rs, synced = length (log_image rs)\<rparr>"

text \<open>
  \<open>wal_rep p rs bs w d\<close>: the log is open on the file \<open>p\<close> and positioned at its end, the records
  \<open>rs\<close> are in the file and durable, the records \<open>bs\<close> are in the buffer.
\<close>

definition wal_rep :: "string \<Rightarrow> wal_rec list \<Rightarrow> wal_rec list \<Rightarrow> wal \<Rightarrow> disk \<Rightarrow> bool" where
  "wal_rep p rs bs w d \<longleftrightarrow>
     wal_fd w = Some (p, length (log_image rs)) \<and> wal_buffer w = map rec_image bs \<and>
     d p = Some (log_file rs) \<and> (\<forall>r \<in> set (rs @ bs). wf_rec r)"

lemma wal_rep_append_put:
  assumes "wal_rep p rs bs w d" and "wf_rec (RPut q k v)"
  obtains w' where "append_put q k v w = (True, w')" and "wal_rep p rs (bs @ [RPut q k v]) w' d"
  using assms by (auto simp: append_put_def write_record_def wal_rep_def)

lemma wal_rep_append_del:
  assumes "wal_rep p rs bs w d" and "wf_rec (RDel q k)"
  obtains w' where "append_del q k w = (True, w')" and "wal_rep p rs (bs @ [RDel q k]) w' d"
  using assms by (auto simp: append_del_def write_record_def wal_rep_def)

lemma wal_rep_flush_ok:
  assumes "wal_rep p rs bs w d"
  obtains w' d' where "wal_flush io_ok w d = (True, w', d')" and "wal_rep p (rs @ bs) [] w' d'"
    and "\<forall>p'. p' \<noteq> p \<longrightarrow> d' p' = d p'"
proof (cases "bs = []")
  case True
  with assms have "wal_flush io_ok w d = (True, w, d)" by (simp add: wal_flush_def wal_rep_def)
  with True assms that show ?thesis by simp
next
  case False
  have c: "concat (map rec_image bs) = log_image bs" by (simp add: log_image_def)
  define w' where "w' = w\<lparr>wal_fd := Some (p, length (log_image rs) + length (log_image bs)), wal_buffer := []\<rparr>"
  define d' where "d' = d(p \<mapsto> log_file (rs @ bs))"
  have "wal_flush io_ok w d = (True, w', d')"
    using assms False
    by (simp add: wal_flush_def wal_rep_def w'_def d'_def c write_at_def fsync_file_def)
  moreover have "wal_rep p (rs @ bs) [] w' d'"
    using assms by (simp add: wal_rep_def w'_def d'_def)
  moreover have "\<forall>p'. p' \<noteq> p \<longrightarrow> d' p' = d p'" by (simp add: d'_def)
  ultimately show ?thesis using that by blast
qed

text \<open>What any flush, successful or not, leaves in the file.\<close>

definition wal_torn :: "string \<Rightarrow> wal_rec list \<Rightarrow> wal_rec list \<Rightarrow> disk \<Rightarrow> bool" where
  "wal_torn p rs bs d \<longleftrightarrow>
     (\<exists>q n. d p = Some \<lparr>content = log_image rs @ q, synced = n\<rparr> \<and> prefix q (log_image bs) \<and>
        length (log_image rs) \<le> n \<and> n \<le> length (log_image rs @ q))"

lemma wal_rep_torn: "wal_rep p rs bs w d \<Longrightarrow> wal_torn p rs bs d"
  by (auto simp: wal_rep_def wal_torn_def intro!: exI [of _ "[]"])

lemma wal_rep_flush_torn:
  assumes "wal_rep p rs bs w d" and "wal_flush io w d = (ok, w', d')"
  shows "wal_torn p rs bs d' \<and> (\<forall>p'. p' \<noteq> p \<longrightarrow> d' p' = d p')"
proof (cases "bs = []")
  case True
  with assms have "d' = d" by (simp add: wal_flush_def wal_rep_def)
  with assms wal_rep_torn show ?thesis by blast
next
  case False
  have c: "concat (map rec_image bs) = log_image bs" by (simp add: log_image_def)
  obtain q ok' where q: "write_recs (io_writes io) (map rec_image bs) = (q, ok')"
    by (cases "write_recs (io_writes io) (map rec_image bs)") auto
  from write_recs_spec [OF q] have "prefix q (log_image bs)" by (simp add: c)
  moreover have "d' = d(p \<mapsto> \<lparr>content = log_image rs @ q, synced = length (log_image rs)\<rparr>) \<or>
      d' = d(p \<mapsto> \<lparr>content = log_image rs @ q, synced = length (log_image rs @ q)\<rparr>)"
    using assms False q
    by (auto simp: wal_flush_def wal_rep_def write_at_def fsync_file_def Let_def split: if_splits)
  ultimately show ?thesis by (auto simp: wal_torn_def)
qed

subsection \<open>The store and its log\<close>

definition log_inv ::
    "(string \<rightharpoonup> string) \<Rightarrow> string \<Rightarrow> wal_rec list \<Rightarrow> wal_rec list \<Rightarrow> sys \<Rightarrow> bool" where
  "log_inv base p rs bs sd \<longleftrightarrow>
     (case sd of (s, d) \<Rightarrow>
       kv_opened s \<and> wal_rep p rs bs (kv_wal s) d \<and> 0 < kv_group s \<and>
       distinct (map fst (kv_map s)) \<and>
       map_of (kv_map s) = fold cmd_upd (map rec_cmd (rs @ bs)) base)"

lemma log_inv_flush_ok:
  assumes "log_inv base p rs bs (s, d)"
  obtains s' d' where "flush_wal io_ok (s, d) = (True, (s', d'))"
    and "log_inv base p (rs @ bs) [] (s', d')" and "kv_map s' = kv_map s"
    and "kv_seq s' = kv_seq s" and "kv_group s' = kv_group s"
    and "\<forall>p'. p' \<noteq> p \<longrightarrow> d' p' = d p'"
proof -
  from assms have "wal_rep p rs bs (kv_wal s) d" by (simp add: log_inv_def)
  then obtain w' d' where f: "wal_flush io_ok (kv_wal s) d = (True, w', d')"
    "wal_rep p (rs @ bs) [] w' d'" "\<forall>p'. p' \<noteq> p \<longrightarrow> d' p' = d p'"
    by (rule wal_rep_flush_ok)
  with assms that [of "s\<lparr>kv_wal := w'\<rparr>" d'] show ?thesis
    by (simp add: flush_wal_def log_inv_def)
qed

text \<open>The state in which a write has been buffered and applied, before the flush that may follow.\<close>

definition buffered :: "wal_rec \<Rightarrow> wal \<Rightarrow> kvstore \<Rightarrow> kvstore" where
  "buffered r w s = s\<lparr>kv_seq := rec_seq r, kv_wal := w, kv_map := apply_rec r (kv_map s)\<rparr>"

lemma log_inv_buffered:
  assumes "log_inv base p rs bs (s, d)" and "wal_rep p rs (bs @ [r]) w d"
  shows "log_inv base p rs (bs @ [r]) (buffered r w s, d)"
  using assms by (simp add: log_inv_def buffered_def map_of_apply_rec distinct_apply_rec)

lemma log_inv_put:
  assumes inv: "log_inv base p rs bs (s, d)" and wf: "wf_cmd (CPut k v)"
  defines "r \<equiv> RPut (kv_seq s + 1) k v"
  obtains w where "wal_rep p rs (bs @ [r]) w d"
    and "kv_put io k v (s, d) =
      (if commit_due (rec_seq r) (kv_group s) then snd (flush_wal io (buffered r w s, d))
       else (buffered r w s, d))"
proof -
  from inv have rep: "wal_rep p rs bs (kv_wal s) d" and op: "kv_opened s"
    by (simp_all add: log_inv_def)
  from wf have "wf_rec r" by (simp add: r_def)
  with rep obtain w where "append_put (kv_seq s + 1) k v (kv_wal s) = (True, w)"
    "wal_rep p rs (bs @ [r]) w d"
    unfolding r_def by (rule wal_rep_append_put)
  with op that [of w] show ?thesis by (simp add: kv_put_def r_def buffered_def)
qed

lemma log_inv_del:
  assumes inv: "log_inv base p rs bs (s, d)" and wf: "wf_cmd (CDel k)"
  defines "r \<equiv> RDel (kv_seq s + 1) k"
  obtains w where "wal_rep p rs (bs @ [r]) w d"
    and "kv_del io k (s, d) =
      (let s1 = s\<lparr>kv_seq := rec_seq r, kv_wal := w\<rparr>;
           (ok, (s2, d2)) = (if commit_due (rec_seq r) (kv_group s) then flush_wal io (s1, d)
                             else (True, (s1, d)))
       in if \<not> ok then (False, (s2, d2))
          else (kv_get k s \<noteq> None, (s2\<lparr>kv_map := AList.delete k (kv_map s)\<rparr>, d2)))"
proof -
  from inv have rep: "wal_rep p rs bs (kv_wal s) d" and op: "kv_opened s"
    by (simp_all add: log_inv_def)
  from wf have "wf_rec r" by (simp add: r_def)
  with rep obtain w where "append_del (kv_seq s + 1) k (kv_wal s) = (True, w)"
    "wal_rep p rs (bs @ [r]) w d"
    unfolding r_def by (rule wal_rep_append_del)
  with op that [of w] show ?thesis
    by (auto simp: kv_del_def r_def flush_wal_def kv_get_def Let_def split: prod.splits)
qed

text \<open>With a device that works, \<open>del\<close> is the abstract deletion.\<close>

lemma log_inv_del_ok:
  assumes inv: "log_inv base p rs bs (s, d)" and wf: "wf_cmd (CDel k)"
  defines "r \<equiv> RDel (kv_seq s + 1) k"
  obtains w where "wal_rep p rs (bs @ [r]) w d"
    and "kv_del io_ok k (s, d) =
      (kv_get k s \<noteq> None,
       if commit_due (rec_seq r) (kv_group s) then snd (flush_wal io_ok (buffered r w s, d))
       else (buffered r w s, d))"
proof -
  from log_inv_del [OF inv wf, of io_ok, folded r_def] obtain w where
    w: "wal_rep p rs (bs @ [r]) w d" and
    del: "kv_del io_ok k (s, d) =
      (let s1 = s\<lparr>kv_seq := rec_seq r, kv_wal := w\<rparr>;
           (ok, (s2, d2)) = (if commit_due (rec_seq r) (kv_group s) then flush_wal io_ok (s1, d)
                             else (True, (s1, d)))
       in if \<not> ok then (False, (s2, d2))
          else (kv_get k s \<noteq> None, (s2\<lparr>kv_map := AList.delete k (kv_map s)\<rparr>, d2)))" .
  from w obtain w' d' where "wal_flush io_ok w d = (True, w', d')" by (rule wal_rep_flush_ok)
  with w del that [of w] show ?thesis
    by (simp add: flush_wal_def buffered_def r_def Let_def)
qed

end
