(* ===== verification/Kv_Recovery.thy ===== *)
theory Kv_Recovery
  imports Kv_Log_Inv
begin

text \<open>
  Crash recovery of the storage engine.  A run of commands keeps the store tied to its log;
  whatever a flush was doing when power failed, the file then holds the durable records and
  a possibly torn prefix of the others; opening a fresh store on that file yields the
  state after a prefix of the client's commands that contains everything flushed.
\<close>

subsection \<open>One command\<close>

lemma log_inv_write:
  fixes due :: bool
  assumes inv: "log_inv base p rs bs (s, d)" and w: "wal_rep p rs (bs @ [r]) w d"
  defines "sd' \<equiv> (if due then snd (flush_wal io_ok (buffered r w s, d)) else (buffered r w s, d))"
  shows "\<exists>rs' bs'. log_inv base p rs' bs' sd' \<and> prefix rs rs' \<and>
    map rec_cmd (rs' @ bs') = map rec_cmd (rs @ bs) @ [rec_cmd r] \<and>
    (\<forall>p'. p' \<noteq> p \<longrightarrow> snd sd' p' = d p')"
proof -
  note inv' = log_inv_buffered [OF inv w]
  from inv' obtain s' d' where f: "flush_wal io_ok (buffered r w s, d) = (True, (s', d'))"
    "log_inv base p (rs @ bs @ [r]) [] (s', d')" "\<forall>p'. p' \<noteq> p \<longrightarrow> d' p' = d p'"
    by (rule log_inv_flush_ok)
  show ?thesis
  proof (cases due)
    case True
    with f show ?thesis unfolding sd'_def by (intro exI [of _ "rs @ bs @ [r]"] exI [of _ "[]"]) simp
  next
    case False
    with inv' show ?thesis unfolding sd'_def by (intro exI [of _ rs] exI [of _ "bs @ [r]"]) simp
  qed
qed

lemma log_inv_exec:
  assumes inv: "log_inv base p rs bs sd" and wf: "wf_cmd c"
  shows "\<exists>rs' bs'. log_inv base p rs' bs' (kv_exec io_ok c sd) \<and> prefix rs rs' \<and>
    map rec_cmd (rs' @ bs') = map rec_cmd (rs @ bs) @ filter is_write [c] \<and>
    (\<forall>p'. p' \<noteq> p \<longrightarrow> snd (kv_exec io_ok c sd) p' = snd sd p')"
proof -
  obtain s d where sd: "sd = (s, d)" by (cases sd) auto
  note inv = inv [unfolded sd]
  show ?thesis
  proof (cases c)
    case (CPut k v)
    from log_inv_put [OF inv wf [unfolded CPut], of io_ok] obtain w where
      w: "wal_rep p rs (bs @ [RPut (kv_seq s + 1) k v]) w d" and
      put: "kv_put io_ok k v (s, d) =
        (if commit_due (rec_seq (RPut (kv_seq s + 1) k v)) (kv_group s)
         then snd (flush_wal io_ok (buffered (RPut (kv_seq s + 1) k v) w s, d))
         else (buffered (RPut (kv_seq s + 1) k v) w s, d))" .
    from log_inv_write [OF inv w] show ?thesis
      unfolding sd CPut kv_exec.simps put
      by (simp only: rec_cmd.simps filter.simps is_write.simps if_True snd_conv)
  next
    case (CDel k)
    from log_inv_del_ok [OF inv wf [unfolded CDel]] obtain w where
      w: "wal_rep p rs (bs @ [RDel (kv_seq s + 1) k]) w d" and
      del: "kv_del io_ok k (s, d) = (kv_get k s \<noteq> None,
         if commit_due (rec_seq (RDel (kv_seq s + 1) k)) (kv_group s)
         then snd (flush_wal io_ok (buffered (RDel (kv_seq s + 1) k) w s, d))
         else (buffered (RDel (kv_seq s + 1) k) w s, d))" .
    from log_inv_write [OF inv w] show ?thesis
      unfolding sd CDel kv_exec.simps del
      by (simp only: rec_cmd.simps filter.simps is_write.simps if_True snd_conv)
  next
    case CFlush
    from inv obtain s' d' where "flush_wal io_ok (s, d) = (True, (s', d'))"
      "log_inv base p (rs @ bs) [] (s', d')" "\<forall>p'. p' \<noteq> p \<longrightarrow> d' p' = d p'"
      by (rule log_inv_flush_ok)
    then show ?thesis unfolding sd CFlush
      by (intro exI [of _ "rs @ bs"] exI [of _ "[]"]) simp
  next
    case (CBatch n)
    with inv show ?thesis unfolding sd CBatch
      by (intro exI [of _ rs] exI [of _ bs]) (simp add: log_inv_def set_group_commit_every_def)
  qed
qed

text \<open>A write leaves its record in the buffer, and flushes it if the group is full.\<close>

lemma exec_write:
  assumes inv: "log_inv base p rs bs (s, d)" and wf: "wf_cmd c" and rec: "cmd_rec (kv_seq s + 1) c = [r]"
  obtains s1 where "wal_rep p rs (bs @ [r]) (kv_wal s1) d"
    and "kv_wal (fst (kv_exec io c (s, d))) = kv_wal (fst (if commit_due (rec_seq r) (kv_group s)
      then snd (flush_wal io (s1, d)) else (s1, d)))"
    and "snd (kv_exec io c (s, d)) = snd (if commit_due (rec_seq r) (kv_group s)
      then snd (flush_wal io (s1, d)) else (s1, d))"
proof (cases c)
  case (CPut k v)
  with rec have r: "r = RPut (kv_seq s + 1) k v" by simp
  from log_inv_put [OF inv wf [unfolded CPut], of io, folded r] obtain w where
    "wal_rep p rs (bs @ [r]) w d"
    "kv_put io k v (s, d) = (if commit_due (rec_seq r) (kv_group s) then snd (flush_wal io (buffered r w s, d))
       else (buffered r w s, d))" .
  then show thesis using that [of "buffered r w s"] by (simp add: CPut buffered_def)
next
  case (CDel k)
  with rec have r: "r = RDel (kv_seq s + 1) k" by simp
  from log_inv_del [OF inv wf [unfolded CDel], of io, folded r] obtain w where
    w: "wal_rep p rs (bs @ [r]) w d" and
    del: "kv_del io k (s, d) =
      (let s1 = s\<lparr>kv_seq := rec_seq r, kv_wal := w\<rparr>;
         (ok, (s2, d2)) = (if commit_due (rec_seq r) (kv_group s) then flush_wal io (s1, d)
                           else (True, (s1, d)))
       in if \<not> ok then (False, (s2, d2))
          else (kv_get k s \<noteq> None, (s2\<lparr>kv_map := AList.delete k (kv_map s)\<rparr>, d2)))" .
  show thesis
    by (rule that [of "s\<lparr>kv_seq := rec_seq r, kv_wal := w\<rparr>"])
      (simp_all add: w CDel del Let_def split: prod.split)
qed (use rec in simp_all)

lemma kv_exec_torn:
  assumes inv: "log_inv base p rs bs sd" and wf: "wf_cmd c"
  shows "wal_torn p rs (bs @ cmd_rec (kv_seq (fst sd) + 1) c) (snd (kv_exec io c sd)) \<and>
    (\<forall>p'. p' \<noteq> p \<longrightarrow> snd (kv_exec io c sd) p' = snd sd p')"
proof -
  obtain s d where sd: "sd = (s, d)" by (cases sd) auto
  note inv = inv [unfolded sd]
  have flush: "wal_torn p rs bs' (snd (snd (flush_wal io (s', d)))) \<and>
      (\<forall>p'. p' \<noteq> p \<longrightarrow> snd (snd (flush_wal io (s', d))) p' = d p')"
    if "wal_rep p rs bs' (kv_wal s') d" for s' bs'
  proof -
    obtain ok w' d' where f: "wal_flush io (kv_wal s') d = (ok, w', d')"
      by (cases "wal_flush io (kv_wal s') d") auto
    with wal_rep_flush_torn [OF that f] show ?thesis by (simp add: flush_wal_def)
  qed
  have written: "wal_torn p rs (bs @ [r]) (snd (kv_exec io c (s, d))) \<and>
      (\<forall>p'. p' \<noteq> p \<longrightarrow> snd (kv_exec io c (s, d)) p' = d p')" if "cmd_rec (kv_seq s + 1) c = [r]" for r
    by (rule exec_write [OF inv wf that, of io]) (use flush wal_rep_torn in \<open>auto split: if_splits\<close>)
  show ?thesis
  proof (cases c)
    case CFlush
    from inv flush [of bs s] show ?thesis unfolding sd CFlush by (simp add: log_inv_def)
  next
    case (CBatch n)
    with inv wal_rep_torn show ?thesis unfolding sd CBatch by (auto simp: log_inv_def)
  qed (use written in \<open>simp_all add: sd\<close>)
qed

lemma wal_rep_flush_empty:
  assumes "wal_rep p rs bs w d" and "wal_flush io w d = (ok, w', d')" and "wal_buffer w' = []"
  shows "d' p = Some (log_file (rs @ bs))"
proof (cases "bs = []")
  case True
  with assms have "d' = d" by (simp add: wal_flush_def wal_rep_def)
  with assms True show ?thesis by (simp add: wal_rep_def)
next
  case False
  have c: "concat (map rec_image bs) = log_image bs" by (simp add: log_image_def)
  obtain q ok' where q: "write_recs (io_writes io) (map rec_image bs) = (q, ok')"
    by (cases "write_recs (io_writes io) (map rec_image bs)") auto
  from assms False q have "ok'" and "io_fsync io"
    by (auto simp: wal_flush_def wal_rep_def Let_def split: if_splits)
  with write_recs_spec [OF q] have "q = log_image bs" by (simp add: c)
  with assms False q \<open>ok'\<close> \<open>io_fsync io\<close> show ?thesis
    by (auto simp: wal_flush_def wal_rep_def write_at_def fsync_file_def Let_def)
qed

text \<open>A command after which nothing is buffered has made every record durable.\<close>

lemma kv_exec_flushed:
  assumes inv: "log_inv base p rs bs sd" and wf: "wf_cmd c"
    and empty: "wal_buffer (kv_wal (fst (kv_exec io c sd))) = []"
  shows "snd (kv_exec io c sd) p = Some (log_file (rs @ bs @ cmd_rec (kv_seq (fst sd) + 1) c))"
proof -
  obtain s d where sd: "sd = (s, d)" by (cases sd) auto
  note inv = inv [unfolded sd] and empty = empty [unfolded sd]
  have flush: "snd (snd (flush_wal io (s', d))) p = Some (log_file (rs @ bs'))"
    if "wal_rep p rs bs' (kv_wal s') d"
      and "wal_buffer (kv_wal (fst (snd (flush_wal io (s', d))))) = []" for s' bs'
  proof -
    obtain ok w' d' where f: "wal_flush io (kv_wal s') d = (ok, w', d')"
      by (cases "wal_flush io (kv_wal s') d") auto
    with wal_rep_flush_empty [OF that(1) f] that(2) show ?thesis by (simp add: flush_wal_def)
  qed
  have written: "snd (kv_exec io c (s, d)) p = Some (log_file (rs @ bs @ [r]))"
    if "cmd_rec (kv_seq s + 1) c = [r]" for r
  proof (rule exec_write [OF inv wf that, of io])
    fix s1
    let ?t = "if commit_due (rec_seq r) (kv_group s) then snd (flush_wal io (s1, d)) else (s1, d)"
    assume w: "wal_rep p rs (bs @ [r]) (kv_wal s1) d"
      and t: "kv_wal (fst (kv_exec io c (s, d))) = kv_wal (fst ?t)" "snd (kv_exec io c (s, d)) = snd ?t"
    from w have "wal_buffer (kv_wal s1) \<noteq> []" by (simp add: wal_rep_def)
    with empty t(1) have "commit_due (rec_seq r) (kv_group s)" by (auto split: if_splits)
    with flush [OF w] empty t show ?thesis by simp
  qed
  show ?thesis
  proof (cases c)
    case CFlush
    with inv empty flush [of bs s] show ?thesis unfolding sd by (simp add: log_inv_def)
  next
    case (CBatch n)
    with inv empty show ?thesis unfolding sd
      by (auto simp: log_inv_def wal_rep_def set_group_commit_every_def)
  qed (use written in \<open>simp_all add: sd\<close>)
qed

subsection \<open>Runs\<close>

abbreviation kv_run :: "io \<Rightarrow> kv_cmd list \<Rightarrow> sys \<Rightarrow> sys" where
  "kv_run io cs sd \<equiv> fold (kv_exec io) cs sd"

definition all_flushed :: "sys \<Rightarrow> bool" where
  "all_flushed sd \<longleftrightarrow> wal_buffer (kv_wal (fst sd)) = []"

lemma log_inv_run:
  assumes inv: "log_inv base p rs0 [] sd0" and "list_all wf_cmd cs"
  shows "\<exists>rs bs. log_inv base p rs bs (kv_run io_ok cs sd0) \<and> prefix rs0 rs \<and>
    map rec_cmd (rs @ bs) = map rec_cmd rs0 @ filter is_write cs \<and>
    (\<forall>p'. p' \<noteq> p \<longrightarrow> snd (kv_run io_ok cs sd0) p' = snd sd0 p') \<and>
    (\<forall>i \<le> length cs. all_flushed (kv_run io_ok (take i cs) sd0) \<longrightarrow>
       length rs0 + length (filter is_write (take i cs)) \<le> length rs)"
  using assms(2)
proof (induction cs rule: rev_induct)
  case Nil
  from inv show ?case by (intro exI [of _ rs0] exI [of _ "[]"]) simp
next
  case (snoc c cs)
  then obtain rs bs where IH: "log_inv base p rs bs (kv_run io_ok cs sd0)" "prefix rs0 rs"
    "map rec_cmd (rs @ bs) = map rec_cmd rs0 @ filter is_write cs"
    "\<forall>p'. p' \<noteq> p \<longrightarrow> snd (kv_run io_ok cs sd0) p' = snd sd0 p'"
    "\<forall>i \<le> length cs. all_flushed (kv_run io_ok (take i cs) sd0) \<longrightarrow>
       length rs0 + length (filter is_write (take i cs)) \<le> length rs"
    by auto
  from snoc.prems have "wf_cmd c" by simp
  from log_inv_exec [OF IH(1) this] obtain rs' bs' where
    step: "log_inv base p rs' bs' (kv_exec io_ok c (kv_run io_ok cs sd0))" "prefix rs rs'"
    "map rec_cmd (rs' @ bs') = map rec_cmd (rs @ bs) @ filter is_write [c]"
    "\<forall>p'. p' \<noteq> p \<longrightarrow> snd (kv_exec io_ok c (kv_run io_ok cs sd0)) p' = snd (kv_run io_ok cs sd0) p'"
    by blast
  have all: "map rec_cmd (rs' @ bs') = map rec_cmd rs0 @ filter is_write (cs @ [c])"
    using step(3) IH(3) by simp
  have flushed: "length rs0 + length (filter is_write (take i (cs @ [c]))) \<le> length rs'"
    if i: "i \<le> length (cs @ [c])" and fl: "all_flushed (kv_run io_ok (take i (cs @ [c])) sd0)" for i
  proof (cases "i \<le> length cs")
    case True
    with fl IH(5) have "length rs0 + length (filter is_write (take i cs)) \<le> length rs" by simp
    with True step(2) show ?thesis by (auto dest: prefix_length_le)
  next
    case False
    with i have i': "take i (cs @ [c]) = cs @ [c]" by simp
    from fl have "wal_buffer (kv_wal (fst (kv_exec io_ok c (kv_run io_ok cs sd0)))) = []"
      unfolding i' all_flushed_def by simp
    with step(1) have "bs' = []" by (auto simp: log_inv_def wal_rep_def split: prod.splits)
    with arg_cong [OF all, of length] i' show ?thesis by simp
  qed
  show ?case
    using step(1) step(4) IH(4) all flushed prefix_order.trans [OF IH(2) step(2)]
    by (intro exI [of _ rs'] exI [of _ bs']) simp
qed

subsection \<open>Opening a store\<close>

definition snap_map :: "disk \<Rightarrow> kvmap" where
  "snap_map d = (case d kv_snapshot of None \<Rightarrow> [] | Some f \<Rightarrow> load_pairs [] (content f))"

lemma distinct_load_pairs:
  "distinct (map fst m) \<Longrightarrow> distinct (map fst (load_pairs m t))"
proof (induction m t rule: load_pairs.induct)
  case (1 m t)
  then show ?case
    by (subst load_pairs.simps) (auto simp: distinct_update split: option.split)
qed

lemma distinct_snap_map: "distinct (map fst (snap_map d))"
  by (simp add: snap_map_def distinct_load_pairs split: option.split)

lemma kv_open_ok:
  assumes "d p = Some f"
  shows "kv_open io_ok p (kv_new, d) = (True,
    (\<lparr>kv_map = fold apply_rec (fst (decode_all read_record (content f))) (snap_map d),
      kv_wal = \<lparr>wal_buffer = [], wal_fd = Some (p, length (content f)), wal_path = p,
        wal_last_good = length (content f) - length (snd (decode_all read_record (content f)))\<rparr>,
      kv_seq = recs_seq (fst (decode_all read_record (content f))) 0,
      kv_opened = True, kv_group = 5\<rparr>, d))"
proof -
  have load: "snd (load_from_file_unlocked kv_snapshot (kv_new, d)) = (kv_new\<lparr>kv_map := snap_map d\<rparr>, d)"
    by (simp add: load_from_file_unlocked_def snap_map_def kv_new_def split: option.split)
  show ?thesis
    using assms decode_all_Nil [of read_record "content f"]
    unfolding kv_open_def load
    by (auto simp: kv_new_def wal_open_def wal_new_def file_size_def replay_into_def
        replay_loop_decode Let_def split: prod.split)
qed

lemma kv_open_create:
  "d p = None \<Longrightarrow> kv_open io_ok p (kv_new, d) = kv_open io_ok p (kv_new, d(p \<mapsto> empty_file))"
  if "p \<noteq> kv_snapshot"
  using that by (auto simp: kv_open_def load_from_file_unlocked_def wal_open_def Let_def kv_new_def
      split: option.split)

text \<open>A disk whose file \<open>p\<close>, if it exists, is a durable log of whole records.\<close>

definition log_on :: "string \<Rightarrow> wal_rec list \<Rightarrow> disk \<Rightarrow> bool" where
  "log_on p rs d \<longleftrightarrow>
     (case d p of None \<Rightarrow> rs = [] | Some f \<Rightarrow> f = log_file rs) \<and> list_all wf_rec rs"

definition stable :: "disk \<Rightarrow> string \<Rightarrow> bool" where
  "stable d p \<longleftrightarrow> (case d p of None \<Rightarrow> True | Some f \<Rightarrow> synced f = length (content f))"

lemma log_inv_open:
  assumes "log_on p rs d" and "p \<noteq> kv_snapshot"
  obtains s d' where "kv_open io_ok p (kv_new, d) = (True, (s, d'))"
    and "log_inv (map_of (snap_map d)) p rs [] (s, d')" and "\<forall>p'. p' \<noteq> p \<longrightarrow> d' p' = d p'"
    and "kv_group s = 5"
proof -
  define d' where "d' = (case d p of None \<Rightarrow> d(p \<mapsto> log_file rs) | Some f \<Rightarrow> d)"
  have d': "d' p = Some (log_file rs)" "\<forall>p'. p' \<noteq> p \<longrightarrow> d' p' = d p'"
    using assms(1) by (auto simp: d'_def log_on_def split: option.splits)
  have open_eq: "kv_open io_ok p (kv_new, d) = kv_open io_ok p (kv_new, d')"
  proof (cases "d p")
    case None
    with assms(1) have "rs = []" by (simp add: log_on_def)
    with None kv_open_create [OF assms(2), of d] show ?thesis by (simp add: d'_def)
  qed (simp add: d'_def)
  have wf: "\<forall>r \<in> set rs. wf_rec r" using assms(1) by (simp add: log_on_def list_all_iff)
  have dec: "decode_all read_record (log_image rs) = (rs, [])"
    using wal_log.decode_all_stuck [OF wf, of "[]"] by (simp add: log_image_def)
  have snap: "snap_map d' = snap_map d" using d'(2) assms(2) by (simp add: snap_map_def)
  note op = kv_open_ok [where d = d' and p = p, OF d'(1)]
  show ?thesis
  proof (rule that [of "fst (snd (kv_open io_ok p (kv_new, d')))" d'])
    show "log_inv (map_of (snap_map d)) p rs [] (fst (snd (kv_open io_ok p (kv_new, d'))), d')"
      unfolding op using d'(1) wf
      by (simp add: dec snap log_inv_def wal_rep_def map_of_fold_apply_rec
          distinct_fold_apply_rec distinct_snap_map)
  qed (simp_all add: open_eq op d'(2))
qed

subsection \<open>Power failure and restart\<close>

text \<open>After a power failure every file is what \<open>power_loss\<close> may leave of it.\<close>

definition crash_disk :: "disk \<Rightarrow> disk \<Rightarrow> bool" where
  "crash_disk d d' \<longleftrightarrow>
     (\<forall>p. case d p of None \<Rightarrow> d' p = None | Some f \<Rightarrow> (\<exists>f'. power_loss f f' \<and> d' p = Some f'))"

lemma crash_disk_stable: "crash_disk d d' \<Longrightarrow> stable d p \<Longrightarrow> map_option content (d' p) = map_option content (d p)"
  by (auto simp: crash_disk_def stable_def power_loss_def split: option.splits dest!: spec [of _ p])

lemma snap_map_crash:
  assumes "crash_disk d d'" and "stable d kv_snapshot"
  shows "snap_map d' = snap_map d"
  using crash_disk_stable [OF assms] by (cases "d kv_snapshot"; cases "d' kv_snapshot") (auto simp: snap_map_def)

text \<open>What replay recovers from a log that a flush, and then a power failure, may have torn.\<close>

lemma wal_torn_recover:
  assumes torn: "wal_torn p rs bs d" and wf: "\<forall>r \<in> set (rs @ bs). wf_rec r"
    and crash: "crash_disk d d'"
  shows "\<exists>f j. d' p = Some f \<and> fst (decode_all read_record (content f)) = rs @ take j bs"
proof -
  from torn obtain q n where d: "d p = Some \<lparr>content = log_image rs @ q, synced = n\<rparr>"
    and q: "prefix q (log_image bs)" "length (log_image rs) \<le> n"
    by (auto simp: wal_torn_def)
  from crash d obtain m where m: "n \<le> m"
    "d' p = Some \<lparr>content = take m (log_image rs @ q), synced = m\<rparr>"
    by (auto simp: crash_disk_def power_loss_def split: option.splits dest!: spec [of _ p])
  from q(1) obtain z where z: "log_image bs = q @ z" by (auto simp: prefix_def)
  define m' where "m' = min m (length (log_image rs @ q))"
  have "take m (log_image rs @ q) = take m' (concat (map rec_image (rs @ bs)))"
  proof -
    have "take (min m (length x)) x = take m x" for x :: string by (simp add: min_def)
    then have "take m (log_image rs @ q) = take m' (log_image rs @ q)" unfolding m'_def by (rule sym)
    also have "\<dots> = take m' (log_image rs @ log_image bs)" by (simp add: z m'_def)
    finally show ?thesis by (simp add: log_image_def)
  qed
  then have dec: "fst (decode_all read_record (take m (log_image rs @ q))) =
      take (whole_records rec_image (rs @ bs) m') (rs @ bs)"
    using wal_log.decode_all_cut [OF wf, of m'] by simp
  have "length (concat (map rec_image rs)) \<le> m'"
    using m(1) q(2) by (simp add: m'_def log_image_def)
  from whole_records_append [OF this] dec
  have "fst (decode_all read_record (take m (log_image rs @ q))) =
      rs @ take (whole_records rec_image bs (m' - length (concat (map rec_image rs)))) bs"
    by simp
  with m(2) show ?thesis by (intro exI conjI) (assumption, simp)
qed

text \<open>The longest prefix of a list with a given number of elements of some kind.\<close>

lemma take_filter_prefix:
  "\<exists>j \<le> length xs. filter P (take j xs) = take n (filter P xs) \<and>
     (\<forall>i \<le> length xs. length (filter P (take i xs)) \<le> n \<longrightarrow> i \<le> j)"
proof (induction xs arbitrary: n)
  case Nil
  then show ?case by simp
next
  case (Cons x xs)
  show ?case
  proof (cases "P x \<and> n = 0")
    case True
    then have "i = 0" if "length (filter P (take i (x # xs))) \<le> n" for i
      using that by (cases i) auto
    with True show ?thesis by (intro exI [of _ 0]) auto
  next
    case False
    define n' where "n' = (if P x then n - 1 else n)"
    from Cons [of n'] obtain j where j: "j \<le> length xs" "filter P (take j xs) = take n' (filter P xs)"
      "\<forall>i \<le> length xs. length (filter P (take i xs)) \<le> n' \<longrightarrow> i \<le> j" by blast
    have "i \<le> Suc j" if "i \<le> length (x # xs)" "length (filter P (take i (x # xs))) \<le> n" for i
      using that j(3) False by (cases i) (auto simp: n'_def split: if_splits)
    with j(1,2) False show ?thesis
      by (intro exI [of _ "Suc j"]) (auto simp: n'_def take_Cons' split: if_splits)
  qed
qed

subsection \<open>The recovery theorem\<close>

text \<open>Decoding what is left after the last command, in terms of the commands.\<close>

lemma recover_commands:
  assumes inv: "log_inv base p rs bs sd" and wf: "wf_cmd c" and pre: "prefix rs0 rs"
    and cmds: "map rec_cmd (rs @ bs) = map rec_cmd rs0 @ filter is_write cs"
    and crash: "crash_disk (snd (kv_exec io c sd)) d1"
  shows "\<exists>f n. d1 p = Some f \<and> length rs \<le> length rs0 + n \<and>
    map rec_cmd (fst (decode_all read_record (content f))) =
      map rec_cmd rs0 @ take n (filter is_write (cs @ [c])) \<and>
    (all_flushed (kv_exec io c sd) \<longrightarrow> length (filter is_write (cs @ [c])) \<le> n)"
proof -
  define bs' where "bs' = bs @ cmd_rec (kv_seq (fst sd) + 1) c"
  have wf': "\<forall>r \<in> set (rs @ bs'). wf_rec r"
    using inv wf_cmd_rec [OF wf] by (auto simp: log_inv_def wal_rep_def bs'_def split: prod.splits)
  have all: "map rec_cmd (rs @ bs') = map rec_cmd rs0 @ filter is_write (cs @ [c])"
    using cmds rec_cmd_cmd_rec [of "kv_seq (fst sd) + 1" c] by (simp add: bs'_def)
  have le: "length rs0 \<le> length rs" using pre by (rule prefix_length_le)
  have split: "map rec_cmd (rs @ take j bs') =
      map rec_cmd rs0 @ take (length rs - length rs0 + j) (filter is_write (cs @ [c]))" for j
  proof -
    have "map rec_cmd (rs @ take j bs') = take (length rs + j) (map rec_cmd (rs @ bs'))"
      by (simp add: take_map)
    also have "\<dots> = map rec_cmd rs0 @ take (length rs - length rs0 + j) (filter is_write (cs @ [c]))"
      unfolding all using le by simp
    finally show ?thesis .
  qed
  show ?thesis
  proof (cases "all_flushed (kv_exec io c sd)")
    case True
    then have d: "snd (kv_exec io c sd) p = Some (log_file (rs @ bs'))"
      using kv_exec_flushed [OF inv wf] by (simp add: all_flushed_def bs'_def)
    then have "d1 p = Some (log_file (rs @ bs'))"
      using crash by (auto simp: crash_disk_def power_loss_def split: option.splits dest!: spec [of _ p])
    moreover have "decode_all read_record (log_image (rs @ bs')) = (rs @ bs', [])"
      using wal_log.decode_all_stuck [OF wf', of "[]"] by (simp add: log_image_def)
    moreover have "length rs \<le> length rs0 + length (filter is_write (cs @ [c]))"
      using arg_cong [OF all, of length] by (simp only: length_map length_append)
    ultimately show ?thesis using all
      by (intro exI [of _ "log_file (rs @ bs')"] exI [of _ "length (filter is_write (cs @ [c]))"])
        (simp only: dfile.simps fst_conv order_refl take_all simp_thms)
  next
    case False
    have torn: "wal_torn p rs bs' (snd (kv_exec io c sd))"
      using kv_exec_torn [OF inv wf] by (simp add: bs'_def)
    from wal_torn_recover [OF torn wf' crash] obtain f j where
      f: "d1 p = Some f" "fst (decode_all read_record (content f)) = rs @ take j bs'" by blast
    with False split [of j] le show ?thesis
      by (intro exI [of _ f] exI [of _ "length rs - length rs0 + j"]) simp
  qed
qed

lemma recovery:
  assumes "log_on p rs0 d0" and "stable d0 kv_snapshot" and "p \<noteq> kv_snapshot"
    and "list_all wf_cmd (cs @ [c])"
    and "kv_open io_ok p (kv_new, d0) = (True, sd0)"
    and "crash_disk (snd (kv_exec io c (kv_run io_ok cs sd0))) d1"
  shows "\<exists>s1 j. kv_open io_ok p (kv_new, d1) = (True, (s1, d1)) \<and> j \<le> length (cs @ [c]) \<and>
    map_of (kv_map s1) = fold cmd_upd (take j (cs @ [c])) (map_of (kv_map (fst sd0))) \<and>
    (\<forall>i \<le> length cs. all_flushed (kv_run io_ok (take i cs) sd0) \<longrightarrow> i \<le> j) \<and>
    (all_flushed (kv_exec io c (kv_run io_ok cs sd0)) \<longrightarrow> j = length (cs @ [c]))"
proof -
  define base where "base = map_of (snap_map d0)"
  obtain s d where sd0: "sd0 = (s, d)" and inv0: "log_inv base p rs0 [] sd0"
    and frame0: "\<forall>p'. p' \<noteq> p \<longrightarrow> snd sd0 p' = d0 p'"
    by (rule log_inv_open [OF assms(1,3)]) (use assms(5) in \<open>simp add: base_def\<close>)
  have wf: "list_all wf_cmd cs" "wf_cmd c" using assms(4) by simp_all
  from log_inv_run [OF inv0 wf(1)] obtain rs bs where
    inv: "log_inv base p rs bs (kv_run io_ok cs sd0)" and pre: "prefix rs0 rs" and
    cmds: "map rec_cmd (rs @ bs) = map rec_cmd rs0 @ filter is_write cs" and
    frame: "\<forall>p'. p' \<noteq> p \<longrightarrow> snd (kv_run io_ok cs sd0) p' = snd sd0 p'" and
    flushed: "\<forall>i \<le> length cs. all_flushed (kv_run io_ok (take i cs) sd0) \<longrightarrow>
       length rs0 + length (filter is_write (take i cs)) \<le> length rs"
    by blast
  from recover_commands [OF inv wf(2) pre cmds assms(6)] obtain f n where
    f: "d1 p = Some f" and n: "length rs \<le> length rs0 + n" and
    dec: "map rec_cmd (fst (decode_all read_record (content f))) =
      map rec_cmd rs0 @ take n (filter is_write (cs @ [c]))" and
    last: "all_flushed (kv_exec io c (kv_run io_ok cs sd0)) \<longrightarrow> length (filter is_write (cs @ [c])) \<le> n"
    by blast
  have snap: "snap_map d1 = snap_map d0"
  proof -
    have same: "snd (kv_exec io c (kv_run io_ok cs sd0)) kv_snapshot = d0 kv_snapshot"
      using kv_exec_torn [OF inv wf(2)] frame frame0 assms(3) by metis
    then have "snap_map d1 = snap_map (snd (kv_exec io c (kv_run io_ok cs sd0)))"
      using assms(2) by (intro snap_map_crash [OF assms(6)]) (simp add: stable_def)
    with same show ?thesis by (simp add: snap_map_def)
  qed
  have init: "map_of (kv_map (fst sd0)) = fold cmd_upd (map rec_cmd rs0) base"
    using inv0 by (simp add: sd0 log_inv_def)
  obtain j where j: "j \<le> length (cs @ [c])"
    "filter is_write (take j (cs @ [c])) = take n (filter is_write (cs @ [c]))"
    "\<forall>i \<le> length (cs @ [c]). length (filter is_write (take i (cs @ [c]))) \<le> n \<longrightarrow> i \<le> j"
    using take_filter_prefix by blast
  have "fold cmd_upd (take n (filter is_write (cs @ [c]))) m = fold cmd_upd (take j (cs @ [c])) m" for m
    using fold_cmd_upd_writes [of "take j (cs @ [c])" m] by (simp only: j(2))
  then have "map_of (fold apply_rec (fst (decode_all read_record (content f))) (snap_map d1)) =
      fold cmd_upd (take j (cs @ [c])) (map_of (kv_map (fst sd0)))"
    by (simp only: map_of_fold_apply_rec dec snap init base_def fold_append comp_apply)
  moreover have "i \<le> j" if "i \<le> length cs" "all_flushed (kv_run io_ok (take i cs) sd0)" for i
    using that flushed n j(3) by fastforce
  moreover have "j = length (cs @ [c])" if "all_flushed (kv_exec io c (kv_run io_ok cs sd0))"
    using that last j(1) j(3) by (metis le_antisym order_refl take_all)
  ultimately show ?thesis using kv_open_ok [where d = d1 and p = p, OF f] j(1) by auto
qed

text \<open>
  C1.  Crash recovery.  A store is opened on a durable log (and a durable snapshot, or none),
  executes any commands on a device that works, and then one more during which every system call may fail or be
  cut short; then power fails.  Opening a fresh store on what is left succeeds, and its map
  is the effect of a prefix of the commands: a prefix that includes every command up to any
  point at which the log's buffer was empty.  No later command survives without the earlier ones.
\<close>

theorem crash_recovery:
  assumes "log_on p rs0 d0" and "stable d0 kv_snapshot" and "p \<noteq> kv_snapshot"
    and "list_all wf_cmd (cs @ [c])"
    and "kv_open io_ok p (kv_new, d0) = (True, sd0)"
    and "crash_disk (snd (kv_exec io c (kv_run io_ok cs sd0))) d1"
  shows "\<exists>s1 j. kv_open io_ok p (kv_new, d1) = (True, (s1, d1)) \<and> j \<le> length (cs @ [c]) \<and>
    map_of (kv_map s1) = fold cmd_upd (take j (cs @ [c])) (map_of (kv_map (fst sd0))) \<and>
    (\<forall>i \<le> length cs. all_flushed (kv_run io_ok (take i cs) sd0) \<longrightarrow> i \<le> j) \<and>
    (all_flushed (kv_exec io c (kv_run io_ok cs sd0)) \<longrightarrow> j = length (cs @ [c]))"
  using assms by (rule recovery)

text \<open>
  The theorem at a concrete run: a write that is flushed, a deletion that is not, and a flush
  that is cut short after three bytes, of which the power failure keeps two.
\<close>

definition crash_cmds :: "kv_cmd list" where
  "crash_cmds = [CPut ''a'' ''1'', CFlush, CDel ''a'']"

definition crash_io :: io where
  "crash_io = io_ok\<lparr>io_writes := [Wrote 3, WFail]\<rparr>"

definition crash_left :: disk where
  "crash_left = [''wal'' \<mapsto>
     \<lparr>content = record_image WPut 1 ''a'' ''1'' @ take 2 (record_image WDel 2 ''a'' []),
      synced = 31\<rparr>]"

lemma fresh_open:
  "kv_open io_ok ''wal'' (kv_new, Map.empty) = (True,
     (\<lparr>kv_map = [], kv_wal = \<lparr>wal_buffer = [], wal_fd = Some (''wal'', 0), wal_path = ''wal'',
         wal_last_good = 0\<rparr>, kv_seq = 0, kv_opened = True, kv_group = 5\<rparr>, [''wal'' \<mapsto> empty_file]))"
  by (simp add: kv_open_create kv_open_ok decode_all_None recs_seq_def snap_map_def)

lemma write_rec_short: "n < length p \<Longrightarrow> write_rec [Wrote n, WFail] p = (take n p, False, [])"
  by (cases p; cases "drop n p") auto

lemmas exec_defs = kv_put_def kv_del_def append_put_def append_del_def write_record_def
  flush_wal_def wal_flush_def Let_def write_at_def fsync_file_def

theorem crash_recovery_witness:
  "\<exists>s1 j. kv_open io_ok ''wal'' (kv_new, crash_left) = (True, (s1, crash_left)) \<and> 2 \<le> j \<and>
     j \<le> 4 \<and> map_of (kv_map s1) = fold cmd_upd (take j (crash_cmds @ [CFlush])) Map.empty"
proof -
  define sd0 where "sd0 = snd (kv_open io_ok ''wal'' (kv_new, Map.empty))"
  have due: "\<not> commit_due 1 5" "\<not> commit_due 2 5" by (simp_all add: commit_due_def)
  have fl: "all_flushed (kv_run io_ok (take 2 crash_cmds) sd0)"
    by (simp add: sd0_def fresh_open crash_cmds_def exec_defs due length_record_image all_flushed_def)
  have cr: "crash_disk (snd (kv_exec crash_io CFlush (kv_run io_ok crash_cmds sd0))) crash_left"
    by (auto simp: sd0_def fresh_open crash_cmds_def exec_defs due length_record_image crash_io_def
        write_rec_short crash_left_def crash_disk_def power_loss_def intro!: exI [of _ 31])
  have op: "kv_open io_ok ''wal'' (kv_new, Map.empty) = (True, sd0)" "kv_map (fst sd0) = []"
    by (simp_all add: sd0_def fresh_open)
  have wf: "list_all wf_cmd (crash_cmds @ [CFlush])" "length crash_cmds = 3"
    by (simp_all add: crash_cmds_def)
  have "''wal'' \<noteq> kv_snapshot" "log_on ''wal'' [] Map.empty" "stable Map.empty kv_snapshot"
    by (simp_all add: log_on_def stable_def)
  from crash_recovery [OF this(2,3,1) wf(1) op(1) cr] obtain s1 j where
    s1: "kv_open io_ok ''wal'' (kv_new, crash_left) = (True, (s1, crash_left))"
    "j \<le> length (crash_cmds @ [CFlush])"
    "map_of (kv_map s1) = fold cmd_upd (take j (crash_cmds @ [CFlush])) (map_of (kv_map (fst sd0)))"
    "\<forall>i \<le> length crash_cmds. all_flushed (kv_run io_ok (take i crash_cmds) sd0) \<longrightarrow> i \<le> j"
    by blast
  with fl wf(2) have "2 \<le> j" by auto
  with s1 wf(2) op(2) show ?thesis by (intro exI [of _ s1] exI [of _ j]) simp
qed

end
