(* ===== verification/Kv_Api.thy ===== *)
theory Kv_Api
  imports Kv_Store
begin

text \<open>
  The contract of a key-value store, as its clients rely on it: the object store on
  \<^verbatim>\<open>put\<close>, \<^verbatim>\<open>get\<close> and \<^verbatim>\<open>del\<close> of \<^verbatim>\<open>KVStore\<close>, a Raft node on \<^verbatim>\<open>ApplyPut\<close> and \<^verbatim>\<open>ApplyDel\<close> of
  \<^verbatim>\<open>IRaftStateMachine\<close> (\<^verbatim>\<open>src/include/kv/raft_sm.h\<close>).  A client sees a partial map; while the
  store is ready, a put and a delete are the updates of that map.  What the environment does
  during a put, the outcomes of the system calls, is an argument \<open>e\<close> and does not matter.
\<close>

locale kv_api =
  fixes ready :: "'s \<Rightarrow> bool"
    and lookup :: "'s \<Rightarrow> string \<rightharpoonup> string"
    and put :: "'e \<Rightarrow> string \<Rightarrow> string \<Rightarrow> 's \<Rightarrow> 's"
    and del :: "string \<Rightarrow> 's \<Rightarrow> 's"
  assumes ready_put: "ready s \<Longrightarrow> ready (put e k v s)"
    and ready_del: "ready s \<Longrightarrow> ready (del k s)"
    and lookup_put: "ready s \<Longrightarrow> lookup (put e k v s) = (lookup s)(k \<mapsto> v)"
    and lookup_del: "ready s \<Longrightarrow> lookup (del k s) = (lookup s)(k := None)"
begin

lemma ready_puts: "ready s \<Longrightarrow> ready (fold (\<lambda>(e, k, v). put e k v) ekvs s)"
  by (induction ekvs arbitrary: s) (auto simp: ready_put)

lemma ready_dels: "ready s \<Longrightarrow> ready (fold del ks s)"
  by (induction ks arbitrary: s) (auto simp: ready_del)

lemma lookup_puts:
  "ready s \<Longrightarrow>
   lookup (fold (\<lambda>(e, k, v). put e k v) ekvs s) = lookup s ++ map_of (rev (map snd ekvs))"
proof (induction ekvs arbitrary: s)
  case Nil
  then show ?case by simp
next
  case (Cons ekv ekvs)
  obtain e k v where ekv: "ekv = (e, k, v)" by (cases ekv) auto
  from Cons.IH [OF ready_put [OF Cons.prems, of e k v]] lookup_put [OF Cons.prems, of e k v]
  show ?case by (simp add: ekv map_add_def fun_eq_iff split: option.splits)
qed

lemma lookup_puts_other:
  "ready s \<Longrightarrow> k \<notin> fst ` set (map snd ekvs) \<Longrightarrow>
   lookup (fold (\<lambda>(e, k, v). put e k v) ekvs s) k = lookup s k"
  by (force simp: lookup_puts map_add_def image_iff split: option.splits dest!: map_of_SomeD)

lemma lookup_puts_in:
  assumes "ready s" and "distinct (map fst (map snd ekvs))" and "(k, v) \<in> set (map snd ekvs)"
  shows "lookup (fold (\<lambda>(e, k, v). put e k v) ekvs s) k = Some v"
proof -
  have "distinct (map fst (rev (map snd ekvs)))" using assms(2) by (simp only: rev_map [symmetric] distinct_rev)
  with assms(3) have "map_of (rev (map snd ekvs)) k = Some v" by (simp only: map_of_eq_Some_iff set_rev)
  with lookup_puts [OF assms(1)] show ?thesis by simp
qed

lemma lookup_dels: "ready s \<Longrightarrow> lookup (fold del ks s) = lookup s |` (- set ks)"
proof (induction ks arbitrary: s)
  case Nil
  then show ?case by (simp add: restrict_map_def)
next
  case (Cons k ks)
  from Cons.IH [OF ready_del [OF Cons.prems]] lookup_del [OF Cons.prems]
  show ?case by (auto simp: restrict_map_def)
qed

end

subsection \<open>The storage engine\<close>

text \<open>A store is ready when it is open and its log is.\<close>

definition kv_ready :: "sys \<Rightarrow> bool" where
  "kv_ready sd \<longleftrightarrow> kv_opened (fst sd) \<and> wal_fd (kv_wal (fst sd)) \<noteq> None"

definition kv_lookup :: "sys \<Rightarrow> string \<rightharpoonup> string" where
  "kv_lookup sd = (\<lambda>k. kv_get k (fst sd))"

definition kv_del_ok :: "string \<Rightarrow> sys \<Rightarrow> sys" where
  "kv_del_ok k sd = snd (kv_del io_ok k sd)"

text \<open>A sequence of puts, each with the outcomes of its own system calls.\<close>

abbreviation put_all :: "(io \<times> string \<times> string) list \<Rightarrow> sys \<Rightarrow> sys" where
  "put_all iokvs sd \<equiv> fold (\<lambda>(io, k, v). kv_put io k v) iokvs sd"

lemma wal_flush_fd: "wal_fd w \<noteq> None \<Longrightarrow> wal_fd (fst (snd (wal_flush io w d))) \<noteq> None"
  by (auto simp: wal_flush_def Let_def split: prod.split)

lemma wal_flush_success: "wal_fd w \<noteq> None \<Longrightarrow> fst (wal_flush io_ok w d)"
  by (auto simp: wal_flush_def Let_def)

text \<open>Whatever a flush does, a put on an open store takes effect in memory.\<close>

lemma kv_put_ready:
  assumes "kv_ready sd"
  shows "kv_ready (kv_put io k v sd)"
    and "kv_lookup (kv_put io k v sd) = (kv_lookup sd)(k \<mapsto> v)"
proof -
  obtain s d where sd: "sd = (s, d)" by (cases sd)
  obtain w where w: "append_put (kv_seq s + 1) k v (kv_wal s) = (True, w)" "wal_fd w \<noteq> None"
    using assms by (auto simp: sd kv_ready_def append_put_def write_record_def)
  from wal_flush_fd [OF w(2), of io d] w assms
  show "kv_ready (kv_put io k v sd)"
    by (auto simp: sd kv_put_def kv_ready_def flush_wal_def Let_def split: prod.splits)
  from w assms show "kv_lookup (kv_put io k v sd) = (kv_lookup sd)(k \<mapsto> v)"
    by (simp add: sd kv_put_def kv_ready_def flush_wal_def kv_lookup_def kv_get_def Let_def
        fun_eq_iff update_conv Let_def split: prod.splits)
qed

lemma kv_del_ready:
  assumes "kv_ready sd"
  shows "kv_ready (kv_del_ok k sd)"
    and "kv_lookup (kv_del_ok k sd) = (kv_lookup sd)(k := None)"
    and "fst (kv_del io_ok k sd) \<longleftrightarrow> kv_lookup sd k \<noteq> None"
proof -
  obtain s d where sd: "sd = (s, d)" by (cases sd)
  obtain w where w: "append_del (kv_seq s + 1) k (kv_wal s) = (True, w)" "wal_fd w \<noteq> None"
    using assms by (auto simp: sd kv_ready_def append_del_def write_record_def)
  obtain w' d' where f: "wal_flush io_ok w d = (True, w', d')"
    using wal_flush_success [OF w(2), of d] by (cases "wal_flush io_ok w d") auto
  with wal_flush_fd [OF w(2), of io_ok d] have w': "wal_fd w' \<noteq> None" by simp
  note defs = sd kv_del_ok_def kv_del_def kv_ready_def flush_wal_def kv_lookup_def kv_get_def Let_def
  show "kv_ready (kv_del_ok k sd)"
    using assms w f w' by (simp add: defs)
  show "kv_lookup (kv_del_ok k sd) = (kv_lookup sd)(k := None)"
    using assms w f by (simp add: defs fun_eq_iff delete_conv)
  show "fst (kv_del io_ok k sd) \<longleftrightarrow> kv_lookup sd k \<noteq> None"
    using assms w f by (simp add: defs)
qed

text \<open>Whatever the flushes inside a put do, and with deletes whose flush works.\<close>

interpretation kv: kv_api kv_ready kv_lookup kv_put kv_del_ok
  by unfold_locales (simp_all add: kv_put_ready kv_del_ready)

text \<open>A delete whose flush fails changes no other key, and a flush changes none.\<close>

lemma kv_del_frame:
  assumes "kv_ready sd"
  shows "kv_ready (snd (kv_del io k sd))"
    and "k' \<noteq> k \<Longrightarrow> kv_lookup (snd (kv_del io k sd)) k' = kv_lookup sd k'"
proof -
  obtain s d where sd: "sd = (s, d)" by (cases sd)
  obtain w where w: "append_del (kv_seq s + 1) k (kv_wal s) = (True, w)" "wal_fd w \<noteq> None"
    using assms by (auto simp: sd kv_ready_def append_del_def write_record_def)
  note defs = sd kv_del_def kv_ready_def flush_wal_def kv_lookup_def kv_get_def Let_def
  show "kv_ready (snd (kv_del io k sd))"
    using assms w wal_flush_fd [OF w(2), of io d] by (auto simp: defs split: prod.splits)
  show "k' \<noteq> k \<Longrightarrow> kv_lookup (snd (kv_del io k sd)) k' = kv_lookup sd k'"
    using assms w by (auto simp: defs delete_conv split: prod.splits)
qed

lemma flush_wal_frame:
  shows "kv_ready sd \<Longrightarrow> kv_ready (snd (flush_wal io sd))"
    and "kv_lookup (snd (flush_wal io sd)) = kv_lookup sd"
    and "kv_map (fst (snd (flush_wal io sd))) = kv_map (fst sd)"
  using wal_flush_fd [of "kv_wal (fst sd)" io "snd sd"]
  by (cases sd; auto simp: kv_ready_def kv_lookup_def kv_get_def flush_wal_def split: prod.split)+

subsection \<open>The state machine of a Raft node\<close>

definition sm_lookup :: "kvstore \<Rightarrow> string \<rightharpoonup> string" where
  "sm_lookup s = (\<lambda>k. kv_get k s)"

interpretation sm: kv_api "\<lambda>s. True" sm_lookup "\<lambda>_ :: unit. ApplyPut" ApplyDel
  by unfold_locales
    (simp_all add: sm_lookup_def kv_get_def ApplyPut_def ApplyDel_def fun_eq_iff
      update_conv delete_conv)

end
