(* ===== verification/Kv_Durability.thy ===== *)
theory Kv_Durability
  imports Kv_Recovery Kv_Api
begin

text \<open>
  What the storage engine promises about flushes, group commit, snapshots and checkpoints,
  and the cases in which a flushed write is lost all the same.
\<close>

subsection \<open>The outcome of a flush\<close>

lemma flush_result:
  assumes "wal_fd w = Some (p, length (content f))" and "d p = Some f"
    and "synced f \<le> length (content f)" and "wal_buffer w \<noteq> []"
    and "wal_flush io w d = (ok, w', d')"
  shows "\<exists>q f'. d' = d(p \<mapsto> f') \<and> content f' = content f @ q \<and>
    prefix q (concat (wal_buffer w)) \<and> wal_fd w' = Some (p, length (content f')) \<and>
    (if ok then q = concat (wal_buffer w) \<and> synced f' = length (content f') \<and> wal_buffer w' = []
     else synced f' = synced f \<and> wal_buffer w' = wal_buffer w)"
proof -
  obtain q ok' where q: "write_recs (io_writes io) (wal_buffer w) = (q, ok')"
    by (cases "write_recs (io_writes io) (wal_buffer w)")
  define f' where "f' = write_at (length (content f)) q f"
  have f': "content f' = content f @ q" "synced f' = synced f"
    using assms(3) by (simp_all add: f'_def)
  note spec = write_recs_spec [OF q]
  have out: "wal_flush io w d =
      (if ok' \<and> io_fsync io
       then (True, w\<lparr>wal_fd := Some (p, length (content f')), wal_buffer := []\<rparr>, d(p \<mapsto> fsync_file f'))
       else (False, w\<lparr>wal_fd := Some (p, length (content f'))\<rparr>, d(p \<mapsto> f')))"
    using assms(1,2,4) q by (simp add: wal_flush_def f'_def [symmetric] f'(1) Let_def)
  show ?thesis
  proof (cases "ok' \<and> io_fsync io")
    case True
    with out assms(5) spec f' show ?thesis
      by (intro exI [of _ q] exI [of _ "fsync_file f'"]) auto
  next
    case False
    with out assms(5) spec f' show ?thesis
      by (intro exI [of _ q] exI [of _ f']) auto
  qed
qed

text \<open>
  C14.  A flush on a log positioned at the end of its file.  When it reports success, the file
  has grown by exactly the buffered records, all of it is durable and the buffer is empty.
  When it reports a failure (a failed or interrupted \<^verbatim>\<open>write\<close>, a failed \<^verbatim>\<open>fsync\<close>), the buffer
  still holds every record and the file has grown by some prefix of their bytes.
\<close>

theorem flush_outcome:
  assumes "wal_fd w = Some (p, length (content f))" and "d p = Some f"
    and "synced f \<le> length (content f)" and "wal_buffer w \<noteq> []"
    and "wal_flush io w d = (ok, w', d')"
  shows "\<exists>q f'. d' = d(p \<mapsto> f') \<and> content f' = content f @ q \<and>
    prefix q (concat (wal_buffer w)) \<and> wal_fd w' = Some (p, length (content f')) \<and>
    (if ok then q = concat (wal_buffer w) \<and> synced f' = length (content f') \<and> wal_buffer w' = []
     else synced f' = synced f \<and> wal_buffer w' = wal_buffer w)"
  using assms by (rule flush_result)

text \<open>Instance: two records, the second cut short after one byte by an interrupted call.\<close>

theorem flush_outcome_witness:
  "\<exists>q f'. content f' = ''x'' @ q \<and> prefix q ''abcd'' \<and> synced f' = 1 \<and>
     snd (snd (wal_flush (io_ok\<lparr>io_writes := [Wrote 2, Wrote 1, WIntr]\<rparr>)
       (wal_new\<lparr>wal_fd := Some (''w'', 1), wal_buffer := [''ab'', ''cd'']\<rparr>)
       [''w'' \<mapsto> \<lparr>content = ''x'', synced = 1\<rparr>])) = [''w'' \<mapsto> f']"
proof -
  let ?w = "wal_new\<lparr>wal_fd := Some (''w'', 1), wal_buffer := [''ab'', ''cd'']\<rparr>"
  let ?f = "\<lparr>content = ''x'', synced = 1\<rparr>"
  let ?io = "io_ok\<lparr>io_writes := [Wrote 2, Wrote 1, WIntr]\<rparr>"
  obtain ok w' d' where f: "wal_flush ?io ?w [''w'' \<mapsto> ?f] = (ok, w', d')"
    by (cases "wal_flush ?io ?w [''w'' \<mapsto> ?f]")
  moreover from f have "\<not> ok" by (auto simp: wal_flush_def)
  ultimately show ?thesis
    using flush_outcome [of ?w "''w''" ?f "[''w'' \<mapsto> ?f]" ?io ok w' d'] by auto
qed

lemma flush_empties: "fst (flush_wal io sd) \<Longrightarrow> all_flushed (snd (flush_wal io sd))"
  by (cases sd)
    (auto simp: flush_wal_def wal_flush_def all_flushed_def Let_def split: option.splits prod.splits if_splits)

subsection \<open>Calls and their results\<close>

text \<open>
  A client's call, with what it returns (\<^verbatim>\<open>put\<close> and \<^verbatim>\<open>set_group_commit_every\<close> return nothing, here \<open>True\<close>),
  and a sequence of calls, each with the outcomes of its own system calls.
\<close>

fun kv_call :: "io \<Rightarrow> kv_cmd \<Rightarrow> sys \<Rightarrow> bool \<times> sys" where
  "kv_call io (CPut k v) sd = (True, kv_put io k v sd)"
| "kv_call io (CDel k) sd = kv_del io k sd"
| "kv_call io CFlush sd = flush_wal io sd"
| "kv_call io (CBatch n) sd = (True, (set_group_commit_every n (fst sd), snd sd))"

fun kv_calls :: "(io \<times> kv_cmd) list \<Rightarrow> sys \<Rightarrow> bool list \<times> sys" where
  "kv_calls [] sd = ([], sd)"
| "kv_calls ((io, c) # xs) sd =
     (let (r, sd) = kv_call io c sd; (rs, sd) = kv_calls xs sd in (r # rs, sd))"

lemma kv_exec_call: "kv_exec io c sd = snd (kv_call io c sd)"
  by (cases c) simp_all

text \<open>A device on which the calls of a flush succeed.\<close>

definition works :: "io \<Rightarrow> bool" where
  "works io \<longleftrightarrow> io_writes io = [] \<and> io_fsync io"

lemma works_io_ok [simp]: "works io_ok"
  by (simp add: works_def)

lemma flush_works:
  "kv_ready sd \<Longrightarrow> works io \<Longrightarrow> fst (flush_wal io sd) \<and> all_flushed (snd (flush_wal io sd))"
  by (cases sd) (auto simp: kv_ready_def works_def flush_wal_def wal_flush_def all_flushed_def Let_def)

subsection \<open>Group commit\<close>

lemma commit_due_iff:
  assumes "0 < n" and "n < 2 ^ 31"
  shows "commit_due q n \<longleftrightarrow> unat q mod nat n = 0"
proof -
  have "(word_of_int n :: u64) = of_nat (nat n)"
    using assms(1) of_int_of_nat_eq [of "nat n", where 'a = u64] by simp
  moreover have "unat (of_nat (nat n) :: u64) = nat n"
    using assms by (intro of_nat_inverse) simp_all
  ultimately have "unat (word_of_int n :: u64) = nat n" by simp
  then show ?thesis
    by (metis commit_due_def unat_eq_zero unat_mod_distrib)
qed

text \<open>A write that makes the group commit due, whose flush then fails and leaves the buffer as it is.\<close>

definition failed_commit :: "io \<Rightarrow> kv_cmd \<Rightarrow> sys \<Rightarrow> bool" where
  "failed_commit io c sd \<longleftrightarrow> is_write c \<and> commit_due (kv_seq (fst sd) + 1) (kv_group (fst sd)) \<and>
     \<not> all_flushed (snd (kv_call io c sd))"

fun failed_commits :: "(io \<times> kv_cmd) list \<Rightarrow> sys \<Rightarrow> nat" where
  "failed_commits [] sd = 0"
| "failed_commits ((io, c) # xs) sd =
     (if failed_commit io c sd then 1 else 0) + failed_commits xs (snd (kv_call io c sd))"

text \<open>
  At most as many records are buffered as the sequence number is past a multiple of the group,
  apart from \<open>b\<close> older ones.
\<close>

definition group_inv :: "int \<Rightarrow> nat \<Rightarrow> sys \<Rightarrow> bool" where
  "group_inv n b sd \<longleftrightarrow> kv_ready sd \<and> kv_group (fst sd) = n \<and>
     length (wal_buffer (kv_wal (fst sd))) \<le> b + unat (kv_seq (fst sd)) mod nat n"

lemma group_step:
  fixes q :: u64
  assumes "0 < n" and "n < 2 ^ 31" and "\<not> commit_due (q + 1) n"
  shows "Suc (unat q mod nat n) \<le> unat (q + 1) mod nat n"
proof -
  have due: "unat (q + 1) mod nat n \<noteq> 0" using assms by (simp add: commit_due_iff)
  then have "q + 1 \<noteq> 0" by auto
  then have "unat (q + 1) = Suc (unat q)" by (metis Suc_eq_plus1 add.commute unatSuc)
  with due show ?thesis by (simp add: mod_Suc split: if_splits)
qed

text \<open>A write buffers one record; when the group is full it flushes, and the buffer is empty or unchanged.\<close>

lemma wal_flush_buffer:
  "wal_flush io w d = (ok, w', d') \<Longrightarrow> wal_buffer w' = [] \<or> wal_buffer w' = wal_buffer w"
  by (auto simp: wal_flush_def Let_def split: option.splits prod.splits if_splits)

lemma flush_wal_same:
  shows "kv_group (fst (snd (flush_wal io sd))) = kv_group (fst sd)"
    and "kv_seq (fst (snd (flush_wal io sd))) = kv_seq (fst sd)"
    and "all_flushed (snd (flush_wal io sd)) \<or>
      wal_buffer (kv_wal (fst (snd (flush_wal io sd)))) = wal_buffer (kv_wal (fst sd))"
  using wal_flush_buffer [of io "kv_wal (fst sd)" "snd sd"]
  by (cases sd; auto simp: flush_wal_def all_flushed_def split: prod.split)+

lemma write_buffers:
  assumes "kv_ready (s, d)" and "is_write c" and "kv_call io c (s, d) = (r, (s', d'))"
  shows "kv_group s' = kv_group s" and "kv_seq s' = kv_seq s + 1" and "kv_ready (s', d')"
    and "if commit_due (kv_seq s + 1) (kv_group s) \<and> all_flushed (s', d') then wal_buffer (kv_wal s') = []
      else length (wal_buffer (kv_wal s')) = Suc (length (wal_buffer (kv_wal s)))"
    and "works io \<Longrightarrow> commit_due (kv_seq s + 1) (kv_group s) \<Longrightarrow> all_flushed (s', d')"
proof -
  define img where "img = (case c of CPut k v \<Rightarrow> rec_image (RPut (kv_seq s + 1) k v)
    | CDel k \<Rightarrow> rec_image (RDel (kv_seq s + 1) k) | _ \<Rightarrow> [])"
  define s1 where "s1 = s\<lparr>kv_seq := kv_seq s + 1, kv_wal := (kv_wal s)\<lparr>wal_buffer := wal_buffer (kv_wal s) @ [img]\<rparr>\<rparr>"
  let ?due = "commit_due (kv_seq s + 1) (kv_group s)"
  define sd2 where "sd2 = (if ?due then snd (flush_wal io (s1, d)) else (s1, d))"
  from assms(1) obtain fd where fd: "kv_opened s" "wal_fd (kv_wal s) = Some fd" by (auto simp: kv_ready_def)
  have s': "s' = (fst sd2)\<lparr>kv_map := kv_map s'\<rparr>"
    using assms(2,3) fd
    by (cases c) (auto simp: sd2_def s1_def img_def kv_put_def kv_del_def append_put_def append_del_def
        write_record_def flush_wal_def Let_def split: prod.splits if_splits)
  then have w: "kv_wal s' = kv_wal (fst sd2)" "kv_group s' = kv_group (fst sd2)" "kv_seq s' = kv_seq (fst sd2)"
    "kv_opened s' = kv_opened (fst sd2)" by (metis kvstore.select_convs kvstore.update_convs(1) kvstore.surjective)+
  have r1: "kv_ready (s1, d)" using fd by (simp add: kv_ready_def s1_def)
  show "kv_group s' = kv_group s" "kv_seq s' = kv_seq s + 1"
    by (simp_all add: w sd2_def flush_wal_same) (simp_all add: s1_def)
  show "kv_ready (s', d')"
    using r1 flush_wal_frame(1) [OF r1, of io] by (simp add: kv_ready_def w sd2_def)
  have fl: "all_flushed (s', d') = all_flushed sd2" by (simp add: all_flushed_def w)
  show "if ?due \<and> all_flushed (s', d') then wal_buffer (kv_wal s') = []
      else length (wal_buffer (kv_wal s')) = Suc (length (wal_buffer (kv_wal s)))"
    using flush_wal_same(3) [of io "(s1, d)"]
    by (auto simp: fl w sd2_def) (auto simp: all_flushed_def s1_def)
  show "works io \<Longrightarrow> ?due \<Longrightarrow> all_flushed (s', d')"
    using flush_works [OF r1, of io] by (simp add: fl sd2_def)
qed

lemma group_inv_call:
  assumes n: "0 < n" "n < 2 ^ 31" and inv: "group_inv n b sd" and c: "\<forall>m. c \<noteq> CBatch m"
  shows "group_inv n (b + (if failed_commit io c sd then nat n else 0)) (snd (kv_call io c sd))"
proof -
  obtain s d where sd: "sd = (s, d)" by (cases sd)
  obtain r s' d' where call: "kv_call io c (s, d) = (r, (s', d'))" by (cases "kv_call io c (s, d)") auto
  from inv have s: "kv_ready (s, d)" "kv_group s = n" "length (wal_buffer (kv_wal s)) \<le> b + unat (kv_seq s) mod nat n"
    by (simp_all add: group_inv_def sd)
  show ?thesis
  proof (cases "is_write c")
    case True
    note step = write_buffers [OF s(1) True call]
    have lt: "unat (kv_seq s) mod nat n < nat n" using n(1) by simp
    show ?thesis
      using step(4) s(3) step(1-3) s(2) True lt group_step [OF n, of "kv_seq s"]
      by (auto simp: group_inv_def sd call failed_commit_def split: if_splits)
  next
    case False
    with c have "c = CFlush" by (cases c) simp_all
    with s flush_wal_frame(1) [OF s(1), of io] flush_wal_same [of io "(s, d)"] show ?thesis
      by (auto simp: group_inv_def sd failed_commit_def all_flushed_def)
  qed
qed

lemma group_inv_calls:
  assumes "0 < n" and "n < 2 ^ 31" and "group_inv n b sd" and "list_all (\<lambda>(io, c). \<forall>m. c \<noteq> CBatch m) xs"
  shows "group_inv n (b + nat n * failed_commits xs sd) (snd (kv_calls xs sd))"
  using assms(3,4)
proof (induction xs arbitrary: b sd)
  case (Cons x xs)
  obtain io c where x: "x = (io, c)" by (cases x)
  from Cons.prems have "group_inv n (b + (if failed_commit io c sd then nat n else 0)) (snd (kv_call io c sd))"
    by (intro group_inv_call [OF assms(1,2)]) (simp_all add: x)
  from Cons.IH [OF this] Cons.prems(2) show ?case
    by (simp add: x Let_def split: prod.split) (auto simp: add.assoc)
qed simp

lemma failed_commits_works:
  assumes "kv_ready sd" and "list_all (\<lambda>(io, c). works io) xs"
  shows "failed_commits xs sd = 0"
  using assms
proof (induction xs arbitrary: sd)
  case (Cons x xs)
  obtain io c where x: "x = (io, c)" by (cases x)
  obtain s d where sd: "sd = (s, d)" by (cases sd)
  obtain r s' d' where call: "kv_call io c (s, d) = (r, (s', d'))" by (cases "kv_call io c (s, d)") auto
  have "\<not> failed_commit io c sd"
    using write_buffers(5) [OF _ _ call] Cons.prems by (auto simp: failed_commit_def x sd call)
  moreover have "kv_ready (s', d')"
  proof (cases "is_write c")
    case True
    with write_buffers(3) [OF _ _ call] Cons.prems(1) show ?thesis by (simp add: sd)
  next
    case False
    with call flush_wal_frame(1) [OF Cons.prems(1), of io] Cons.prems(1) show ?thesis
      by (cases c) (auto simp: sd kv_ready_def set_group_commit_every_def)
  qed
  ultimately show ?case using Cons.IH [of "(s', d')"] Cons.prems(2) by (simp add: x sd call)
qed simp

text \<open>
  C12.  Group commit.  After the group size of an open store is set to \<open>n\<close>, any sequence of puts, deletes
  and flushes, with any outcomes of the system calls, leaves fewer than \<open>n\<close> writes waiting in memory,
  not counting those that waited already, plus \<open>n\<close> for every group commit whose flush failed; also when the
  64-bit sequence number wraps around.  On a device that works, fewer than \<open>n\<close> writes wait.
\<close>

theorem group_commit_bound:
  assumes "0 < n" and "n < 2 ^ 31" and "kv_ready (s, d)"
    and "list_all (\<lambda>(io, c). \<forall>m. c \<noteq> CBatch m) xs"
    and "kv_calls xs (set_group_commit_every n s, d) = (rs, (s', d'))"
  shows "int (length (wal_buffer (kv_wal s'))) <
      n * (1 + int (failed_commits xs (set_group_commit_every n s, d))) + int (length (wal_buffer (kv_wal s))) \<and>
    (list_all (\<lambda>(io, c). works io) xs \<longrightarrow>
       int (length (wal_buffer (kv_wal s'))) < n + int (length (wal_buffer (kv_wal s))))"
proof -
  let ?sd = "(set_group_commit_every n s, d)" and ?b = "length (wal_buffer (kv_wal s))"
  have ready: "kv_ready ?sd" using assms(3) by (simp add: kv_ready_def set_group_commit_every_def)
  then have "group_inv n ?b ?sd"
    using assms(1) by (simp add: group_inv_def set_group_commit_every_def)
  from group_inv_calls [OF assms(1,2) this assms(4)] assms(5)
  have "length (wal_buffer (kv_wal s')) \<le> ?b + nat n * failed_commits xs ?sd + unat (kv_seq s') mod nat n"
    by (simp add: group_inv_def)
  also have "\<dots> < ?b + nat n * failed_commits xs ?sd + nat n" using assms(1) by simp
  finally have "int (length (wal_buffer (kv_wal s'))) < n * (1 + int (failed_commits xs ?sd)) + int ?b"
    using assms(1) by (simp add: algebra_simps flip: of_nat_less_iff [where 'a = int])
  with failed_commits_works [OF ready, of xs] show ?thesis by auto
qed

text \<open>Instance: the group size is 1, and the flush of the first of two puts fails.\<close>

theorem group_commit_bound_witness:
  "int (length (wal_buffer (kv_wal (fst (snd (kv_calls
     [(io_ok\<lparr>io_fsync := False\<rparr>, CPut ''a'' ''1''), (io_ok\<lparr>io_fsync := False\<rparr>, CPut ''b'' ''2'')]
     (set_group_commit_every 1 (kv_new\<lparr>kv_opened := True, kv_wal := wal_new\<lparr>wal_fd := Some (''w'', 0)\<rparr>,
        kv_seq := - 1\<rparr>), [''w'' \<mapsto> empty_file]))))))) < 3"
proof -
  let ?s = "kv_new\<lparr>kv_opened := True, kv_wal := wal_new\<lparr>wal_fd := Some (''w'', 0)\<rparr>, kv_seq := - 1\<rparr>"
  let ?xs = "[(io_ok\<lparr>io_fsync := False\<rparr>, CPut ''a'' ''1''), (io_ok\<lparr>io_fsync := False\<rparr>, CPut ''b'' ''2'')]"
  let ?sd = "(set_group_commit_every 1 ?s, [''w'' \<mapsto> empty_file])"
  obtain rs s' d' where c: "kv_calls ?xs ?sd = (rs, (s', d'))" by (cases "kv_calls ?xs ?sd") auto
  have "kv_ready (?s, [''w'' \<mapsto> empty_file])" "length (wal_buffer (kv_wal ?s)) = 0"
    by (simp_all add: kv_ready_def kv_new_def wal_new_def)
  moreover have "failed_commits ?xs ?sd \<le> 2" by simp
  ultimately show ?thesis using group_commit_bound [OF _ _ _ _ c] unfolding c by simp
qed

subsection \<open>The store is a map\<close>

lemma kv_exec_lookup:
  assumes "kv_ready sd"
  shows "kv_ready (kv_exec io_ok c sd)" and "kv_lookup (kv_exec io_ok c sd) = cmd_upd c (kv_lookup sd)"
proof -
  note flush = flush_wal_frame(1) [OF assms] flush_wal_frame(2)
  show "kv_ready (kv_exec io_ok c sd)"
    using assms flush kv.ready_put [OF assms] kv.ready_del [OF assms]
    by (cases c) (simp_all add: kv_del_ok_def kv_ready_def set_group_commit_every_def)
  show "kv_lookup (kv_exec io_ok c sd) = cmd_upd c (kv_lookup sd)"
    using flush kv.lookup_put [OF assms] kv.lookup_del [OF assms]
    by (cases c) (simp_all add: kv_del_ok_def kv_lookup_def kv_get_def set_group_commit_every_def
        fun_upd_def)
qed

lemma kv_put_distinct:
  "distinct (map fst (kv_map (fst sd))) \<Longrightarrow> distinct (map fst (kv_map (fst (kv_put io k v sd))))"
  by (cases sd) (auto simp: kv_put_def append_put_def write_record_def flush_wal_def Let_def
      distinct_update split: option.split prod.split)

lemma kv_del_distinct:
  "distinct (map fst (kv_map (fst sd))) \<Longrightarrow> distinct (map fst (kv_map (fst (snd (kv_del io k sd)))))"
  by (cases sd) (auto simp: kv_del_def append_del_def write_record_def flush_wal_def Let_def
      distinct_delete split: option.split prod.split)

lemma kv_exec_distinct:
  "distinct (map fst (kv_map (fst sd))) \<Longrightarrow> distinct (map fst (kv_map (fst (kv_exec io c sd))))"
proof (cases c)
  case CFlush
  assume "distinct (map fst (kv_map (fst sd)))"
  with CFlush show ?thesis by (cases sd) (simp add: flush_wal_def split: prod.split)
qed (simp_all add: kv_put_distinct kv_del_distinct set_group_commit_every_def)

text \<open>
  The specification: a partial map with its calls and their results.  The flag says whether
  the device works; if it does not, a deletion and a flush may report false and do nothing.
\<close>

inductive map_call :: "bool \<Rightarrow> kv_cmd \<Rightarrow> (string \<rightharpoonup> string) \<Rightarrow> bool \<Rightarrow> (string \<rightharpoonup> string) \<Rightarrow> bool" where
  map_put: "map_call w (CPut k v) m True (m(k \<mapsto> v))"
| map_del: "m k \<noteq> None \<Longrightarrow> map_call w (CDel k) m True (m(k := None))"
| map_del_absent: "m k = None \<Longrightarrow> map_call w (CDel k) m False m"
| map_del_failed: "map_call False (CDel k) m False m"
| map_flush: "map_call w CFlush m True m"
| map_flush_failed: "map_call False CFlush m False m"
| map_batch: "map_call w (CBatch n) m True m"

inductive_cases map_call_delE: "map_call w (CDel k) m r m'"
inductive_simps map_call_put [simp]: "map_call w (CPut k v) m r m'"

inductive map_calls :: "(bool \<times> kv_cmd) list \<Rightarrow> (string \<rightharpoonup> string) \<Rightarrow> bool list \<Rightarrow> (string \<rightharpoonup> string) \<Rightarrow> bool" where
  map_calls_Nil: "map_calls [] m [] m"
| map_calls_Cons: "map_call w c m r m1 \<Longrightarrow> map_calls xs m1 rs m' \<Longrightarrow> map_calls ((w, c) # xs) m (r # rs) m'"

inductive_simps map_calls_simps [simp]: "map_calls [] m rs m'" "map_calls (x # xs) m rs m'"

lemma kv_del_outcome:
  assumes "kv_ready sd" and "kv_del io k sd = (r, sd')"
  shows "map_call (works io) (CDel k) (kv_lookup sd) r (kv_lookup sd')"
proof -
  obtain s d where sd: "sd = (s, d)" by (cases sd)
  obtain w where w: "append_del (kv_seq s + 1) k (kv_wal s) = (True, w)" "wal_fd w \<noteq> None"
    using assms by (auto simp: sd kv_ready_def append_del_def write_record_def)
  define s1 where "s1 = s\<lparr>kv_seq := kv_seq s + 1, kv_wal := w\<rparr>"
  have r1: "kv_ready (s1, d)" using assms(1) w by (simp add: kv_ready_def s1_def sd)
  obtain ok s2 d2 where f: "(if commit_due (kv_seq s + 1) (kv_group s) then flush_wal io (s1, d) else (True, (s1, d)))
      = (ok, (s2, d2))" by (metis prod.exhaust)
  have m2: "kv_map s2 = kv_map s" using f flush_wal_frame(3) [of io "(s1, d)"]
    by (auto simp: s1_def split: if_splits)
  have nf: "\<not> works io" if "\<not> ok" using f that flush_works [OF r1, of io] by (auto split: if_splits)
  have del: "(r, sd') = (if \<not> ok then (False, (s2, d2))
      else (kv_get k s2 \<noteq> None, (s2\<lparr>kv_map := AList.delete k (kv_map s2)\<rparr>, d2)))"
    using assms w(1) f [unfolded s1_def] by (simp add: sd kv_ready_def kv_del_def Let_def)
  show ?thesis
  proof (cases ok)
    case False
    with del m2 have "\<not> r" "kv_lookup sd' = kv_lookup sd" by (simp_all add: sd kv_lookup_def kv_get_def)
    then show ?thesis using nf [OF False] by (simp add: map_del_failed)
  next
    case True
    with del m2 have r: "r \<longleftrightarrow> kv_lookup sd k \<noteq> None" "kv_lookup sd' = (kv_lookup sd)(k := None)"
      by (auto simp: sd kv_lookup_def kv_get_def delete_conv fun_eq_iff)
    show ?thesis
    proof (cases "kv_lookup sd k")
      case None
      with r have "kv_lookup sd' = kv_lookup sd" by (simp add: fun_upd_idem)
      with r None show ?thesis by (simp add: map_del_absent)
    next
      case (Some v)
      with r map_del [of "kv_lookup sd" k] show ?thesis by simp
    qed
  qed
qed

lemma kv_call_refines:
  assumes "kv_ready sd" and "kv_call io c sd = (r, sd')"
  shows "kv_ready sd' \<and> map_call (works io) c (kv_lookup sd) r (kv_lookup sd')"
proof (cases c)
  case (CPut k v)
  with assms(2) kv.ready_put [OF assms(1)] kv.lookup_put [OF assms(1)] show ?thesis by auto
next
  case (CDel k)
  with assms(2) kv_del_frame(1) [OF assms(1), of io k] kv_del_outcome [OF assms(1)] show ?thesis by simp
next
  case CFlush
  with assms(2) flush_works [OF assms(1), of io] have "r \<or> \<not> works io" by auto
  with CFlush assms(2) flush_wal_frame(1) [OF assms(1), of io] flush_wal_frame(2) [of io sd] show ?thesis
    by (cases r) (auto simp: map_flush map_flush_failed)
next
  case (CBatch n)
  with assms show ?thesis
    by (auto simp: kv_ready_def set_group_commit_every_def kv_lookup_def kv_get_def map_batch)
qed

lemma kv_calls_refine:
  assumes "kv_ready sd" and "kv_calls xs sd = (rs, sd')"
  shows "map_calls (map (\<lambda>(io, c). (works io, c)) xs) (kv_lookup sd) rs (kv_lookup sd')"
  using assms
proof (induction xs arbitrary: sd rs)
  case (Cons x xs)
  obtain io c where x: "x = (io, c)" by (cases x)
  obtain r sd1 where call: "kv_call io c sd = (r, sd1)" by (cases "kv_call io c sd")
  obtain rs1 where calls: "kv_calls xs sd1 = (rs1, sd')" and rs: "rs = r # rs1"
    using Cons.prems(2) by (auto simp: x call split: prod.splits)
  from kv_call_refines [OF Cons.prems(1) call] Cons.IH [OF _ calls] show ?case
    unfolding x rs list.map prod.case by (blast intro: map_calls_Cons)
qed simp

lemma kv_calls_distinct:
  "distinct (map fst (kv_map (fst sd))) \<Longrightarrow> distinct (map fst (kv_map (fst (snd (kv_calls xs sd)))))"
proof (induction xs arbitrary: sd)
  case (Cons x xs)
  obtain io c where x: "x = (io, c)" by (cases x)
  have "distinct (map fst (kv_map (fst (snd (kv_call io c sd)))))"
    using kv_exec_distinct [OF Cons.prems, of io c] by (simp add: kv_exec_call)
  from Cons.IH [OF this] show ?case by (simp add: x Let_def case_prod_beta)
qed simp



text \<open>
  C38.  A delete whose flush fails.  When the group commit is due and \<^verbatim>\<open>fsync\<close> fails, \<^verbatim>\<open>del\<close>
  reports false and the key stays visible, although the deletion is in the log's buffer and
  the next successful flush makes it durable.
\<close>

theorem del_failed_flush:
  assumes "kv_ready (s, d)" and "commit_due (kv_seq s + 1) (kv_group s)" and "\<not> io_fsync io"
  shows "\<exists>s' d'. kv_del io k (s, d) = (False, (s', d')) \<and> kv_map s' = kv_map s \<and>
    wal_buffer (kv_wal s') = wal_buffer (kv_wal s) @ [rec_image (RDel (kv_seq s + 1) k)]"
proof -
  let ?img = "rec_image (RDel (kv_seq s + 1) k)"
  define w where "w = kv_wal s\<lparr>wal_buffer := wal_buffer (kv_wal s) @ [?img]\<rparr>"
  have del: "append_del (kv_seq s + 1) k (kv_wal s) = (True, w)"
    using assms(1) by (auto simp: kv_ready_def append_del_def write_record_def w_def)
  have "\<exists>w' d'. wal_flush io w d = (False, w', d') \<and> wal_buffer w' = wal_buffer w"
    using assms(1,3) by (auto simp: kv_ready_def wal_flush_def w_def Let_def split: prod.split)
  then obtain w' d' where "wal_flush io w d = (False, w', d')" "wal_buffer w' = wal_buffer w" by blast
  with del assms(1,2) show ?thesis
    by (simp add: kv_ready_def kv_del_def flush_wal_def Let_def) (simp add: w_def)
qed

theorem del_failed_flush_witness:
  "\<exists>s' d'. kv_del (io_ok\<lparr>io_fsync := False\<rparr>) ''a''
      (set_group_commit_every 1 (kv_new\<lparr>kv_opened := True, kv_map := [(''a'', ''1'')],
         kv_wal := wal_new\<lparr>wal_fd := Some (''w'', 0)\<rparr>\<rparr>), [''w'' \<mapsto> empty_file]) = (False, (s', d')) \<and>
     kv_map s' = [(''a'', ''1'')]"
proof -
  let ?s = "set_group_commit_every 1 (kv_new\<lparr>kv_opened := True, kv_map := [(''a'', ''1'')],
         kv_wal := wal_new\<lparr>wal_fd := Some (''w'', 0)\<rparr>\<rparr>)"
  have "kv_ready (?s, [''w'' \<mapsto> empty_file])" "commit_due (kv_seq ?s + 1) (kv_group ?s)"
    by (simp_all add: kv_ready_def set_group_commit_every_def commit_due_def kv_new_def)
  from del_failed_flush [OF this, of "io_ok\<lparr>io_fsync := False\<rparr>" "''a''"] show ?thesis
    by (auto simp: set_group_commit_every_def)
qed

end
