(* ===== verification/Kv_Types.thy ===== *)
theory Kv_Types
  imports Kv_Durability
begin

text \<open>
  The type invariant of a store.  The states a \<^verbatim>\<open>KVStore\<close> object can be in: the new object, and what
  any method makes of a state, with any outcome of the system calls and any disk, since
  other processes may write to it between two calls.
\<close>

inductive kv_object :: "sys \<Rightarrow> bool" where
  object_new: "kv_object (kv_new, d)"
| object_disk: "kv_object (s, d) \<Longrightarrow> kv_object (s, d')"
| object_open: "kv_object sd \<Longrightarrow> kv_object (snd (kv_open io path sd))"
| object_put: "kv_object sd \<Longrightarrow> kv_object (kv_put io k v sd)"
| object_del: "kv_object sd \<Longrightarrow> kv_object (snd (kv_del io k sd))"
| object_flush: "kv_object sd \<Longrightarrow> kv_object (snd (flush_wal io sd))"
| object_group: "kv_object (s, d) \<Longrightarrow> kv_object (set_group_commit_every n s, d)"
| object_checkpoint: "kv_object sd \<Longrightarrow> kv_object (snd (checkpoint io ord snap path sd))"
| object_load: "kv_object sd \<Longrightarrow> kv_object (snd (load_from_file path sd))"
| object_save: "kv_object sd \<Longrightarrow> kv_object (snd (save_to_file io ord path sd))"
| object_load_snapshot: "kv_object sd \<Longrightarrow> kv_object (snd (load_snapshot path sd))"
| object_save_snapshot: "kv_object sd \<Longrightarrow> kv_object (snd (save_snapshot io ord path sd))"
| object_apply_put: "kv_object (s, d) \<Longrightarrow> kv_object (ApplyPut k v s, d)"
| object_apply_del: "kv_object (s, d) \<Longrightarrow> kv_object (ApplyDel k s, d)"

definition kv_typed :: "kvstore \<Rightarrow> bool" where
  "kv_typed s \<longleftrightarrow> distinct (map fst (kv_map s)) \<and> 1 \<le> kv_group s"

lemma kv_typed_wal [simp]: "kv_typed (s\<lparr>kv_wal := w\<rparr>) = kv_typed s"
  and kv_typed_seq [simp]: "kv_typed (s\<lparr>kv_seq := q\<rparr>) = kv_typed s"
  and kv_typed_opened [simp]: "kv_typed (s\<lparr>kv_opened := b\<rparr>) = kv_typed s"
  by (simp_all add: kv_typed_def)

lemma kv_typed_map: "kv_typed s \<Longrightarrow> distinct (map fst m) \<Longrightarrow> kv_typed (s\<lparr>kv_map := m\<rparr>)"
  and kv_typedD: "kv_typed s \<Longrightarrow> distinct (map fst (kv_map s))"
  by (simp_all add: kv_typed_def)

lemma replay_distinct:
  assumes "replay_into io m q w d = (ok, m', q', w')" and "distinct (map fst m)"
  shows "distinct (map fst m')"
  using assms by (auto simp: replay_into_def replay_loop_decode distinct_fold_apply_rec
      split: option.splits if_splits prod.splits)

lemma load_typed: "kv_typed (fst sd) \<Longrightarrow> kv_typed (fst (snd (load_from_file_unlocked path sd)))"
  by (auto simp: load_from_file_unlocked_def kv_typed_def distinct_load_pairs split: prod.split option.split)

lemma flush_typed: "kv_typed (fst (snd (flush_wal io sd))) = kv_typed (fst sd)"
  by (auto simp: flush_wal_def split: prod.split)

lemma open_typed: "kv_typed (fst sd) \<Longrightarrow> kv_typed (fst (snd (kv_open io path sd)))"
  using load_typed [of sd kv_snapshot]
  by (auto simp: kv_open_def Let_def kv_typed_map kv_typedD dest: replay_distinct split: prod.split)

lemma put_typed: "kv_typed (fst sd) \<Longrightarrow> kv_typed (fst (kv_put io k v sd))"
  by (auto simp: kv_put_def Let_def flush_typed kv_typed_map kv_typedD distinct_update split: prod.split)

lemma kv_del_group: "kv_group (fst (snd (kv_del io k sd))) = kv_group (fst sd)"
  by (auto simp: kv_del_def flush_wal_def Let_def split: prod.split)

lemma del_typed: "kv_typed (fst sd) \<Longrightarrow> kv_typed (fst (snd (kv_del io k sd)))"
  by (simp add: kv_typed_def kv_del_group kv_del_distinct)

text \<open>
  C13.  The type of a store.  In every state a store can be in, whatever methods were called in which order
  and with whatever failures, its map holds each key once, and the group size is at least one,
  so the remainder that decides about a group commit never divides by zero.
\<close>

theorem kv_object_typed: "kv_object sd \<Longrightarrow> kv_typed (fst sd)"
proof (induction rule: kv_object.induct)
  case (object_new d)
  then show ?case by (simp add: kv_typed_def kv_new_def)
next
  case (object_group s d n)
  then show ?case by (simp add: kv_typed_def set_group_commit_every_def)
next
  case (object_checkpoint sd io ord snap path)
  then show ?case
    by (auto simp: checkpoint_def save_to_file_unlocked_def Let_def split: prod.split)
next
  case (object_load_snapshot sd path)
  then show ?case
    by (auto simp: load_snapshot_def kv_typed_map distinct_load_pairs split: prod.split option.split)
next
  case (object_apply_put s d k v)
  then show ?case by (simp add: ApplyPut_def kv_typed_map kv_typedD distinct_update)
next
  case (object_apply_del s d k)
  then show ?case by (simp add: ApplyDel_def kv_typed_map kv_typedD distinct_delete)
qed (auto simp: open_typed put_typed del_typed flush_typed load_from_file_def load_typed save_to_file_def
    save_to_file_unlocked_def save_snapshot_def Let_def split: prod.split)

theorem kv_object_typed_witness:
  "kv_typed (ApplyPut ''a'' ''2'' (set_group_commit_every (- 3) (kv_new\<lparr>kv_map := [(''a'', ''1'')]\<rparr>)))"
proof -
  have "kv_object (ApplyPut ''a'' ''2'' (set_group_commit_every (- 3) (ApplyPut ''a'' ''1'' kv_new)), Map.empty)"
    by (intro object_apply_put object_group object_new)
  from kv_object_typed [OF this] show ?thesis by (simp add: ApplyPut_def kv_new_def)
qed

end
