(* ===== verification/Kv_Checkpoint.thy ===== *)
theory Kv_Checkpoint
  imports Kv_Recovery
begin

text \<open>
  Snapshots and checkpoints.  A snapshot is a text file of words; it holds a map exactly
  when no key and no value is empty or contains white space.  For such maps a checkpoint
  keeps the state of the store, also when the process dies between writing the snapshot and
  removing the log, provided nothing was waiting in the log's buffer.
\<close>

subsection \<open>The snapshot format\<close>

definition words_map :: "kvmap \<Rightarrow> bool" where
  "words_map m \<longleftrightarrow> list_all (\<lambda>(k, v). is_word k \<and> is_word v) m"

lemma extract_word_field:
  "is_word w \<Longrightarrow> is_space c \<Longrightarrow> is_space b \<Longrightarrow> extract_word (b # w @ c # s) = Some (w, c # s)"
  by (simp add: extract_word_word)

lemma load_pairs_blank: "is_space b \<Longrightarrow> load_pairs m (b # t) = load_pairs m t"
  by (simp add: load_pairs.simps [of m "b # t"] load_pairs.simps [of m t])

lemma load_pairs_Nil [simp]: "load_pairs m [] = m"
  by (simp add: load_pairs.simps)

lemma load_pairs_save_text:
  "words_map kvs \<Longrightarrow> load_pairs m (save_text kvs) = fold (\<lambda>(k, v). AList.update k v) kvs m"
proof (induction kvs arbitrary: m)
  case Nil
  then show ?case by (simp add: save_text_def)
next
  case (Cons kv kvs)
  obtain k v where kv: "kv = (k, v)" by (cases kv)
  from Cons.prems have w: "is_word k" "is_word v" "words_map kvs"
    by (simp_all add: words_map_def kv)
  have "save_text (kv # kvs) = k @ TAB # v @ NL # save_text kvs"
    by (simp add: save_text_def kv)
  then have "load_pairs m (save_text (kv # kvs)) =
      load_pairs (AList.update k v m) (NL # save_text kvs)"
    using w by (simp add: load_pairs.simps [of m] extract_word_word)
  also have "\<dots> = fold (\<lambda>(k, v). AList.update k v) kvs (AList.update k v m)"
    using Cons.IH [OF w(3)] by (simp add: load_pairs_blank)
  finally show ?case by (simp add: kv)
qed

lemma map_of_fold_update:
  "map_of (fold (\<lambda>(k, v). AList.update k v) kvs m) = map_of m ++ map_of (rev kvs)"
proof (induction kvs arbitrary: m)
  case Nil
  then show ?case by simp
next
  case (Cons kv kvs)
  then show ?case
    by (cases kv) (simp add: map_add_def fun_eq_iff update_conv' split: option.split)
qed

lemma map_of_ord:
  assumes "iter_order ord" and "distinct (map fst m)"
  shows "map_of (rev (ord m)) = map_of m"
proof -
  have ms: "mset (rev (ord m)) = mset m" using assms(1) by (simp add: iter_order_def)
  then have "mset (map fst (rev (ord m))) = mset (map fst m)" by simp
  with assms(2) have "distinct (map fst (rev (ord m)))" using mset_eq_imp_distinct_iff by blast
  with assms(2) ms show ?thesis
    by (intro map_of_inject_set [THEN iffD2]) (auto dest: mset_eq_setD)
qed

lemma load_saved:
  assumes "iter_order ord" and "distinct (map fst m)" and "words_map m"
  shows "map_of (load_pairs m0 (save_text (ord m))) = map_of m0 ++ map_of m"
proof -
  have "set (ord m) = set m" using assms(1) by (auto simp: iter_order_def dest: mset_eq_setD)
  with assms(3) have "words_map (ord m)" by (simp add: words_map_def list_all_iff)
  then show ?thesis
    using map_of_ord [OF assms(1,2)] by (simp add: load_pairs_save_text map_of_fold_update)
qed

text \<open>
  C28.  Snapshot round trip.  For a map of words, saving the store and loading the file into
  another store gives that store's map updated with every saved entry, in whatever order the
  hash map is iterated; \<^verbatim>\<open>load_snapshot\<close> of \<^verbatim>\<open>save_snapshot\<close> replaces the map by the saved one.
\<close>

theorem snapshot_roundtrip:
  assumes "iter_order ord" and "distinct (map fst (kv_map s))" and "words_map (kv_map s)"
    and "save_to_file io_ok ord path (s, d) = (ok1, (s1, d1))"
    and "load_from_file path (t, d1) = (ok2, (t2, d2))"
    and "save_snapshot io_ok ord path (s, d) = (ok3, (s3, d3))"
    and "load_snapshot path (t, d3) = (ok4, (t4, d4))"
  shows "ok1 \<and> ok2 \<and> ok3 \<and> ok4 \<and> map_of (kv_map t2) = map_of (kv_map t) ++ map_of (kv_map s) \<and>
    map_of (kv_map t4) = map_of (kv_map s) \<and> d3 (path @ ''.tmp'') = None"
  using assms(4-7) load_saved [OF assms(1-3)]
  by (auto simp: save_to_file_def save_to_file_unlocked_def load_from_file_def
      load_from_file_unlocked_def save_snapshot_def load_snapshot_def stream_file_def Let_def)

definition two_words :: kvstore where
  "two_words = kv_new\<lparr>kv_map := [(''a'', ''1''), (''bc'', ''2'')]\<rparr>"

theorem snapshot_roundtrip_witness:
  "map_of (kv_map (fst (snd (load_from_file ''p''
     (kv_new, snd (snd (save_to_file io_ok rev ''p'' (two_words, Map.empty)))))))) =
     [''a'' \<mapsto> ''1'', ''bc'' \<mapsto> ''2'']"
proof -
  obtain ok1 s1 d1 where 1: "save_to_file io_ok rev ''p'' (two_words, Map.empty) = (ok1, (s1, d1))"
    by (cases "save_to_file io_ok rev ''p'' (two_words, Map.empty)")
  obtain ok2 t2 d2 where 2: "load_from_file ''p'' (kv_new, d1) = (ok2, (t2, d2))"
    by (cases "load_from_file ''p'' (kv_new, d1)")
  obtain ok3 s3 d3 where 3: "save_snapshot io_ok rev ''p'' (two_words, Map.empty) = (ok3, (s3, d3))"
    by (cases "save_snapshot io_ok rev ''p'' (two_words, Map.empty)")
  obtain ok4 t4 d4 where 4: "load_snapshot ''p'' (kv_new, d3) = (ok4, (t4, d4))"
    by (cases "load_snapshot ''p'' (kv_new, d3)")
  have "map_of (kv_map t2) = map_of (kv_map kv_new) ++ map_of (kv_map two_words)"
    using snapshot_roundtrip [OF _ _ _ 1 2 3 4]
    by (simp add: iter_order_def two_words_def words_map_def is_word_def is_space_def)
  then have "map_of (kv_map t2) = [''a'' \<mapsto> ''1'', ''bc'' \<mapsto> ''2'']"
    by (simp add: two_words_def kv_new_def fun_eq_iff)
  then show ?thesis by (simp add: 1 2)
qed

text \<open>
  A value with a blank is not a word, and the format does not keep it: the saved map
  \<open>a \<mapsto> "x y"\<close>, \<open>b \<mapsto> "z"\<close> loads as \<open>a \<mapsto> "x"\<close>, \<open>y \<mapsto> "b"\<close>; the key \<open>b\<close> is lost.
\<close>

theorem snapshot_splits_values:
  "load_from_file ''p'' (kv_new, snd (snd (save_to_file io_ok id ''p''
     (kv_new\<lparr>kv_map := [(''a'', ''x y''), (''b'', ''z'')]\<rparr>, Map.empty)))) =
   (True, (kv_new\<lparr>kv_map := [(''a'', ''x''), (''y'', ''b'')]\<rparr>,
     [''p'' \<mapsto> \<lparr>content = save_text [(''a'', ''x y''), (''b'', ''z'')], synced = 0\<rparr>]))"
  by (simp add: load_from_file_def load_from_file_unlocked_def save_to_file_def
      save_to_file_unlocked_def stream_file_def save_text_def load_pairs.simps extract_word_def
      is_space_def kv_new_def)

subsection \<open>Replaying a log onto its own outcome\<close>

lemma cmd_upd_at:
  "cmd_upd c m k = (case c of CPut k' v \<Rightarrow> if k' = k then Some v else m k
     | CDel k' \<Rightarrow> if k' = k then None else m k | _ \<Rightarrow> m k)"
  by (cases c) auto

fun writes_key :: "string \<Rightarrow> kv_cmd \<Rightarrow> bool" where
  "writes_key k (CPut k' v) = (k' = k)"
| "writes_key k (CDel k') = (k' = k)"
| "writes_key k CFlush = False"
| "writes_key k (CBatch n) = False"

lemma fold_cmd_upd_at:
  "fold cmd_upd cs m k =
     (if list_ex (writes_key k) cs then fold cmd_upd cs Map.empty k else m k)"
proof (induction cs rule: rev_induct)
  case Nil
  then show ?case by simp
next
  case (snoc c cs)
  then show ?case by (cases c) (auto simp: list_ex_iff)
qed

lemma fold_cmd_upd_idem: "fold cmd_upd cs (fold cmd_upd cs m) = fold cmd_upd cs m"
proof
  fix k
  show "fold cmd_upd cs (fold cmd_upd cs m) k = fold cmd_upd cs m k"
    using fold_cmd_upd_at [of cs "fold cmd_upd cs m" k] fold_cmd_upd_at [of cs m k] by auto
qed

subsection \<open>Checkpoints\<close>

lemma checkpoint_ok:
  assumes "kv_opened s"
  shows "checkpoint io_ok ord snap p (s, d) =
    (True, (s\<lparr>kv_wal := (kv_wal s)\<lparr>wal_path := p, wal_fd := Some (p, 0), wal_last_good := 0\<rparr>\<rparr>,
      d(snap \<mapsto> stream_file io_ok (save_text (ord (kv_map s))), p \<mapsto> empty_file)))"
  using assms
  by (simp add: checkpoint_def save_to_file_unlocked_def wal_close_def wal_open_def file_size_def)

lemma snap_map_saved:
  assumes "d kv_snapshot = Some (stream_file io_ok (save_text (ord m)))"
    and "iter_order ord" and "distinct (map fst m)" and "words_map m"
  shows "map_of (snap_map d) = map_of m"
  using assms(1) load_saved [OF assms(2-4), of "[]"] by (simp add: snap_map_def stream_file_def)

text \<open>
  C19.  Checkpoint.  For a map of words, a checkpoint of a running store to the file that
  \<^verbatim>\<open>open\<close> reads succeeds, keeps the map in memory and leaves an empty log, and a process that
  opens the two files afterwards finds the same map; buffered writes included.
\<close>

theorem checkpoint_keeps_map:
  assumes "iter_order ord" and "distinct (map fst (kv_map s))" and "words_map (kv_map s)"
    and "kv_opened s" and "p \<noteq> kv_snapshot"
    and "checkpoint io_ok ord kv_snapshot p (s, d) = (ok, (s', d'))"
  shows "ok \<and> kv_map s' = kv_map s \<and> d' p = Some empty_file \<and>
    (\<exists>t. kv_open io_ok p (kv_new, d') = (True, (t, d')) \<and> map_of (kv_map t) = map_of (kv_map s))"
proof -
  from assms(6) checkpoint_ok [OF assms(4), of ord kv_snapshot p d]
  have ok: ok and s': "kv_map s' = kv_map s" and p: "d' p = Some empty_file"
    and d': "d' = d(kv_snapshot \<mapsto> stream_file io_ok (save_text (ord (kv_map s))), p \<mapsto> empty_file)"
    by auto
  have "d' kv_snapshot = Some (stream_file io_ok (save_text (ord (kv_map s))))"
    using assms(5) unfolding d' by simp
  then have "map_of (snap_map d') = map_of (kv_map s)"
    using assms(1-3) by (rule snap_map_saved)
  with kv_open_ok [where d = d' and p = p, OF p] show ?thesis
    by (simp add: ok s' p decode_all_None)
qed

theorem checkpoint_keeps_map_witness:
  "\<exists>t. kv_open io_ok ''w'' (kv_new, snd (snd (checkpoint io_ok rev kv_snapshot ''w''
       (two_words\<lparr>kv_opened := True\<rparr>, Map.empty)))) =
     (True, (t, snd (snd (checkpoint io_ok rev kv_snapshot ''w'' (two_words\<lparr>kv_opened := True\<rparr>, Map.empty))))) \<and>
     map_of (kv_map t) ''bc'' = Some ''2''"
proof -
  let ?s = "two_words\<lparr>kv_opened := True\<rparr>"
  obtain ok s' d' where c: "checkpoint io_ok rev kv_snapshot ''w'' (?s, Map.empty) = (ok, (s', d'))"
    by (cases "checkpoint io_ok rev kv_snapshot ''w'' (?s, Map.empty)")
  have "\<exists>t. kv_open io_ok ''w'' (kv_new, d') = (True, (t, d')) \<and> map_of (kv_map t) = map_of (kv_map ?s)"
    using checkpoint_keeps_map [OF _ _ _ _ _ c]
    by (simp add: iter_order_def two_words_def words_map_def is_word_def is_space_def)
  moreover have "map_of (kv_map ?s) ''bc'' = Some ''2''" by (simp add: two_words_def)
  ultimately show ?thesis by (auto simp: c)
qed

text \<open>
  C34.  All stores share one snapshot.  For a map of words: \<^verbatim>\<open>open\<close> reads the same snapshot file whatever log it is
  given: after a checkpoint of a store on the log \<open>p\<close>, a store that is opened on a new log \<open>q\<close> is
  not empty but starts with the whole map of the first one.
\<close>

theorem snapshot_shared:
  assumes "iter_order ord" and "distinct (map fst (kv_map s))" and "words_map (kv_map s)"
    and "kv_opened s" and "p \<noteq> kv_snapshot" and "q \<notin> {p, kv_snapshot}" and "d q = None"
    and "checkpoint io_ok ord kv_snapshot p (s, d) = (ok, (s', d'))"
  shows "\<exists>t d''. kv_open io_ok q (kv_new, d') = (True, (t, d'')) \<and> map_of (kv_map t) = map_of (kv_map s)"
proof -
  from assms(8) checkpoint_ok [OF assms(4), of ord kv_snapshot p d]
  have d': "d' = d(kv_snapshot \<mapsto> stream_file io_ok (save_text (ord (kv_map s))), p \<mapsto> empty_file)" by auto
  let ?d = "d'(q \<mapsto> empty_file)"
  have "?d kv_snapshot = Some (stream_file io_ok (save_text (ord (kv_map s))))"
    using assms(5,6) unfolding d' by auto
  then have "map_of (snap_map ?d) = map_of (kv_map s)" using assms(1-3) by (rule snap_map_saved)
  moreover have "d' q = None" using assms(6,7) unfolding d' by simp
  ultimately show ?thesis
    using kv_open_create [of q d'] kv_open_ok [where d = ?d and p = q, OF fun_upd_same] assms(6)
    by (simp add: decode_all_None)
qed

theorem snapshot_shared_witness:
  "\<exists>t d. kv_open io_ok ''other'' (kv_new, snd (snd (checkpoint io_ok rev kv_snapshot ''w''
       (two_words\<lparr>kv_opened := True\<rparr>, Map.empty)))) = (True, (t, d)) \<and> map_of (kv_map t) ''bc'' = Some ''2''"
proof -
  let ?s = "two_words\<lparr>kv_opened := True\<rparr>"
  obtain ok s' d' where c: "checkpoint io_ok rev kv_snapshot ''w'' (?s, Map.empty) = (ok, (s', d'))"
    by (cases "checkpoint io_ok rev kv_snapshot ''w'' (?s, Map.empty)")
  have "\<exists>t d. kv_open io_ok ''other'' (kv_new, d') = (True, (t, d)) \<and> map_of (kv_map t) = map_of (kv_map ?s)"
    using snapshot_shared [OF _ _ _ _ _ _ _ c, of "''other''"]
    by (simp add: iter_order_def two_words_def words_map_def is_word_def is_space_def)
  moreover have "map_of (kv_map ?s) ''bc'' = Some ''2''" by (simp add: two_words_def)
  ultimately show ?thesis by (auto simp: c)
qed

text \<open>The store found on the log \<open>rs\<close> when the snapshot holds what the log starts from, or its outcome.\<close>

lemma reopen_map:
  assumes "d p = Some (log_file rs)" and "\<forall>r \<in> set rs. wf_rec r"
    and "map_of (snap_map d) = base \<or> map_of (snap_map d) = fold cmd_upd (map rec_cmd rs) base"
  shows "\<exists>t. kv_open io_ok p (kv_new, d) = (True, (t, d)) \<and>
    map_of (kv_map t) = fold cmd_upd (map rec_cmd rs) base"
proof -
  have "fst (decode_all read_record (log_image rs)) = rs"
    using wal_log.decode_all_stuck [OF assms(2), of "[]"] by (simp add: log_image_def)
  with kv_open_ok [where d = d and p = p, OF assms(1)] assms(3) show ?thesis
    by (auto simp: map_of_fold_apply_rec fold_cmd_upd_idem)
qed

text \<open>The disks a checkpoint can leave, when its stream, if it opens, stores the whole text.\<close>

lemma checkpoint_disks:
  assumes "kv_opened s" and "io_room io = None" and "p \<noteq> kv_snapshot" and "d p = Some f"
    and "checkpoint io ord kv_snapshot p (s, d) = (ok, (s', d'))"
  shows "d' = d \<or> d' kv_snapshot = Some (stream_file io_ok (save_text (ord (kv_map s)))) \<and>
    d' p \<in> {Some f, None, Some empty_file}"
  using assms
  by (auto simp: checkpoint_def save_to_file_unlocked_def wal_open_def wal_close_def stream_file_def Let_def
      split: if_splits option.splits)

text \<open>
  C20.  A process killed inside a checkpoint.  For a map of words, all of whose writes have been
  flushed: whatever steps of \<^verbatim>\<open>checkpoint\<close> are carried out, that is with the stream opened or not, the log
  unlinked or not and opened again or not, so also when the process is killed between any two of
  them, the next \<^verbatim>\<open>open\<close> finds the map of the store.  (A snapshot that is only partly written and a power
  failure, which may lose the snapshot because it is never synchronised, are not covered.)
\<close>

theorem checkpoint_crash:
  assumes "iter_order ord" and "words_map (kv_map s)" and "p \<noteq> kv_snapshot"
    and "log_inv (map_of (snap_map d)) p rs [] (s, d)" and "io_room io = None"
    and "checkpoint io ord kv_snapshot p (s, d) = (ok, (s', d'))"
  shows "\<exists>t d''. kv_open io_ok p (kv_new, d') = (True, (t, d'')) \<and> map_of (kv_map t) = map_of (kv_map s)"
proof -
  from assms(4) have inv: "distinct (map fst (kv_map s))" "d p = Some (log_file rs)"
    "\<forall>r \<in> set rs. wf_rec r" "map_of (kv_map s) = fold cmd_upd (map rec_cmd rs) (map_of (snap_map d))" "kv_opened s"
    by (simp_all add: log_inv_def wal_rep_def)
  from checkpoint_disks [where d = d and p = p, OF inv(5) assms(5,3) inv(2) assms(6)] show ?thesis
  proof
    assume "d' = d"
    with reopen_map [where d = d and p = p and base = "map_of (snap_map d)", OF inv(2,3)] inv(4)
    show ?thesis by auto
  next
    assume d': "d' kv_snapshot = Some (stream_file io_ok (save_text (ord (kv_map s)))) \<and>
      d' p \<in> {Some (log_file rs), None, Some empty_file}"
    then have snap: "map_of (snap_map d') = map_of (kv_map s)"
      using assms(1,2) inv(1) by (intro snap_map_saved) simp_all
    from d' consider "d' p = Some (log_file rs)" | "d' p = None" | "d' p = Some empty_file" by auto
    then show ?thesis
    proof cases
      case 1
      from reopen_map [where d = d' and p = p, OF 1 inv(3)] snap inv(4) show ?thesis by metis
    next
      case 2
      have "map_of (snap_map (d'(p \<mapsto> empty_file))) = map_of (kv_map s)"
        using snap assms(3) by (simp add: snap_map_def)
      with kv_open_create [OF assms(3), of d'] 2 kv_open_ok [where d = "d'(p \<mapsto> empty_file)" and p = p, OF fun_upd_same]
      show ?thesis by (simp add: decode_all_None)
    next
      case 3
      with kv_open_ok [where d = d' and p = p, OF 3] snap show ?thesis by (simp add: decode_all_None)
    qed
  qed
qed

definition one_flushed :: sys where
  "one_flushed =
     (kv_new\<lparr>kv_map := [(''a'', ''1'')], kv_opened := True, kv_seq := 1,
        kv_wal := wal_new\<lparr>wal_fd := Some (''w'', 29)\<rparr>\<rparr>,
      [''w'' \<mapsto> log_file [RPut 1 ''a'' ''1'']])"

text \<open>Instance: killed after the log was unlinked and before it was created again.\<close>

definition kill_io :: io where
  "kill_io = io_ok\<lparr>io_open := False\<rparr>"

theorem checkpoint_crash_witness:
  "\<exists>t d'. kv_open io_ok ''w'' (kv_new, snd (snd (checkpoint kill_io id kv_snapshot ''w'' one_flushed)))
     = (True, (t, d')) \<and> map_of (kv_map t) = [''a'' \<mapsto> ''1'']"
proof -
  obtain s d where sd: "one_flushed = (s, d)" by (cases one_flushed)
  obtain ok s' d' where c: "checkpoint kill_io id kv_snapshot ''w'' (s, d) = (ok, (s', d'))"
    by (cases "checkpoint kill_io id kv_snapshot ''w'' (s, d)")
  from sd have s: "kv_map s = [(''a'', ''1'')]" "snap_map d = []" by (auto simp: one_flushed_def snap_map_def)
  have "log_inv (map_of (snap_map d)) ''w'' [RPut 1 ''a'' ''1''] [] (s, d)"
    unfolding s(2) sd [symmetric]
    by (simp add: one_flushed_def log_inv_def wal_rep_def length_record_image kv_new_def wal_new_def)
  from checkpoint_crash [OF _ _ _ this _ c] obtain t d'' where
    "kv_open io_ok ''w'' (kv_new, d') = (True, (t, d''))" "map_of (kv_map t) = map_of (kv_map s)"
    by (auto simp: iter_order_def s words_map_def is_word_def is_space_def kill_io_def)
  with s show ?thesis by (auto simp: sd c)
qed

definition ckpt_cmds :: "kv_cmd list" where
  "ckpt_cmds = [CPut ''a'' ''1'', CFlush, CPut ''a'' ''2'', CPut ''b'' ''3'']"

lemma ckpt_cmds_prefix:
  "fold cmd_upd (take j ckpt_cmds) Map.empty \<noteq> [''a'' \<mapsto> ''1'', ''b'' \<mapsto> ''3'']"
proof -
  have "fold cmd_upd (take j ckpt_cmds) Map.empty ''b'' = None \<or>
      fold cmd_upd (take j ckpt_cmds) Map.empty ''a'' = Some ''2''"
    by (simp add: ckpt_cmds_def take_Cons')
  then show ?thesis by (auto dest: fun_cong [of _ _ "''a''"] fun_cong [of _ _ "''b''"])
qed

text \<open>
  C33.  With writes in the buffer a kill inside \<^verbatim>\<open>checkpoint\<close> is not always harmless.  There is a run,
  \<open>a = 1\<close> flushed and \<open>a = 2\<close>, \<open>b = 3\<close> buffered, after which a checkpoint that is killed when it has
  written the snapshot, before it unlinks the log, leaves files on which the next \<^verbatim>\<open>open\<close>
  finds \<open>a = 1\<close> with \<open>b = 3\<close>, which is the effect of no prefix of the commands.
\<close>

theorem checkpoint_crash_buffered:
  "\<exists>cs sd d t. sd = kv_run io_ok cs (snd (kv_open io_ok ''wal'' (kv_new, Map.empty))) \<and>
     d = snd (snd (checkpoint (io_ok\<lparr>io_remove := False, io_open := False\<rparr>) id kv_snapshot ''wal'' sd)) \<and>
     kv_open io_ok ''wal'' (kv_new, d) = (True, (t, d)) \<and>
     map_of (kv_map t) = [''a'' \<mapsto> ''1'', ''b'' \<mapsto> ''3''] \<and>
     (\<forall>j. fold cmd_upd (take j cs) Map.empty \<noteq> map_of (kv_map t))"
proof -
  have due: "\<not> commit_due 1 5" "\<not> commit_due 2 5" "\<not> commit_due 3 5" by (simp_all add: commit_due_def)
  define sd where "sd = kv_run io_ok ckpt_cmds (snd (kv_open io_ok ''wal'' (kv_new, Map.empty)))"
  define d where "d = snd (snd (checkpoint (io_ok\<lparr>io_remove := False, io_open := False\<rparr>) id kv_snapshot ''wal'' sd))"
  have d: "d ''wal'' = Some (log_file [RPut 1 ''a'' ''1''])"
    "d kv_snapshot = Some (stream_file io_ok (save_text [(''a'', ''2''), (''b'', ''3'')]))"
    by (simp_all add: d_def sd_def fresh_open ckpt_cmds_def exec_defs due length_record_image checkpoint_def
        save_to_file_unlocked_def wal_open_def wal_close_def stream_file_def)
  have dec: "decode_all read_record (log_image [RPut 1 ''a'' ''1'']) = ([RPut 1 ''a'' ''1''], [])"
    using wal_log.decode_all_stuck [of "[RPut 1 ''a'' ''1'']" "[]"] by (simp add: log_image_def)
  have "snap_map d = [(''a'', ''2''), (''b'', ''3'')]"
    by (simp add: snap_map_def d stream_file_def load_pairs_save_text words_map_def is_word_def
        is_space_def)
  with kv_open_ok [where d = d and p = "''wal''", OF d(1)] dec
  obtain t where t: "kv_open io_ok ''wal'' (kv_new, d) = (True, (t, d))"
    "map_of (kv_map t) = [''a'' \<mapsto> ''1'', ''b'' \<mapsto> ''3'']"
    by (auto simp: fun_eq_iff)
  moreover have "\<forall>j. fold cmd_upd (take j ckpt_cmds) Map.empty \<noteq> map_of (kv_map t)"
    unfolding t(2) by (simp add: ckpt_cmds_prefix)
  ultimately show ?thesis unfolding d_def sd_def by blast
qed

end
