(* ===== verification/Kv_Torn_Tail.thy ===== *)
theory Kv_Torn_Tail
  imports Kv_Recovery
begin

text \<open>
  What follows a torn record.  \<^verbatim>\<open>KVStore::open\<close> replays the good records and leaves the file
  as it is: \<^verbatim>\<open>truncate_to_last_good\<close> is never called.  New records are then written behind the
  torn bytes, where no later replay reaches them.
\<close>

subsection \<open>The first bytes of a record\<close>

lemma magic_bytes: "word_bytes 4 kMagic = ''KVLG''"
  by (simp add: kMagic_def) code_simp

lemma version_bytes: "word_bytes 2 kVersion = [CHR 0x01, CHR 0x00]"
  by (simp add: kVersion_def) code_simp

lemma rec_image_start: "\<exists>t. rec_image r = ''KVLG'' @ [CHR 0x01, CHR 0x00] @ t"
  by (cases r) (simp_all add: record_image_def header_image_def magic_bytes version_bytes Let_def)

lemma type_bytes: "word_bytes 1 (1 :: u8) = [CHR 0x01]" "word_bytes 1 (2 :: u8) = [CHR 0x02]"
  by code_simp+

lemma read_record_start:
  assumes "read_record bs = Some x"
  shows "take 4 bs = ''KVLG''" and "take 2 (drop 4 bs) = [CHR 0x01, CHR 0x00]"
    and "take 1 (drop 6 bs) \<in> {[CHR 0x01], [CHR 0x02]}"
proof -
  define h where "h = header_of_image (take 23 bs)"
  have len: "23 \<le> length bs" and h: "magic h = kMagic" "version h = kVersion" "htype h = 1 \<or> htype h = 2"
    using assms by (auto simp: read_record_def h_def Let_def split: if_splits)
  have m: "magic h = word_val (take 4 bs)" and v: "version h = word_val (take 2 (drop 4 bs))"
    and t: "htype h = word_val (take 1 (drop 6 bs))"
    by (simp_all add: h_def header_of_image_def drop_take)
  show "take 4 bs = ''KVLG''"
    using arg_cong [OF h(1) [unfolded m], of "word_bytes 4"] len
    by (simp add: word_bytes_word_val magic_bytes)
  show "take 2 (drop 4 bs) = [CHR 0x01, CHR 0x00]"
    using arg_cong [OF h(2) [unfolded v], of "word_bytes 2"] len
    by (simp add: word_bytes_word_val version_bytes)
  have "word_bytes 1 (htype h) = take 1 (drop 6 bs)"
    unfolding t using len by (simp add: word_bytes_word_val)
  with h(3) show "take 1 (drop 6 bs) \<in> {[CHR 0x01], [CHR 0x02]}"
    using type_bytes by (metis insertCI)
qed

lemma upto6: "0 < n \<Longrightarrow> n < 7 \<Longrightarrow> n \<in> {1, 2, 3, 4, 5, 6 :: nat}"
  by auto

text \<open>A record cut within its first six bytes hides whatever record follows it.\<close>

lemma read_record_behind_torn:
  assumes n: "0 < n" "n < 7"
  shows "read_record (take n (rec_image r) @ rec_image r' @ rest) = None"
proof (rule ccontr)
  assume "read_record (take n (rec_image r) @ rec_image r' @ rest) \<noteq> None"
  then obtain x where x: "read_record (take n (rec_image r) @ rec_image r' @ rest) = Some x"
    by auto
  obtain t t' where t: "rec_image r = ''KVLG'' @ [CHR 0x01, CHR 0x00] @ t"
    "rec_image r' = ''KVLG'' @ [CHR 0x01, CHR 0x00] @ t'"
    using rec_image_start by meson
  show False
    using read_record_start [OF x] upto6 [OF n] unfolding t by auto
qed

lemma read_record_torn_log:
  assumes "0 < n" "n < 7" and "wf_rec r"
  shows "read_record (take n (rec_image r) @ log_image xs) = None"
proof (cases xs)
  case Nil
  have "length (take n (rec_image r)) < 23" using assms by simp
  with Nil show ?thesis by (simp add: read_record_def)
next
  case (Cons x ys)
  with read_record_behind_torn [OF assms(1,2)] show ?thesis by simp
qed

subsection \<open>Writing behind a torn record\<close>

text \<open>The log is open at the end of its file, which holds \<open>pre\<close> and then records.\<close>

definition tail_inv :: "string \<Rightarrow> string \<Rightarrow> sys \<Rightarrow> bool" where
  "tail_inv pre p sd \<longleftrightarrow>
     (\<exists>xs bs n. kv_opened (fst sd) \<and>
        wal_fd (kv_wal (fst sd)) = Some (p, length (pre @ log_image xs)) \<and>
        wal_buffer (kv_wal (fst sd)) = map rec_image bs \<and>
        snd sd p = Some \<lparr>content = pre @ log_image xs, synced = n\<rparr>)"

lemma tail_inv_flush:
  assumes "tail_inv pre p (s, d)"
  shows "tail_inv pre p (snd (flush_wal io_ok (s, d)))"
    and "\<forall>p'. p' \<noteq> p \<longrightarrow> snd (snd (flush_wal io_ok (s, d))) p' = d p'"
    and "fst (flush_wal io_ok (s, d))"
proof -
  from assms obtain xs bs n where inv: "kv_opened s"
    "wal_fd (kv_wal s) = Some (p, length (pre @ log_image xs))"
    "wal_buffer (kv_wal s) = map rec_image bs"
    "d p = Some \<lparr>content = pre @ log_image xs, synced = n\<rparr>"
    by (auto simp: tail_inv_def)
  have c: "concat (map rec_image bs) = log_image bs" by (simp add: log_image_def)
  show "fst (flush_wal io_ok (s, d))" and
    "\<forall>p'. p' \<noteq> p \<longrightarrow> snd (snd (flush_wal io_ok (s, d))) p' = d p'"
    using inv by (auto simp: flush_wal_def wal_flush_def Let_def)
  show "tail_inv pre p (snd (flush_wal io_ok (s, d)))"
  proof (cases "bs = []")
    case True
    with inv assms show ?thesis by (simp add: flush_wal_def wal_flush_def)
  next
    case False
    with inv show ?thesis unfolding tail_inv_def
      by (intro exI [of _ "xs @ bs"] exI [of _ "[]"])
        (simp add: flush_wal_def wal_flush_def Let_def c write_at_def fsync_file_def)
  qed
qed

lemma tail_inv_record:
  assumes "tail_inv pre p (s, d)"
  shows "tail_inv pre p (s\<lparr>kv_seq := q, kv_wal :=
    kv_wal s\<lparr>wal_buffer := wal_buffer (kv_wal s) @ [rec_image r]\<rparr>, kv_map := m\<rparr>, d)"
proof -
  from assms obtain xs bs n where inv: "kv_opened s"
    "wal_fd (kv_wal s) = Some (p, length (pre @ log_image xs))"
    "wal_buffer (kv_wal s) = map rec_image bs"
    "d p = Some \<lparr>content = pre @ log_image xs, synced = n\<rparr>"
    by (auto simp: tail_inv_def)
  then show ?thesis unfolding tail_inv_def
    by (intro exI [of _ xs] exI [of _ "bs @ [r]"]) simp
qed

lemma tail_inv_exec:
  assumes inv: "tail_inv pre p sd"
  shows "tail_inv pre p (kv_exec io_ok c sd) \<and>
    (\<forall>p'. p' \<noteq> p \<longrightarrow> snd (kv_exec io_ok c sd) p' = snd sd p')"
proof -
  obtain s d where sd: "sd = (s, d)" by (cases sd)
  note inv = inv [unfolded sd]
  from inv obtain fd where s: "kv_opened s" "wal_fd (kv_wal s) = Some fd"
    by (auto simp: tail_inv_def)
  have put: "append_put q k v (kv_wal s) =
      (True, kv_wal s\<lparr>wal_buffer := wal_buffer (kv_wal s) @ [rec_image (RPut q k v)]\<rparr>)" for q k v
    using s(2) by (simp add: append_put_def write_record_def)
  have del: "append_del q k (kv_wal s) =
      (True, kv_wal s\<lparr>wal_buffer := wal_buffer (kv_wal s) @ [rec_image (RDel q k)]\<rparr>)" for q k
    using s(2) by (simp add: append_del_def write_record_def)
  note frame = tail_inv_record [OF inv] tail_inv_flush [OF tail_inv_record [OF inv]]
  show ?thesis
  proof (cases c)
    case (CPut k v)
    with s(1) put frame show ?thesis by (simp add: sd kv_put_def Let_def del: rec_image.simps)
  next
    case (CDel k)
    define s1 where "s1 = s\<lparr>kv_seq := kv_seq s + 1, kv_wal := kv_wal s\<lparr>wal_buffer :=
        wal_buffer (kv_wal s) @ [rec_image (RDel (kv_seq s + 1) k)]\<rparr>, kv_map := kv_map s\<rparr>"
    have inv1: "tail_inv pre p (s1, d)"
      unfolding s1_def by (rule tail_inv_record [OF inv])
    note frame1 = inv1 tail_inv_flush [OF inv1]
    define t where "t = (if commit_due (kv_seq s + 1) (kv_group s)
      then snd (flush_wal io_ok (s1, d)) else (s1, d))"
    have t: "tail_inv pre p t \<and> (\<forall>p'. p' \<noteq> p \<longrightarrow> snd t p' = d p')"
      using frame1 by (simp add: t_def)
    have "kv_exec io_ok c sd = (fst t\<lparr>kv_map := AList.delete k (kv_map (fst t))\<rparr>, snd t)"
      using s(1) del frame1(4) unfolding CDel sd t_def
      by (auto simp: kv_del_def Let_def s1_def simp del: rec_image.simps split: prod.split)
    with t show ?thesis by (simp add: sd tail_inv_def)
  next
    case CFlush
    with tail_inv_flush [OF inv] show ?thesis by (simp add: sd)
  next
    case (CBatch n)
    with inv show ?thesis by (simp add: sd set_group_commit_every_def tail_inv_def)
  qed
qed

lemma tail_inv_run:
  "tail_inv pre p sd \<Longrightarrow> tail_inv pre p (kv_run io_ok cs sd) \<and>
     (\<forall>p'. p' \<noteq> p \<longrightarrow> snd (kv_run io_ok cs sd) p' = snd sd p')"
  by (induction cs arbitrary: sd) (simp_all add: tail_inv_exec)

text \<open>
  C32.  Flushed writes behind a torn record are lost.  A log ends in the first one to six
  bytes of a record.  A store opened on it recovers the records before; then it
  executes any commands and a flush, and every system call succeeds.  The store opened next
  has the map the first one started with: nothing written in between survives.
\<close>

theorem torn_tail_loses_writes:
  assumes "d0 p = Some \<lparr>content = log_image rs @ take n (rec_image r), synced = m\<rparr>"
    and "0 < n" and "n < 7" and "list_all wf_rec (rs @ [r])" and "p \<noteq> kv_snapshot"
    and "kv_open io_ok p (kv_new, d0) = (True, sd0)"
  shows "\<exists>t d1. fst (flush_wal io_ok (kv_run io_ok cs sd0)) \<and>
    kv_open io_ok p (kv_new, snd (snd (flush_wal io_ok (kv_run io_ok cs sd0)))) = (True, (t, d1)) \<and>
    kv_map t = kv_map (fst sd0)"
proof -
  define pre where "pre = log_image rs @ take n (rec_image r)"
  have wf: "\<forall>r \<in> set rs. wf_rec r" "wf_rec r" using assms(4) by (simp_all add: list_all_iff)
  have dec: "fst (decode_all read_record (pre @ log_image xs)) = rs" for xs
    using wal_log.decode_all_stuck [OF wf(1) read_record_torn_log [OF assms(2,3) wf(2), of xs]]
    by (simp add: pre_def log_image_def)
  note op0 = kv_open_ok [where d = d0 and p = p, OF assms(1)]
  have sd0: "snd sd0 = d0" "kv_map (fst sd0) = fold apply_rec rs (snap_map d0)"
    using assms(6) op0 dec [of "[]"] by (auto simp: pre_def)
  have "tail_inv pre p sd0"
    unfolding tail_inv_def using assms(1,6) op0
    by (intro exI [of _ "[]"] exI [of _ "[]"] exI [of _ m]) (auto simp: pre_def)
  then have run: "tail_inv pre p (kv_run io_ok cs sd0)"
    "\<forall>p'. p' \<noteq> p \<longrightarrow> snd (kv_run io_ok cs sd0) p' = d0 p'"
    using tail_inv_run [of pre p sd0 cs] sd0(1) by simp_all
  obtain s d where sd: "kv_run io_ok cs sd0 = (s, d)" by (cases "kv_run io_ok cs sd0")
  define d1 where "d1 = snd (snd (flush_wal io_ok (kv_run io_ok cs sd0)))"
  from tail_inv_flush [OF run(1) [unfolded sd]] run(2) have
    ok: "fst (flush_wal io_ok (kv_run io_ok cs sd0))" and inv: "tail_inv pre p (snd (flush_wal io_ok (kv_run io_ok cs sd0)))"
    and frame: "\<forall>p'. p' \<noteq> p \<longrightarrow> d1 p' = d0 p'"
    by (simp_all add: sd d1_def)
  from inv obtain xs k where d1: "d1 p = Some \<lparr>content = pre @ log_image xs, synced = k\<rparr>"
    by (auto simp: tail_inv_def d1_def)
  have "snap_map d1 = snap_map d0" using frame assms(5) by (simp add: snap_map_def)
  with kv_open_ok [where d = d1 and p = p, OF d1] dec [of xs] sd0(2) ok show ?thesis
    by (simp add: d1_def)
qed

theorem torn_tail_loses_writes_witness:
  "\<exists>t d1. kv_open io_ok ''wal'' (kv_new, snd (snd (flush_wal io_ok (kv_run io_ok [CPut ''k'' ''v'']
      (snd (kv_open io_ok ''wal'' (kv_new, [''wal'' \<mapsto> \<lparr>content = ''KVL'', synced = 3\<rparr>])))))))
     = (True, (t, d1)) \<and> kv_get ''k'' t = None"
proof -
  let ?d0 = "[''wal'' \<mapsto> \<lparr>content = ''KVL'', synced = 3\<rparr>]"
  define sd0 where "sd0 = snd (kv_open io_ok ''wal'' (kv_new, ?d0))"
  obtain t0 where "rec_image (RDel 1 ''k'') = ''KVLG'' @ [CHR 0x01, CHR 0x00] @ t0"
    using rec_image_start by blast
  then have d0: "?d0 ''wal'' = Some \<lparr>content = log_image [] @ take 3 (rec_image (RDel 1 ''k'')), synced = 3\<rparr>"
    by simp
  have dec: "decode_all read_record ''KVL'' = ([], ''KVL'')"
    by (rule decode_all_None) (simp add: read_record_def)
  have op: "kv_open io_ok ''wal'' (kv_new, ?d0) = (True, sd0)" and m: "kv_map (fst sd0) = []"
    unfolding sd0_def by (simp_all add: kv_open_ok dec snap_map_def)
  have "\<exists>t d1. fst (flush_wal io_ok (kv_run io_ok [CPut ''k'' ''v''] sd0)) \<and>
      kv_open io_ok ''wal'' (kv_new, snd (snd (flush_wal io_ok (kv_run io_ok [CPut ''k'' ''v''] sd0)))) = (True, (t, d1)) \<and>
      kv_map t = kv_map (fst sd0)"
    by (rule torn_tail_loses_writes [OF d0 _ _ _ _ op]) simp_all
  with m show ?thesis unfolding sd0_def [symmetric] by (auto simp: kv_get_def)
qed

end
