(* ===== verification/Text_Numbers.thy ===== *)
theory Text_Numbers
  imports Text_Streams
begin

text \<open>
  Numbers in text: unsigned output in base 10 (\<^verbatim>\<open>std::to_string\<close>, \<^verbatim>\<open>out << n\<close>) and in base 16
  (\<^verbatim>\<open>out << std::hex << n\<close>), and the readers \<^verbatim>\<open>std::stoull\<close>, \<^verbatim>\<open>std::stoul\<close> and \<^verbatim>\<open>std::stoi\<close>.  A
  reader skips white space, takes an optional sign and the longest run of digits, ignores what
  follows, and throws when there is no digit or the value is out of range; here it
  returns None.
\<close>

definition digit_char :: "nat \<Rightarrow> char" where
  "digit_char d = (if d < 10 then char_of (48 + d) else char_of (87 + d))"

fun show_base :: "nat \<Rightarrow> nat \<Rightarrow> string" where
  "show_base b n =
     (if b < 2 \<or> n < b then [digit_char n] else show_base b (n div b) @ [digit_char (n mod b)])"

declare show_base.simps [simp del]

definition show_nat :: "nat \<Rightarrow> string" where
  "show_nat n = show_base 10 n"

definition show_word :: "'a::len word \<Rightarrow> string" where
  "show_word w = show_nat (unat w)"

definition show_hex :: "u64 \<Rightarrow> string" where
  "show_hex w = show_base 16 (unat w)"

definition is_digit :: "char \<Rightarrow> bool" where
  "is_digit c \<longleftrightarrow> 48 \<le> (of_char c :: nat) \<and> (of_char c :: nat) \<le> 57"

definition digits_val :: "string \<Rightarrow> nat" where
  "digits_val ds = foldl (\<lambda>a c. 10 * a + (of_char c - 48)) 0 ds"

text \<open>The sign and the magnitude at the start of a string, as \<^verbatim>\<open>strtoull\<close> and \<^verbatim>\<open>strtol\<close> see it.\<close>

definition scan_number :: "string \<Rightarrow> (bool \<times> nat) option" where
  "scan_number s =
     (let s = dropWhile is_space s;
          neg = (s \<noteq> [] \<and> hd s = CHR ''-'');
          s = (if s \<noteq> [] \<and> (hd s = CHR ''-'' \<or> hd s = CHR ''+'') then tl s else s);
          ds = takeWhile is_digit s
      in if ds = [] then None else Some (neg, digits_val ds))"

text \<open>\<^verbatim>\<open>std::stoull\<close>, and \<^verbatim>\<open>std::stoul\<close> on a host with 64-bit \<^verbatim>\<open>unsigned long\<close>.\<close>

definition stoull :: "string \<Rightarrow> u64 option" where
  "stoull s =
     (case scan_number s of
        None \<Rightarrow> None
      | Some (neg, n) \<Rightarrow>
          if 2 ^ 64 \<le> n then None else Some (if neg then - of_nat n else of_nat n))"

text \<open>\<^verbatim>\<open>std::stoi\<close>.\<close>

definition stoi :: "string \<Rightarrow> int option" where
  "stoi s =
     (case scan_number s of
        None \<Rightarrow> None
      | Some (neg, n) \<Rightarrow>
          let i = (if neg then - int n else int n)
          in if - (2 ^ 31) \<le> i \<and> i < 2 ^ 31 then Some i else None)"

subsection \<open>Reading back what was printed\<close>

lemma of_char_digit: "d < 10 \<Longrightarrow> of_char (digit_char d) = 48 + d"
  by (simp add: digit_char_def)

lemma is_digit_digit_char: "d < 10 \<Longrightarrow> is_digit (digit_char d)"
  by (simp add: is_digit_def of_char_digit)

lemma show_nat_digits: "list_all is_digit (show_nat n)"
proof (induction n rule: less_induct)
  case (less n)
  show ?case
  proof (cases "n < 10")
    case True
    then show ?thesis by (simp add: show_nat_def show_base.simps is_digit_digit_char)
  next
    case False
    with less [of "n div 10"] show ?thesis
      by (simp add: show_nat_def show_base.simps [of 10 n] is_digit_digit_char)
  qed
qed

lemma show_nat_nonempty [simp]: "show_nat n \<noteq> []"
  by (simp add: show_nat_def show_base.simps [of 10 n])

lemma digits_val_show_nat [simp]: "digits_val (show_nat n) = n"
proof (induction n rule: less_induct)
  case (less n)
  show ?case
  proof (cases "n < 10")
    case True
    then show ?thesis by (simp add: show_nat_def show_base.simps digits_val_def of_char_digit)
  next
    case False
    with less [of "n div 10"] show ?thesis
      by (simp add: show_nat_def show_base.simps [of 10 n] digits_val_def of_char_digit)
  qed
qed

lemma is_digit_char:
  assumes "is_digit c"
  shows "\<not> is_space c" and "c \<noteq> CHR ''-''" and "c \<noteq> CHR ''+''" and "c \<noteq> CHR '':''" and "c \<noteq> CHR 0x09"
  using assms by (auto simp: is_digit_def is_space_def)

lemma scan_number_show: "scan_number (show_nat n) = Some (False, n)"
proof -
  obtain c ds where s: "show_nat n = c # ds" using show_nat_nonempty by (metis neq_Nil_conv)
  then have c: "is_digit c" using show_nat_digits [of n] by simp
  have "takeWhile is_digit (show_nat n) = show_nat n"
    using show_nat_digits [of n] by (simp add: list_all_iff)
  then show ?thesis using is_digit_char [OF c] s
    by (simp add: scan_number_def Let_def del: takeWhile_eq_all_conv) (metis digits_val_show_nat)
qed

lemma show_nat_no_tab: "CHR 0x09 \<notin> set (show_nat n)"
  using show_nat_digits [of n] is_digit_char(5) by (auto simp: list_all_iff)

lemma show_nat_no_colon: "CHR '':'' \<notin> set (show_nat n)"
  using show_nat_digits [of n] is_digit_char(4) by (auto simp: list_all_iff)

lemma show_nat_inject [simp]: "show_nat m = show_nat n \<longleftrightarrow> m = n"
  by (metis digits_val_show_nat)

lemma show_word_inject [simp]: "show_word v = show_word w \<longleftrightarrow> v = w"
  by (simp add: show_word_def word_unat_eq_iff)

lemma stoull_show: "n < 2 ^ 64 \<Longrightarrow> stoull (show_nat n) = Some (of_nat n)"
  by (simp add: stoull_def scan_number_show)

lemma stoull_show_u64 [simp]: "stoull (show_word (w :: u64)) = Some w"
proof -
  have "unat w < 2 ^ LENGTH(64)" by (rule unsigned_less)
  then show ?thesis by (simp add: show_word_def stoull_show)
qed

lemma stoull_show_u32 [simp]: "map_option ucast (stoull (show_word (w :: u32))) = Some w"
proof -
  have w: "unat w < 2 ^ LENGTH(32)" by (rule unsigned_less)
  then have "unat (ucast (of_nat (unat w) :: u64) :: u32) = unat w"
    by (simp add: unsigned_ucast_eq unsigned_of_nat take_bit_nat_eq_self take_bit_word_eq_self)
  with w show ?thesis by (simp add: show_word_def stoull_show word_unat_eq_iff)
qed

lemma stoi_show: "n < 2 ^ 31 \<Longrightarrow> stoi (show_nat n) = Some (int n)"
  by (simp add: stoi_def scan_number_show)

lemma show_base_hex_chars: "c \<in> set (show_base 16 n) \<Longrightarrow> \<exists>d < 16. c = digit_char d"
proof (induction n rule: less_induct)
  case (less n)
  show ?case
  proof (cases "n < 16")
    case True
    with less.prems show ?thesis by (auto simp: show_base.simps [of 16 n])
  next
    case False
    then have "n div 16 < n" "n mod 16 < 16" by simp_all
    moreover from False less.prems have "c = digit_char (n mod 16) \<or> c \<in> set (show_base 16 (n div 16))"
      by (auto simp: show_base.simps [of 16 n])
    ultimately show ?thesis using less.IH by blast
  qed
qed

lemma show_hex_no_tab: "CHR 0x09 \<notin> set (show_hex w)"
proof
  assume "CHR 0x09 \<in> set (show_hex w)"
  then obtain d where "d < 16" "CHR 0x09 = digit_char d"
    using show_base_hex_chars unfolding show_hex_def by blast
  then have "of_char (CHR 0x09) = (if d < 10 then 48 + d else 87 + d :: nat)"
    by (simp add: digit_char_def)
  then show False by (simp split: if_splits)
qed

lemma length_show_base: "2 \<le> b \<Longrightarrow> n < b ^ Suc k \<Longrightarrow> length (show_base b n) \<le> Suc k"
proof (induction k arbitrary: n)
  case 0
  then show ?case by (simp add: show_base.simps [of b n])
next
  case (Suc k)
  then have "n div b < b ^ Suc k" by (simp add: less_mult_imp_div_less mult.commute)
  with Suc show ?case by (simp add: show_base.simps [of b n])
qed

lemma length_show_u64: "length (show_word (w :: u64)) \<le> 20"
proof -
  have "unat w < 2 ^ 64" using unsigned_less [of w, where ?'a = nat] by simp
  then have "unat w < 10 ^ Suc 19" by simp
  from length_show_base [OF _ this] show ?thesis by (simp add: show_word_def show_nat_def)
qed

lemma length_show_u32: "length (show_word (w :: u32)) \<le> 10"
proof -
  have "unat w < 2 ^ 32" using unsigned_less [of w, where ?'a = nat] by simp
  then have "unat w < 10 ^ Suc 9" by simp
  from length_show_base [OF _ this] show ?thesis by (simp add: show_word_def show_nat_def)
qed

lemma length_show_hex: "length (show_hex w) \<le> 16"
proof -
  have "unat w < 2 ^ 64" using unsigned_less [of w, where ?'a = nat] by simp
  then have "unat w < 16 ^ Suc 15" by simp
  from length_show_base [OF _ this] show ?thesis by (simp add: show_hex_def)
qed

end
