(* ===== verification/Object_Codec.thy ===== *)
theory Object_Codec
  imports Text_Numbers "HOL-Library.Monad_Syntax"
begin

text \<open>
  The data of the object store: the types of \<^verbatim>\<open>src/include/kv/object_store_types.h\<close>, the keys
  of \<^verbatim>\<open>src/include/kv/object_store_key_codec.h\<close> and the text format of the metadata in
  \<^verbatim>\<open>src/src/object_store.cpp\<close>.  Reading a written metadata record gives it back when no field
  contains a tab; chunk keys determine the object and the index they belong to.
\<close>

subsection \<open>Types\<close>

record BucketMetadata =
  bm_name :: string
  bm_created :: u64

record ChunkDescriptor =
  cd_index :: u32
  cd_offset :: u64
  cd_size :: u32
  cd_key :: string

text \<open>The enumeration, with the values a cast from an arbitrary byte can give it.\<close>

datatype ObjectState = Pending | Committed | Deleted | OtherState u8

record ObjectMetadata =
  md_object_id :: string
  md_bucket :: string
  md_key :: string
  md_size :: u64
  md_chunk_count :: u32
  md_chunk_size :: u32
  md_content_type :: string
  md_etag :: string
  md_created :: u64
  md_updated :: u64
  md_state :: ObjectState
  md_chunks :: "ChunkDescriptor list"

fun state_code :: "ObjectState \<Rightarrow> nat" where
  "state_code Pending = 0"
| "state_code Committed = 1"
| "state_code Deleted = 2"
| "state_code (OtherState b) = unat b"

text \<open>\<^verbatim>\<open>static_cast<ObjectState>(state_int)\<close>: the underlying type has eight bits.\<close>

definition state_of_int :: "int \<Rightarrow> ObjectState" where
  "state_of_int i =
     (let b = word_of_int i :: u8
      in if b = 0 then Pending else if b = 1 then Committed else if b = 2 then Deleted
         else OtherState b)"

definition default_metadata :: ObjectMetadata where
  "default_metadata =
     \<lparr>md_object_id = [], md_bucket = [], md_key = [], md_size = 0, md_chunk_count = 0,
      md_chunk_size = 0, md_content_type = ''application/octet-stream'', md_etag = [],
      md_created = 0, md_updated = 0, md_state = Committed, md_chunks = []\<rparr>"

subsection \<open>Keys\<close>

definition BucketMetaKey :: "string \<Rightarrow> string" where
  "BucketMetaKey bucket = ''bucket:'' @ bucket"

definition ObjectMetaKey :: "string \<Rightarrow> string \<Rightarrow> string" where
  "ObjectMetaKey bucket key = ''objmeta:'' @ bucket @ '':'' @ key"

definition BucketIndexKey :: "string \<Rightarrow> string \<Rightarrow> string" where
  "BucketIndexKey bucket key = ''bucketidx:'' @ bucket @ '':'' @ key"

definition ChunkKey :: "string \<Rightarrow> u32 \<Rightarrow> string" where
  "ChunkKey object_id index = ''objchunk:'' @ object_id @ '':'' @ show_word index"

subsection \<open>Metadata as text\<close>

definition compute_etag :: "(string \<Rightarrow> u64) \<Rightarrow> string \<Rightarrow> string" where
  "compute_etag hash data = show_hex (hash data)"

definition make_object_id :: "u64 \<Rightarrow> string \<Rightarrow> string \<Rightarrow> string" where
  "make_object_id now bucket key = bucket @ '':'' @ key @ '':'' @ show_word now"

definition serialize_metadata :: "ObjectMetadata \<Rightarrow> string" where
  "serialize_metadata m =
     md_object_id m @ [TAB] @ md_bucket m @ [TAB] @ md_key m @ [TAB] @
     show_word (md_size m) @ [TAB] @ show_word (md_chunk_count m) @ [TAB] @
     show_word (md_chunk_size m) @ [TAB] @ md_content_type m @ [TAB] @ md_etag m @ [TAB] @
     show_word (md_created m) @ [TAB] @ show_word (md_updated m) @ [TAB] @
     show_nat (state_code (md_state m))"

definition deserialize_metadata :: "string \<Rightarrow> ObjectMetadata option" where
  "deserialize_metadata s =
     do {
       (object_id, s) \<leftarrow> get_line TAB s;
       (bucket, s) \<leftarrow> get_line TAB s;
       (key, s) \<leftarrow> get_line TAB s;
       (size_bytes, s) \<leftarrow> get_line TAB s;
       (chunk_count, s) \<leftarrow> get_line TAB s;
       (chunk_size_bytes, s) \<leftarrow> get_line TAB s;
       (content_type, s) \<leftarrow> get_line TAB s;
       (etag, s) \<leftarrow> get_line TAB s;
       (created_at, s) \<leftarrow> get_line TAB s;
       (updated_at, s) \<leftarrow> get_line TAB s;
       (state_str, s) \<leftarrow> get_line TAB s;
       sz \<leftarrow> stoull size_bytes;
       n \<leftarrow> map_option ucast (stoull chunk_count);
       cs \<leftarrow> map_option ucast (stoull chunk_size_bytes);
       cr \<leftarrow> stoull created_at;
       up \<leftarrow> stoull updated_at;
       st \<leftarrow> stoi state_str;
       Some \<lparr>md_object_id = object_id, md_bucket = bucket, md_key = key, md_size = sz,
         md_chunk_count = n, md_chunk_size = cs, md_content_type = content_type, md_etag = etag,
         md_created = cr, md_updated = up, md_state = state_of_int st, md_chunks = []\<rparr>
     }"

definition serialize_bucket_meta :: "BucketMetadata \<Rightarrow> string" where
  "serialize_bucket_meta b = bm_name b @ [TAB] @ show_word (bm_created b)"

definition deserialize_bucket_meta :: "string \<Rightarrow> BucketMetadata option" where
  "deserialize_bucket_meta s =
     do {
       (name, s) \<leftarrow> get_line TAB s;
       (created_at, s) \<leftarrow> get_line TAB s;
       cr \<leftarrow> stoull created_at;
       Some \<lparr>bm_name = name, bm_created = cr\<rparr>
     }"

subsection \<open>The text format\<close>

lemma state_of_int_code: "(\<forall>b. st = OtherState b \<longrightarrow> 2 < b) \<Longrightarrow> state_of_int (int (state_code st)) = st"
  by (cases st) (auto simp: state_of_int_def Let_def)

definition tab_free :: "ObjectMetadata \<Rightarrow> bool" where
  "tab_free m \<longleftrightarrow>
     TAB \<notin> set (md_object_id m @ md_bucket m @ md_key m @ md_content_type m @ md_etag m)"

definition wf_state :: "ObjectState \<Rightarrow> bool" where
  "wf_state st \<longleftrightarrow> (case st of OtherState b \<Rightarrow> 2 < b | _ \<Rightarrow> True)"

lemma state_code_less: "state_code st < 2 ^ 31"
proof (cases st)
  case (OtherState b)
  have "unat b < 2 ^ LENGTH(8)" by (rule unsigned_less)
  with OtherState show ?thesis by simp
qed simp_all

lemma get_line_word: "get_line TAB (show_word w @ TAB # s) = Some (show_word w, s)"
  by (simp add: get_line_field show_word_def show_nat_no_tab)

lemma deserialize_serialize:
  assumes "tab_free m" and "wf_state (md_state m)" and "md_chunks m = []"
  shows "deserialize_metadata (serialize_metadata m) = Some m"
proof -
  have st: "state_of_int (int (state_code (md_state m))) = md_state m"
    using assms(2) by (intro state_of_int_code) (auto simp: wf_state_def)
  have field: "get_line TAB (x @ TAB # s) = Some (x, s)" if "TAB \<notin> set x" for x s
    using that by (rule get_line_field)
  have last: "get_line TAB (show_nat n) = Some (show_nat n, [])" for n
    by (intro get_line_last) (simp_all add: show_nat_no_tab)
  show ?thesis
    using assms(1,3)
    by (simp add: deserialize_metadata_def serialize_metadata_def tab_free_def field get_line_word
        last stoi_show [OF state_code_less] st)
qed

lemma deserialize_serialize_bucket:
  "TAB \<notin> set (bm_name b) \<Longrightarrow> deserialize_bucket_meta (serialize_bucket_meta b) = Some b"
proof -
  assume "TAB \<notin> set (bm_name b)"
  moreover have "get_line TAB (show_word (bm_created b)) = Some (show_word (bm_created b), [])"
    by (intro get_line_last) (simp_all add: show_word_def show_nat_no_tab)
  ultimately show ?thesis
    by (simp add: deserialize_bucket_meta_def serialize_bucket_meta_def get_line_field)
qed

subsection \<open>The key space\<close>

lemma append_colon_inject:
  assumes "CHR '':'' \<notin> set y" and "CHR '':'' \<notin> set y'"
  shows "x @ CHR '':'' # y = x' @ CHR '':'' # y' \<longleftrightarrow> x = x' \<and> y = y'"
proof
  assume "x @ CHR '':'' # y = x' @ CHR '':'' # y'"
  then have "rev y @ CHR '':'' # rev x = rev y' @ CHR '':'' # rev x'"
    by (metis append.assoc append_Cons append_Nil rev.simps(2) rev_append)
  moreover have "takeWhile (\<lambda>c. c \<noteq> CHR '':'') (rev z @ CHR '':'' # r) = rev z"
    if "CHR '':'' \<notin> set z" for z r
    using that by (auto simp: takeWhile_append)
  ultimately have "rev y = rev y'" using assms by metis
  then show "x = x' \<and> y = y'" using \<open>x @ CHR '':'' # y = x' @ CHR '':'' # y'\<close> by simp
qed simp

lemma ChunkKey_inject [simp]: "ChunkKey oid i = ChunkKey oid' i' \<longleftrightarrow> oid = oid' \<and> i = i'"
  by (simp add: ChunkKey_def append_colon_inject show_word_def show_nat_no_colon word_unat_eq_iff)

lemma key_spaces [simp]:
  "ChunkKey oid i \<noteq> ObjectMetaKey b k" "ObjectMetaKey b k \<noteq> ChunkKey oid i"
  "ChunkKey oid i \<noteq> BucketIndexKey b k" "BucketIndexKey b k \<noteq> ChunkKey oid i"
  "ObjectMetaKey b k \<noteq> BucketIndexKey b' k'" "BucketIndexKey b' k' \<noteq> ObjectMetaKey b k"
  "BucketMetaKey b \<noteq> ObjectMetaKey b' k" "BucketMetaKey b \<noteq> BucketIndexKey b' k"
  "BucketMetaKey b \<noteq> ChunkKey oid i" "ObjectMetaKey b' k \<noteq> BucketMetaKey b"
  "BucketIndexKey b' k \<noteq> BucketMetaKey b" "ChunkKey oid i \<noteq> BucketMetaKey b"
  by (simp_all add: ChunkKey_def ObjectMetaKey_def BucketIndexKey_def BucketMetaKey_def)

lemma ObjectMetaKey_inject:
  assumes "CHR '':'' \<notin> set b" and "CHR '':'' \<notin> set b'"
  shows "ObjectMetaKey b k = ObjectMetaKey b' k' \<longleftrightarrow> b = b' \<and> k = k'"
proof
  assume "ObjectMetaKey b k = ObjectMetaKey b' k'"
  then have eq: "b @ CHR '':'' # k = b' @ CHR '':'' # k'" by (simp add: ObjectMetaKey_def)
  moreover have "takeWhile (\<lambda>c. c \<noteq> CHR '':'') (z @ CHR '':'' # r) = z" if "CHR '':'' \<notin> set z" for z r
    using that by (auto simp: takeWhile_append)
  ultimately have "b = b'" using assms by metis
  with eq show "b = b' \<and> k = k'" by simp
qed simp

lemma ObjectMetaKey_index:
  "ObjectMetaKey b k = ObjectMetaKey b' k' \<longleftrightarrow> BucketIndexKey b k = BucketIndexKey b' k'"
  by (simp add: ObjectMetaKey_def BucketIndexKey_def)

end
