(* ===== verification/Object_Store.thy ===== *)
theory Object_Store
  imports Object_Codec Kv_Store
begin

text \<open>
  The object store: \<^verbatim>\<open>class ObjectStore\<close> of \<^verbatim>\<open>src/include/kv/object_store.h\<close> and
  \<^verbatim>\<open>src/src/object_store.cpp\<close>, a client of the storage engine.  The class holds a reference
  to the engine and the chunk size; here the chunk size \<open>cs\<close> is an argument and the engine is the
  state.  The clock readings and \<^verbatim>\<open>std::hash\<close> are arguments too.  An operation
  that calls the engine several times takes the outcomes of the system calls from \<open>ios\<close>: those of
  its first call to the engine that may write from \<open>ios 0\<close>, of the second from \<open>ios 1\<close>, and so on.
\<close>

subsection \<open>Requests and results\<close>

record PutObjectRequest =
  rq_bucket :: string
  rq_key :: string
  rq_data :: string
  rq_content_type :: string

record PutObjectResult =
  pr_ok :: bool
  pr_error :: string
  pr_object_id :: string
  pr_size :: u64
  pr_chunk_count :: u32
  pr_etag :: string

record GetObjectResult =
  gr_found :: bool
  gr_error :: string
  gr_metadata :: ObjectMetadata
  gr_data :: string

record ObjectListEntry =
  oe_key :: string
  oe_size :: u64
  oe_content_type :: string
  oe_etag :: string
  oe_updated :: u64

record ListObjectsResult =
  lr_ok :: bool
  lr_error :: string
  lr_objects :: "ObjectListEntry list"

record DeleteObjectResult =
  dr_ok :: bool
  dr_error :: string

definition put_result :: PutObjectResult where
  "put_result = \<lparr>pr_ok = False, pr_error = [], pr_object_id = [], pr_size = 0,
     pr_chunk_count = 0, pr_etag = []\<rparr>"

definition get_result :: GetObjectResult where
  "get_result = \<lparr>gr_found = False, gr_error = [], gr_metadata = default_metadata, gr_data = []\<rparr>"

subsection \<open>Buckets\<close>

text \<open>The constructor replaces the chunk size 0.\<close>

definition os_chunk_size :: "u32 \<Rightarrow> u32" where
  "os_chunk_size n = (if n = 0 then 4096 else n)"

definition BucketExists :: "string \<Rightarrow> kvstore \<Rightarrow> bool" where
  "BucketExists bucket s = (if bucket = [] then False else kv_get (BucketMetaKey bucket) s \<noteq> None)"

definition CreateBucket :: "io \<Rightarrow> u64 \<Rightarrow> string \<Rightarrow> sys \<Rightarrow> bool \<times> sys" where
  "CreateBucket io now bucket sd =
     (if bucket = [] then (False, sd)
      else if kv_get (BucketMetaKey bucket) (fst sd) \<noteq> None then (True, sd)
      else (True, kv_put io (BucketMetaKey bucket)
              (serialize_bucket_meta \<lparr>bm_name = bucket, bm_created = now\<rparr>) sd))"

subsection \<open>Writing an object\<close>

definition chunk_total :: "u32 \<Rightarrow> nat \<Rightarrow> u32" where
  "chunk_total cs total_size = of_nat ((total_size + unat cs - 1) div unat cs)"

definition chunk_slice :: "u32 \<Rightarrow> string \<Rightarrow> nat \<Rightarrow> string" where
  "chunk_slice cs data i =
     (let start = i * unat cs;
          end_ix = min (start + unat cs) (length data)
      in take (end_ix - start) (drop start data))"

definition put_chunks :: "(nat \<Rightarrow> io) \<Rightarrow> string \<Rightarrow> u32 \<Rightarrow> string \<Rightarrow> u32 \<Rightarrow> sys \<Rightarrow> sys" where
  "put_chunks ios object_id cs data n sd =
     fold (\<lambda>i. kv_put (ios i) (ChunkKey object_id (of_nat i)) (chunk_slice cs data i)) [0..<unat n] sd"

definition put_metadata ::
    "(string \<Rightarrow> u64) \<Rightarrow> u64 \<Rightarrow> u64 \<Rightarrow> u32 \<Rightarrow> PutObjectRequest \<Rightarrow> ObjectMetadata" where
  "put_metadata hash t1 t2 cs req =
     \<lparr>md_object_id = make_object_id t1 (rq_bucket req) (rq_key req),
      md_bucket = rq_bucket req, md_key = rq_key req,
      md_size = of_nat (length (rq_data req)),
      md_chunk_count = chunk_total cs (length (rq_data req)), md_chunk_size = cs,
      md_content_type = rq_content_type req, md_etag = compute_etag hash (rq_data req),
      md_created = t2, md_updated = t2, md_state = Committed, md_chunks = []\<rparr>"

definition PutObject ::
    "(nat \<Rightarrow> io) \<Rightarrow> (string \<Rightarrow> u64) \<Rightarrow> u64 \<Rightarrow> u64 \<Rightarrow> u32 \<Rightarrow> PutObjectRequest \<Rightarrow> sys \<Rightarrow>
     PutObjectResult \<times> sys" where
  "PutObject ios hash t1 t2 cs req sd =
     (if rq_bucket req = [] then (put_result\<lparr>pr_error := ''bucket is empty''\<rparr>, sd)
      else if rq_key req = [] then (put_result\<lparr>pr_error := ''object key is empty''\<rparr>, sd)
      else if \<not> BucketExists (rq_bucket req) (fst sd)
        then (put_result\<lparr>pr_error := ''bucket does not exist''\<rparr>, sd)
      else
        let meta = put_metadata hash t1 t2 cs req;
            n = unat (md_chunk_count meta);
            sd = put_chunks ios (md_object_id meta) cs (rq_data req) (md_chunk_count meta) sd;
            sd = kv_put (ios n) (ObjectMetaKey (rq_bucket req) (rq_key req)) (serialize_metadata meta) sd;
            sd = kv_put (ios (n + 1)) (BucketIndexKey (rq_bucket req) (rq_key req)) (md_object_id meta) sd;
            (ok, sd) = flush_wal (ios (n + 2)) sd
        in if \<not> ok then (put_result\<lparr>pr_error := ''failed to flush WAL''\<rparr>, sd)
           else (\<lparr>pr_ok = True, pr_error = [], pr_object_id = md_object_id meta,
                   pr_size = of_nat (length (rq_data req)),
                   pr_chunk_count = md_chunk_count meta, pr_etag = md_etag meta\<rparr>, sd))"

subsection \<open>Reading an object\<close>

text \<open>The loop over the chunks: the index of a missing chunk, or all the data.\<close>

fun get_chunks :: "kvstore \<Rightarrow> string \<Rightarrow> nat list \<Rightarrow> string \<Rightarrow> nat + string" where
  "get_chunks s object_id [] acc = Inr acc"
| "get_chunks s object_id (i # is) acc =
     (case kv_get (ChunkKey object_id (of_nat i)) s of
        None \<Rightarrow> Inl i
      | Some chunk \<Rightarrow> get_chunks s object_id is (acc @ chunk))"

definition GetObject :: "string \<Rightarrow> string \<Rightarrow> kvstore \<Rightarrow> GetObjectResult" where
  "GetObject bucket key s =
     (case kv_get (ObjectMetaKey bucket key) s of
        None \<Rightarrow> get_result\<lparr>gr_error := ''object metadata not found''\<rparr>
      | Some raw_meta \<Rightarrow>
        (case deserialize_metadata raw_meta of
           None \<Rightarrow> get_result\<lparr>gr_error := ''failed to deserialize object metadata''\<rparr>
         | Some meta \<Rightarrow>
             if md_state meta = Deleted then get_result\<lparr>gr_error := ''object is deleted''\<rparr>
             else
               (case get_chunks s (md_object_id meta) [0..<unat (md_chunk_count meta)] [] of
                  Inl i \<Rightarrow> get_result\<lparr>gr_metadata := meta,
                    gr_error := ''missing object chunk at index '' @ show_nat i\<rparr>
                | Inr data \<Rightarrow> \<lparr>gr_found = True, gr_error = [], gr_metadata = meta, gr_data = data\<rparr>)))"

subsection \<open>Deleting an object\<close>

definition DeleteObject ::
    "(nat \<Rightarrow> io) \<Rightarrow> u64 \<Rightarrow> string \<Rightarrow> string \<Rightarrow> sys \<Rightarrow> DeleteObjectResult \<times> sys" where
  "DeleteObject ios now bucket key sd =
     (case kv_get (ObjectMetaKey bucket key) (fst sd) of
        None \<Rightarrow> (\<lparr>dr_ok = False, dr_error = ''object metadata not found''\<rparr>, sd)
      | Some raw_meta \<Rightarrow>
        (case deserialize_metadata raw_meta of
           None \<Rightarrow> (\<lparr>dr_ok = False, dr_error = ''failed to deserialize object metadata''\<rparr>, sd)
         | Some meta \<Rightarrow>
             let meta = meta\<lparr>md_state := Deleted, md_updated := now\<rparr>;
                 sd = kv_put (ios 0) (ObjectMetaKey bucket key) (serialize_metadata meta) sd;
                 sd = snd (kv_del (ios 1) (BucketIndexKey bucket key) sd);
                 (ok, sd) = flush_wal (ios 2) sd
             in if \<not> ok then (\<lparr>dr_ok = False, dr_error = ''failed to flush WAL''\<rparr>, sd)
                else (\<lparr>dr_ok = True, dr_error = []\<rparr>, sd)))"

subsection \<open>Listing\<close>

text \<open>One round of the loop: the entry of an index key, unless the round continues.\<close>

definition list_entry :: "string \<Rightarrow> kvstore \<Rightarrow> string \<Rightarrow> ObjectListEntry option" where
  "list_entry bucket s index_key =
     (let base_prefix = ''bucketidx:'' @ bucket @ '':'' in
      if length index_key < length base_prefix then None
      else
        let object_key = drop (length base_prefix) index_key in
        case kv_get (ObjectMetaKey bucket object_key) s of
          None \<Rightarrow> None
        | Some raw_meta \<Rightarrow>
          (case deserialize_metadata raw_meta of
             None \<Rightarrow> None
           | Some meta \<Rightarrow>
               if md_state meta = Deleted then None
               else Some \<lparr>oe_key = md_key meta, oe_size = md_size meta,
                 oe_content_type = md_content_type meta, oe_etag = md_etag meta,
                 oe_updated = md_updated meta\<rparr>))"

definition ListObjects ::
    "(kvmap \<Rightarrow> kvmap) \<Rightarrow> string \<Rightarrow> string \<Rightarrow> kvstore \<Rightarrow> ListObjectsResult" where
  "ListObjects ord bucket pre s =
     (if bucket = [] then \<lparr>lr_ok = False, lr_error = ''bucket is empty'', lr_objects = []\<rparr>
      else if \<not> BucketExists bucket s
        then \<lparr>lr_ok = False, lr_error = ''bucket does not exist'', lr_objects = []\<rparr>
      else
        let index_keys = list_keys_with_prefix ord (BucketIndexKey bucket pre) s
        in \<lparr>lr_ok = True, lr_error = [], lr_objects = List.map_filter (list_entry bucket s) index_keys\<rparr>)"

subsection \<open>Garbage collection\<close>

text \<open>Step 1: the object ids of the committed metadata.\<close>

definition committed_id :: "kvstore \<Rightarrow> string \<Rightarrow> string option" where
  "committed_id s meta_key =
     (case kv_get meta_key s of
        None \<Rightarrow> None
      | Some raw_meta \<Rightarrow>
        (case deserialize_metadata raw_meta of
           None \<Rightarrow> None
         | Some meta \<Rightarrow> if md_state meta = Committed then Some (md_object_id meta) else None))"

definition reachable_object_ids :: "(kvmap \<Rightarrow> kvmap) \<Rightarrow> kvstore \<Rightarrow> string list" where
  "reachable_object_ids ord s =
     List.map_filter (committed_id s) (list_keys_with_prefix ord ''objmeta:'' s)"

text \<open>\<^verbatim>\<open>s.rfind(c)\<close>.\<close>

definition rfind_char :: "char \<Rightarrow> string \<Rightarrow> nat option" where
  "rfind_char c s =
     (let r = dropWhile (\<lambda>x. x \<noteq> c) (rev s) in if r = [] then None else Some (length r - 1))"

text \<open>The object a chunk key belongs to, unless the round continues.\<close>

definition chunk_owner :: "string \<Rightarrow> string option" where
  "chunk_owner chunk_key =
     (case rfind_char (CHR '':'') chunk_key of
        None \<Rightarrow> None
      | Some last_colon \<Rightarrow>
          if last_colon \<le> 9 then None
          else Some (take (last_colon - 9) (drop 9 chunk_key)))"

text \<open>
  Step 2: the loop over the chunk keys, with the number of deleted chunks.  The deletion in
  the round of the \<open>i\<close>-th key, if the round makes one, has its outcomes from \<open>ios i\<close>.
\<close>

fun gc_loop :: "(nat \<Rightarrow> io) \<Rightarrow> string list \<Rightarrow> string list \<Rightarrow> nat \<Rightarrow> sys \<Rightarrow> nat \<times> sys" where
  "gc_loop ios reachable [] n sd = (n, sd)"
| "gc_loop ios reachable (k # ks) n sd =
     (case chunk_owner k of
        None \<Rightarrow> gc_loop (\<lambda>i. ios (Suc i)) reachable ks n sd
      | Some object_id \<Rightarrow>
          if object_id \<in> set reachable then gc_loop (\<lambda>i. ios (Suc i)) reachable ks n sd
          else
            let (erased, sd) = kv_del (ios 0) k sd
            in gc_loop (\<lambda>i. ios (Suc i)) reachable ks (if erased then n + 1 else n) sd)"

definition GarbageCollectChunks :: "(nat \<Rightarrow> io) \<Rightarrow> (kvmap \<Rightarrow> kvmap) \<Rightarrow> sys \<Rightarrow> nat \<times> sys" where
  "GarbageCollectChunks ios ord sd =
     (let reachable = reachable_object_ids ord (fst sd);
          chunk_keys = list_keys_with_prefix ord ''objchunk:'' (fst sd);
          (n, sd) = gc_loop ios reachable chunk_keys 0 sd
      in (n, snd (flush_wal (ios (length chunk_keys)) sd)))"

end
