(* ===== verification/Object_Lemmas.thy ===== *)
theory Object_Lemmas
  imports Object_Store Kv_Api
begin

text \<open>
  What the operations of the object store do to the key-value map, and what they read from it.
  The lemmas use the storage engine only through the laws of \<open>kv_api\<close>.
\<close>

subsection \<open>Chunks\<close>

lemma chunk_slice_alt: "chunk_slice cs data i = take (unat cs) (drop (i * unat cs) data)"
  by (auto simp: chunk_slice_def Let_def min_def)

lemma concat_slices:
  "concat (map (\<lambda>i. take c (drop (i * c) xs)) [0..<n]) = take (n * c) xs"
proof (induction n)
  case (Suc n)
  then show ?case using take_add [of "n * c" c xs] by (simp add: add.commute)
qed simp

lemma chunks_cover: "0 < c \<Longrightarrow> (len :: nat) \<le> (len + c - 1) div c * c"
proof -
  assume c: "0 < c"
  define q where "q = (len + c - 1) div c"
  have "q * c + (len + c - 1) mod c = len + c - 1" by (simp add: q_def)
  moreover have "(len + c - 1) mod c < c" using c by simp
  ultimately show "len \<le> (len + c - 1) div c * c" unfolding q_def [symmetric] using c by linarith
qed

text \<open>The data fits: its length into 64 bits, the number of chunks into 32.\<close>

definition size_ok :: "u32 \<Rightarrow> string \<Rightarrow> bool" where
  "size_ok cs data \<longleftrightarrow> cs \<noteq> 0 \<and> length data < 2 ^ 64 \<and>
     (length data + unat cs - 1) div unat cs < 2 ^ 32"

lemma unat_chunk_total:
  "size_ok cs data \<Longrightarrow> unat (chunk_total cs (length data)) = (length data + unat cs - 1) div unat cs"
  unfolding chunk_total_def by (rule of_nat_inverse) (simp_all add: size_ok_def)

lemma concat_chunk_slices:
  assumes "size_ok cs data"
  shows "concat (map (chunk_slice cs data) [0..<unat (chunk_total cs (length data))]) = data"
proof -
  have "0 < unat cs" using assms by (simp add: size_ok_def unat_gt_0)
  from chunks_cover [OF this, of "length data"] show ?thesis
    using concat_slices [of "unat cs" data "unat (chunk_total cs (length data))"]
    by (simp add: chunk_slice_alt [abs_def] unat_chunk_total [OF assms])
qed

lemma get_chunks_all:
  "(\<And>i. i \<in> set is \<Longrightarrow> kv_get (ChunkKey oid (of_nat i)) s = Some (f i)) \<Longrightarrow>
   get_chunks s oid is acc = Inr (acc @ concat (map f is))"
  by (induction "is" arbitrary: acc) simp_all

lemma get_chunks_cong:
  "(\<And>i. i \<in> set is \<Longrightarrow> kv_get (ChunkKey oid (of_nat i)) s = kv_get (ChunkKey oid (of_nat i)) s') \<Longrightarrow>
   get_chunks s oid is acc = get_chunks s' oid is acc"
  by (induction "is" arbitrary: acc) (simp_all split: option.split)

subsection \<open>Reading depends on the metadata and the chunks of the object\<close>

definition stored_meta :: "kvstore \<Rightarrow> string \<Rightarrow> string \<Rightarrow> ObjectMetadata option" where
  "stored_meta s b k = Option.bind (kv_get (ObjectMetaKey b k) s) deserialize_metadata"

lemma GetObject_cong:
  assumes "kv_get (ObjectMetaKey b k) s' = kv_get (ObjectMetaKey b k) s"
    and "\<And>meta i. stored_meta s b k = Some meta \<Longrightarrow>
      kv_get (ChunkKey (md_object_id meta) i) s' = kv_get (ChunkKey (md_object_id meta) i) s"
  shows "GetObject b k s' = GetObject b k s"
proof -
  have "get_chunks s' (md_object_id meta) is acc = get_chunks s (md_object_id meta) is acc"
    if "stored_meta s b k = Some meta" for meta "is" acc
    by (rule get_chunks_cong) (rule assms(2) [OF that])
  then show ?thesis using assms(1)
    by (auto simp: GetObject_def stored_meta_def split: option.split)
qed

subsection \<open>What \<^verbatim>\<open>PutObject\<close> writes\<close>

definition chunk_pairs :: "string \<Rightarrow> u32 \<Rightarrow> string \<Rightarrow> u32 \<Rightarrow> (string \<times> string) list" where
  "chunk_pairs oid cs data n = map (\<lambda>i. (ChunkKey oid (of_nat i), chunk_slice cs data i)) [0..<unat n]"

definition put_pairs :: "(string \<Rightarrow> u64) \<Rightarrow> u64 \<Rightarrow> u64 \<Rightarrow> u32 \<Rightarrow> PutObjectRequest \<Rightarrow> (string \<times> string) list" where
  "put_pairs hash t1 t2 cs req =
     (let meta = put_metadata hash t1 t2 cs req
      in chunk_pairs (md_object_id meta) cs (rq_data req) (md_chunk_count meta) @
         [(ObjectMetaKey (rq_bucket req) (rq_key req), serialize_metadata meta),
          (BucketIndexKey (rq_bucket req) (rq_key req), md_object_id meta)])"

definition put_guard :: "PutObjectRequest \<Rightarrow> kvstore \<Rightarrow> bool" where
  "put_guard req s \<longleftrightarrow> rq_bucket req \<noteq> [] \<and> rq_key req \<noteq> [] \<and> BucketExists (rq_bucket req) s"

text \<open>The pairs with the outcomes of the system calls that writing each of them makes.\<close>

definition with_io :: "(nat \<Rightarrow> io) \<Rightarrow> (string \<times> string) list \<Rightarrow> (io \<times> string \<times> string) list" where
  "with_io ios kvs = zip (map ios [0..<length kvs]) kvs"

lemma snd_with_io [simp]: "map snd (with_io ios kvs) = kvs"
  by (simp add: with_io_def)

lemma length_with_io [simp]: "length (with_io ios kvs) = length kvs"
  by (simp add: with_io_def)

lemma with_io_snoc: "with_io ios (kvs @ [kv]) = with_io ios kvs @ [(ios (length kvs), kv)]"
  by (simp add: with_io_def zip_append)

lemma put_chunks_pairs:
  "put_chunks ios oid cs data n sd = put_all (with_io ios (chunk_pairs oid cs data n)) sd"
proof -
  have "with_io ios (chunk_pairs oid cs data n) =
      map (\<lambda>i. (ios i, ChunkKey oid (of_nat i), chunk_slice cs data i)) [0..<unat n]"
    by (rule nth_equalityI) (simp_all add: with_io_def chunk_pairs_def)
  then show ?thesis by (simp add: put_chunks_def fold_map comp_def)
qed

lemma length_chunk_pairs [simp]: "length (chunk_pairs oid cs data n) = unat n"
  by (simp add: chunk_pairs_def)

lemma length_put_pairs:
  "length (put_pairs hash t1 t2 cs req) = unat (md_chunk_count (put_metadata hash t1 t2 cs req)) + 2"
  by (simp add: put_pairs_def Let_def)

lemma put_all_pairs:
  fixes hash t1 t2 cs req
  defines "meta \<equiv> put_metadata hash t1 t2 cs req"
  defines "n \<equiv> unat (md_chunk_count meta)"
  shows "put_all (with_io ios (put_pairs hash t1 t2 cs req)) sd =
    kv_put (ios (n + 1)) (BucketIndexKey (rq_bucket req) (rq_key req)) (md_object_id meta)
      (kv_put (ios n) (ObjectMetaKey (rq_bucket req) (rq_key req)) (serialize_metadata meta)
        (put_chunks ios (md_object_id meta) cs (rq_data req) (md_chunk_count meta) sd))"
proof -
  define cp where "cp = chunk_pairs (md_object_id meta) cs (rq_data req) (md_chunk_count meta)"
  have "put_pairs hash t1 t2 cs req =
      (cp @ [(ObjectMetaKey (rq_bucket req) (rq_key req), serialize_metadata meta)]) @
      [(BucketIndexKey (rq_bucket req) (rq_key req), md_object_id meta)]"
    by (simp add: put_pairs_def Let_def cp_def meta_def)
  moreover have "length cp = n" by (simp add: cp_def n_def)
  ultimately show ?thesis
    by (simp only: with_io_snoc fold_append comp_apply put_chunks_pairs cp_def [symmetric]) simp
qed

lemma PutObject_writes:
  assumes "put_guard req (fst sd)"
  shows "PutObject ios hash t1 t2 cs req sd =
    (let meta = put_metadata hash t1 t2 cs req;
         ps = put_pairs hash t1 t2 cs req;
         (ok, sd') = flush_wal (ios (length ps)) (put_all (with_io ios ps) sd)
     in (if ok then \<lparr>pr_ok = True, pr_error = [], pr_object_id = md_object_id meta,
           pr_size = of_nat (length (rq_data req)), pr_chunk_count = md_chunk_count meta,
           pr_etag = md_etag meta\<rparr>
         else put_result\<lparr>pr_error := ''failed to flush WAL''\<rparr>, sd'))"
  using assms
  by (simp add: PutObject_def put_guard_def put_all_pairs length_put_pairs Let_def split: prod.split)

lemma PutObject_state:
  assumes "put_guard req (fst sd)"
  shows "snd (PutObject ios hash t1 t2 cs req sd) =
    snd (flush_wal (ios (length (put_pairs hash t1 t2 cs req)))
      (put_all (with_io ios (put_pairs hash t1 t2 cs req)) sd))"
  unfolding PutObject_writes [OF assms] by (simp add: Let_def split: prod.split)

lemma PutObject_ok:
  assumes "put_guard req (fst sd)"
  shows "pr_ok (fst (PutObject ios hash t1 t2 cs req sd)) =
    fst (flush_wal (ios (length (put_pairs hash t1 t2 cs req)))
      (put_all (with_io ios (put_pairs hash t1 t2 cs req)) sd))"
  unfolding PutObject_writes [OF assms] by (simp add: Let_def put_result_def split: prod.split)

lemma pr_ok_guard: "pr_ok (fst (PutObject ios hash t1 t2 cs req sd)) \<Longrightarrow> put_guard req (fst sd)"
  by (auto simp: PutObject_def put_guard_def put_result_def split: if_splits)

lemma distinct_chunk_pairs: "distinct (map fst (chunk_pairs oid cs data n))"
proof -
  have lt: "unat n < 2 ^ LENGTH(32)" by (rule unsigned_less)
  have "inj_on (\<lambda>i. ChunkKey oid (of_nat i)) (set [0..<unat n])"
  proof (rule inj_onI)
    fix i j
    assume "i \<in> set [0..<unat n]" "j \<in> set [0..<unat n]" "ChunkKey oid (of_nat i) = ChunkKey oid (of_nat j)"
    with lt have "unat (of_nat i :: u32) = unat (of_nat j :: u32)" "i < 2 ^ 32" "j < 2 ^ 32" by simp_all
    then show "i = j" by (simp add: of_nat_inverse unsigned_of_nat take_bit_nat_eq_self)
  qed
  then show ?thesis by (simp add: chunk_pairs_def distinct_map comp_def)
qed

lemma chunk_pairs_fst: "k \<in> fst ` set (chunk_pairs oid cs data n) \<Longrightarrow> \<exists>i. k = ChunkKey oid i"
  by (auto simp: chunk_pairs_def)

lemma distinct_put_pairs: "distinct (map fst (put_pairs hash t1 t2 cs req))"
proof -
  define oid where "oid = md_object_id (put_metadata hash t1 t2 cs req)"
  define n where "n = md_chunk_count (put_metadata hash t1 t2 cs req)"
  have "k \<notin> fst ` set (chunk_pairs oid cs (rq_data req) n)" if "\<forall>i. k \<noteq> ChunkKey oid i" for k
    using that chunk_pairs_fst by blast
  with distinct_chunk_pairs [of oid cs "rq_data req" n] show ?thesis
    by (simp add: put_pairs_def Let_def oid_def n_def)
qed

lemma put_lookup_in:
  assumes "kv_ready sd" and "put_guard req (fst sd)" and "(k, v) \<in> set (put_pairs hash t1 t2 cs req)"
  shows "kv_lookup (snd (PutObject ios hash t1 t2 cs req sd)) k = Some v"
  using kv.lookup_puts_in [OF assms(1), of "with_io ios (put_pairs hash t1 t2 cs req)"] distinct_put_pairs assms(3)
  by (simp add: PutObject_state [OF assms(2)] flush_wal_frame)

lemma put_lookup_other:
  assumes "kv_ready sd" and "put_guard req (fst sd)" and "k \<notin> fst ` set (put_pairs hash t1 t2 cs req)"
  shows "kv_lookup (snd (PutObject ios hash t1 t2 cs req sd)) k = kv_lookup sd k"
  using kv.lookup_puts_other [OF assms(1), of k "with_io ios (put_pairs hash t1 t2 cs req)"] assms(3)
  by (simp add: PutObject_state [OF assms(2)] flush_wal_frame del: set_map)

lemma put_ready:
  assumes "kv_ready sd"
  shows "kv_ready (snd (PutObject ios hash t1 t2 cs req sd))"
proof (cases "put_guard req (fst sd)")
  case True
  with flush_wal_frame(1) [OF kv.ready_puts [OF assms]] show ?thesis
    by (simp add: PutObject_state)
next
  case False
  with assms show ?thesis by (auto simp: PutObject_def put_guard_def)
qed

text \<open>Requests whose metadata the text format can hold.\<close>

definition req_ok :: "u32 \<Rightarrow> PutObjectRequest \<Rightarrow> bool" where
  "req_ok cs req \<longleftrightarrow> size_ok cs (rq_data req) \<and>
     TAB \<notin> set (rq_bucket req) \<and> TAB \<notin> set (rq_key req) \<and> TAB \<notin> set (rq_content_type req)"

lemma put_metadata_roundtrip:
  assumes "req_ok cs req"
  shows "deserialize_metadata (serialize_metadata (put_metadata hash t1 t2 cs req)) =
    Some (put_metadata hash t1 t2 cs req)"
proof (rule deserialize_serialize)
  show "tab_free (put_metadata hash t1 t2 cs req)"
    using assms
    by (simp add: tab_free_def put_metadata_def req_ok_def make_object_id_def compute_etag_def
        show_hex_no_tab show_word_def show_nat_no_tab)
qed (simp_all add: put_metadata_def wf_state_def)

text \<open>A store that has the chunks and the metadata of a request returns the object.\<close>

lemma GetObject_stored:
  fixes hash t1 t2 cs req
  defines "meta \<equiv> put_metadata hash t1 t2 cs req"
  assumes "req_ok cs req"
    and m: "kv_get (ObjectMetaKey (rq_bucket req) (rq_key req)) s = Some (serialize_metadata meta)"
    and c: "\<And>k v. (k, v) \<in> set (chunk_pairs (md_object_id meta) cs (rq_data req) (md_chunk_count meta)) \<Longrightarrow>
      kv_get k s = Some v"
  shows "GetObject (rq_bucket req) (rq_key req) s =
    \<lparr>gr_found = True, gr_error = [], gr_metadata = meta, gr_data = rq_data req\<rparr>"
proof -
  have "kv_get (ChunkKey (md_object_id meta) (of_nat i)) s = Some (chunk_slice cs (rq_data req) i)"
    if "i \<in> set [0..<unat (md_chunk_count meta)]" for i
    using that by (intro c) (auto simp: chunk_pairs_def)
  then have "get_chunks s (md_object_id meta) [0..<unat (md_chunk_count meta)] [] =
      Inr ([] @ concat (map (chunk_slice cs (rq_data req)) [0..<unat (md_chunk_count meta)]))"
    by (rule get_chunks_all)
  also have "\<dots> = Inr (rq_data req)"
    using concat_chunk_slices [of cs "rq_data req"] assms(2)
    by (simp add: meta_def put_metadata_def req_ok_def)
  finally have chunks: "get_chunks s (md_object_id meta) [0..<unat (md_chunk_count meta)] [] = Inr (rq_data req)" .
  have "md_state meta \<noteq> Deleted" by (simp add: meta_def put_metadata_def)
  with m chunks put_metadata_roundtrip [OF assms(2), of hash t1 t2] show ?thesis
    by (simp add: GetObject_def meta_def)
qed

end
