(* ===== verification/Object_Props.thy ===== *)
theory Object_Props
  imports Object_Lemmas
begin

text \<open>The properties of the object store's operations on a running engine.\<close>

subsection \<open>Metadata\<close>

text \<open>
  C29.  Metadata round trip.  Reading the text of a metadata record gives the record back,
  whatever its numbers are, if no text field contains a tab.
\<close>

theorem metadata_roundtrip:
  assumes "tab_free m" and "wf_state (md_state m)" and "md_chunks m = []"
  shows "deserialize_metadata (serialize_metadata m) = Some m"
  using assms by (rule deserialize_serialize)

definition sample_meta :: ObjectMetadata where
  "sample_meta = default_metadata\<lparr>md_object_id := ''b:k:1'', md_bucket := ''b'', md_key := ''k'',
     md_size := - 1, md_chunk_count := - 1, md_content_type := [], md_etag := ''ff'',
     md_state := Deleted\<rparr>"

theorem metadata_roundtrip_witness: "deserialize_metadata (serialize_metadata sample_meta) = Some sample_meta"
  by (rule metadata_roundtrip) (simp_all add: sample_meta_def default_metadata_def tab_free_def wf_state_def)

text \<open>
  The metadata keys of two objects differ if the bucket names contain no colon; with a
  colon in a bucket name two objects of different buckets share one metadata key.
\<close>

theorem meta_key_collision:
  assumes "CHR '':'' \<notin> set b" and "CHR '':'' \<notin> set b'"
  shows "(ObjectMetaKey b k = ObjectMetaKey b' k' \<longleftrightarrow> b = b' \<and> k = k') \<and>
    ObjectMetaKey (b @ '':'' @ b') k = ObjectMetaKey b (b' @ '':'' @ k)"
  using ObjectMetaKey_inject [OF assms] by (simp add: ObjectMetaKey_def)

theorem meta_key_collision_witness:
  "ObjectMetaKey ''a'' ''k'' \<noteq> ObjectMetaKey ''b'' ''k'' \<and>
   ObjectMetaKey ''a:b'' ''k'' = ObjectMetaKey ''a'' ''b:k''"
  using meta_key_collision [of "''a''" "''b''" "''k''" "''k''"] by simp

subsection \<open>Put, get and delete\<close>

lemma put_then_get:
  assumes "kv_ready sd" and "req_ok cs req"
    and "PutObject ios hash t1 t2 cs req sd = (r, sd')" and "pr_ok r"
  shows "GetObject (rq_bucket req) (rq_key req) (fst sd') =
    \<lparr>gr_found = True, gr_error = [], gr_metadata = put_metadata hash t1 t2 cs req,
     gr_data = rq_data req\<rparr>"
proof -
  have g: "put_guard req (fst sd)" using pr_ok_guard assms(3,4) by (metis fst_conv)
  have look: "kv_get k (fst sd') = Some v" if "(k, v) \<in> set (put_pairs hash t1 t2 cs req)" for k v
    using put_lookup_in [OF assms(1) g that, of ios] by (simp add: assms(3) kv_lookup_def)
  show ?thesis
    by (rule GetObject_stored [OF assms(2)]) (auto intro!: look simp: put_pairs_def Let_def)
qed

text \<open>
  C6.  Put and get.  For a request with no tab in its bucket, key and content type, and with
  fewer than \<open>2\<^sup>6\<^sup>4\<close> bytes in fewer than \<open>2\<^sup>3\<^sup>2\<close> chunks (\<open>req_ok\<close>): after a \<^verbatim>\<open>PutObject\<close> on an open engine that reports
  success, \<^verbatim>\<open>GetObject\<close> finds the object and returns the data byte for byte and the metadata that was
  stored: size, number of chunks, content type and etag.  The outcomes \<open>ios\<close> are one for each
  call to the engine: a group commit inside one of the puts may have failed, success only
  says that the last flush did not.
\<close>

theorem put_get:
  assumes "kv_ready sd" and "req_ok cs req"
    and "PutObject ios hash t1 t2 cs req sd = (r, sd')" and "pr_ok r"
  shows "GetObject (rq_bucket req) (rq_key req) (fst sd') =
    \<lparr>gr_found = True, gr_error = [], gr_metadata = put_metadata hash t1 t2 cs req,
     gr_data = rq_data req\<rparr>"
  using assms by (rule put_then_get)

text \<open>An engine with the bucket \<open>b\<close>, and a request whose data takes three chunks of four bytes.\<close>

definition bucket_sys :: sys where
  "bucket_sys = (kv_new\<lparr>kv_opened := True, kv_map := [(''bucket:b'', ''b'' @ [TAB] @ ''7'')],
     kv_wal := wal_new\<lparr>wal_fd := Some (''w'', 0)\<rparr>\<rparr>, [''w'' \<mapsto> empty_file])"

definition sample_req :: PutObjectRequest where
  "sample_req = \<lparr>rq_bucket = ''b'', rq_key = ''k'', rq_data = ''hello world'', rq_content_type = ''text''\<rparr>"

lemma sample_ok: "req_ok 4 sample_req" "put_guard sample_req (fst bucket_sys)" "kv_ready bucket_sys"
  by (simp_all add: req_ok_def size_ok_def sample_req_def put_guard_def bucket_sys_def BucketExists_def
      kv_get_def BucketMetaKey_def kv_ready_def)

lemma flush_ready_ok: "kv_ready sd \<Longrightarrow> fst (flush_wal io_ok sd)"
  using wal_flush_success [of "kv_wal (fst sd)" "snd sd"]
  by (cases sd) (auto simp: kv_ready_def flush_wal_def split: prod.split)

lemma put_ok:
  assumes "kv_ready sd" and "put_guard req (fst sd)"
    and "ios (length (put_pairs hash t1 t2 cs req)) = io_ok"
  shows "pr_ok (fst (PutObject ios hash t1 t2 cs req sd))"
  unfolding PutObject_ok [OF assms(2)] assms(3) by (intro flush_ready_ok kv.ready_puts assms(1))

text \<open>Instance: five records are written, and the group commit that is due after the fifth fails.\<close>

definition late_io :: "nat \<Rightarrow> io" where
  "late_io i = (if i = 4 then io_ok\<lparr>io_fsync := False\<rparr> else io_ok)"

theorem put_get_witness:
  "gr_data (GetObject ''b'' ''k'' (fst (snd (PutObject late_io (\<lambda>_. 5) 1 2 4 sample_req bucket_sys)))) = ''hello world''"
proof -
  obtain r sd' where p: "PutObject late_io (\<lambda>_. 5) 1 2 4 sample_req bucket_sys = (r, sd')"
    by (cases "PutObject late_io (\<lambda>_. 5) 1 2 4 sample_req bucket_sys")
  have "late_io (length (put_pairs (\<lambda>_. 5) 1 2 4 sample_req)) = io_ok"
    by (simp add: length_put_pairs put_metadata_def chunk_total_def sample_req_def late_io_def)
  with put_ok [OF sample_ok(3,2), of late_io "\<lambda>_. 5" 1 2 4] p have "pr_ok r" by simp
  from put_get [OF sample_ok(3,1) p this] p show ?thesis by (simp add: sample_req_def)
qed

text \<open>
  Put leaves other objects alone.  \<^verbatim>\<open>PutObject\<close>, successful or not, does not change what
  \<^verbatim>\<open>GetObject\<close> returns for an object with another metadata key and another object id.
\<close>

theorem put_frame:
  assumes "kv_ready sd" and "ObjectMetaKey b k \<noteq> ObjectMetaKey (rq_bucket req) (rq_key req)"
    and "map_option md_object_id (stored_meta (fst sd) b k) \<noteq>
      Some (make_object_id t1 (rq_bucket req) (rq_key req))"
  shows "GetObject b k (fst (snd (PutObject ios hash t1 t2 cs req sd))) = GetObject b k (fst sd)"
proof (cases "put_guard req (fst sd)")
  case True
  define oid where "oid = make_object_id t1 (rq_bucket req) (rq_key req)"
  have keys: "x \<in> fst ` set (put_pairs hash t1 t2 cs req) \<Longrightarrow>
      (\<exists>i. x = ChunkKey oid i) \<or> x = ObjectMetaKey (rq_bucket req) (rq_key req) \<or>
      x = BucketIndexKey (rq_bucket req) (rq_key req)" for x
    by (auto simp: put_pairs_def Let_def put_metadata_def oid_def dest!: chunk_pairs_fst [OF imageI])
  note other = put_lookup_other [OF assms(1) True, unfolded kv_lookup_def]
  show ?thesis
  proof (rule GetObject_cong)
    show "kv_get (ObjectMetaKey b k) (fst (snd (PutObject ios hash t1 t2 cs req sd))) =
        kv_get (ObjectMetaKey b k) (fst sd)"
      by (rule other) (use keys assms(2) in force)
    show "kv_get (ChunkKey (md_object_id meta) i) (fst (snd (PutObject ios hash t1 t2 cs req sd))) =
        kv_get (ChunkKey (md_object_id meta) i) (fst sd)"
      if "stored_meta (fst sd) b k = Some meta" for meta i
      by (rule other) (use keys assms(3) that in \<open>force simp: oid_def\<close>)
  qed
next
  case False
  then have "snd (PutObject ios hash t1 t2 cs req sd) = sd" by (auto simp: PutObject_def put_guard_def)
  then show ?thesis by simp
qed

theorem put_frame_witness:
  "GetObject ''b'' ''other'' (fst (snd (PutObject (\<lambda>_. io_ok) (\<lambda>_. 5) 1 2 4 sample_req bucket_sys))) =
   GetObject ''b'' ''other'' (fst bucket_sys)"
  by (rule put_frame [OF sample_ok(3)])
    (simp_all add: ObjectMetaKey_def sample_req_def bucket_sys_def stored_meta_def kv_get_def)

lemma delete_outcome:
  assumes "kv_ready sd" and "stored_meta (fst sd) b k = Some meta"
    and "tab_free meta" and "md_chunks meta = []"
  shows "GetObject b k (fst (snd (DeleteObject ios now b k sd))) =
      get_result\<lparr>gr_error := ''object is deleted''\<rparr> \<and>
    (\<forall>b' k'. ObjectMetaKey b' k' = ObjectMetaKey b k \<or>
       GetObject b' k' (fst (snd (DeleteObject ios now b k sd))) = GetObject b' k' (fst sd)) \<and>
    dr_ok (fst (DeleteObject (\<lambda>_. io_ok) now b k sd)) \<and>
    kv_get (BucketIndexKey b k) (fst (snd (DeleteObject (\<lambda>_. io_ok) now b k sd))) = None"
proof -
  define meta' where "meta' = meta\<lparr>md_state := Deleted, md_updated := now\<rparr>"
  define sd1 where "sd1 ios = kv_put (ios 0) (ObjectMetaKey b k) (serialize_metadata meta') sd" for ios :: "nat \<Rightarrow> io"
  define sd2 where "sd2 ios = snd (kv_del (ios 1) (BucketIndexKey b k) (sd1 ios))" for ios
  from assms(2) obtain raw where raw: "kv_get (ObjectMetaKey b k) (fst sd) = Some raw"
    "deserialize_metadata raw = Some meta"
    by (auto simp: stored_meta_def bind_eq_Some_conv)
  have st: "snd (DeleteObject ios now b k sd) = snd (flush_wal (ios 2) (sd2 ios))"
    and ok: "dr_ok (fst (DeleteObject ios now b k sd)) = fst (flush_wal (ios 2) (sd2 ios))" for ios
    by (simp_all add: DeleteObject_def raw Let_def sd2_def sd1_def meta'_def split: prod.split)
  have r1: "kv_ready (sd1 ios)" and l1: "kv_lookup (sd1 ios) = (kv_lookup sd)(ObjectMetaKey b k \<mapsto> serialize_metadata meta')"
    for ios unfolding sd1_def by (simp_all add: kv_put_ready [OF assms(1)])
  have r2: "kv_ready (sd2 ios)" for ios unfolding sd2_def by (rule kv_del_frame(1) [OF r1])
  have l2: "x \<noteq> BucketIndexKey b k \<Longrightarrow> kv_lookup (sd2 ios) x = kv_lookup (sd1 ios) x" for ios x
    unfolding sd2_def by (rule kv_del_frame(2) [OF r1])
  have look: "x \<noteq> BucketIndexKey b k \<Longrightarrow> kv_get x (fst (snd (DeleteObject ios now b k sd))) =
      ((kv_lookup sd)(ObjectMetaKey b k \<mapsto> serialize_metadata meta')) x" for ios x
    using l1 l2 flush_wal_frame(2) [of "ios 2" "sd2 ios"] unfolding st kv_lookup_def by metis
  have "deserialize_metadata (serialize_metadata meta') = Some meta'"
    by (rule deserialize_serialize) (use assms(3,4) in \<open>simp_all add: meta'_def tab_free_def wf_state_def\<close>)
  then have del: "GetObject b k (fst (snd (DeleteObject ios now b k sd))) = get_result\<lparr>gr_error := ''object is deleted''\<rparr>"
    by (simp add: GetObject_def look meta'_def)
  have "GetObject b' k' (fst (snd (DeleteObject ios now b k sd))) = GetObject b' k' (fst sd)"
    if "ObjectMetaKey b' k' \<noteq> ObjectMetaKey b k" for b' k'
    by (rule GetObject_cong) (use that in \<open>simp_all add: look kv_lookup_def\<close>)
  moreover have "dr_ok (fst (DeleteObject (\<lambda>_. io_ok) now b k sd))"
    unfolding ok by (rule flush_ready_ok [OF r2])
  moreover have "kv_get (BucketIndexKey b k) (fst (snd (DeleteObject (\<lambda>_. io_ok) now b k sd))) = None"
  proof -
    have "kv_lookup (sd2 (\<lambda>_. io_ok)) (BucketIndexKey b k) = None"
      using kv.lookup_del [OF r1, of "BucketIndexKey b k"] by (simp add: sd2_def kv_del_ok_def)
    then show ?thesis
      using flush_wal_frame(2) [of io_ok "sd2 (\<lambda>_. io_ok)"] unfolding st kv_lookup_def by metis
  qed
  ultimately show ?thesis using del by blast
qed

text \<open>
  C16.  Delete.  \<^verbatim>\<open>DeleteObject\<close> of an object with readable metadata leaves it marked as
  deleted, whatever its flushes did: \<^verbatim>\<open>GetObject\<close> reports \<^verbatim>\<open>object is deleted\<close> and no data, and every
  object with another metadata key is read as before.  With a working device it
  reports success and the index entry is gone.
\<close>

theorem delete_object:
  assumes "kv_ready sd" and "stored_meta (fst sd) b k = Some meta"
    and "tab_free meta" and "md_chunks meta = []"
  shows "GetObject b k (fst (snd (DeleteObject ios now b k sd))) =
      get_result\<lparr>gr_error := ''object is deleted''\<rparr> \<and>
    (\<forall>b' k'. ObjectMetaKey b' k' = ObjectMetaKey b k \<or>
       GetObject b' k' (fst (snd (DeleteObject ios now b k sd))) = GetObject b' k' (fst sd)) \<and>
    dr_ok (fst (DeleteObject (\<lambda>_. io_ok) now b k sd)) \<and>
    kv_get (BucketIndexKey b k) (fst (snd (DeleteObject (\<lambda>_. io_ok) now b k sd))) = None"
  using assms by (rule delete_outcome)

definition object_sys :: sys where
  "object_sys = snd (PutObject (\<lambda>_. io_ok) (\<lambda>_. 5) 1 2 4 sample_req bucket_sys)"

lemma object_sys_meta:
  "kv_ready object_sys" "stored_meta (fst object_sys) ''b'' ''k'' = Some (put_metadata (\<lambda>_. 5) 1 2 4 sample_req)"
proof -
  show "kv_ready object_sys" unfolding object_sys_def by (rule put_ready [OF sample_ok(3)])
  have "kv_lookup object_sys (ObjectMetaKey ''b'' ''k'') = Some (serialize_metadata (put_metadata (\<lambda>_. 5) 1 2 4 sample_req))"
    unfolding object_sys_def
    by (rule put_lookup_in [OF sample_ok(3,2)]) (simp add: put_pairs_def Let_def sample_req_def)
  then show "stored_meta (fst object_sys) ''b'' ''k'' = Some (put_metadata (\<lambda>_. 5) 1 2 4 sample_req)"
    using put_metadata_roundtrip [OF sample_ok(1)] by (simp add: stored_meta_def kv_lookup_def)
qed

theorem delete_object_witness:
  "gr_error (GetObject ''b'' ''k'' (fst (snd (DeleteObject (\<lambda>_. io_ok) 9 ''b'' ''k'' object_sys)))) = ''object is deleted''"
  using delete_object [OF object_sys_meta, of "\<lambda>_. io_ok" 9]
  by (simp add: tab_free_def put_metadata_def sample_req_def make_object_id_def compute_etag_def
      show_word_def show_nat_no_tab show_hex_no_tab get_result_def)

end
