(* ===== verification/Object_Gc.thy ===== *)
theory Object_Gc
  imports Object_Props Kv_Durability
begin

text \<open>
  Listing and garbage collection.  Both iterate over the keys of the engine; their outcome
  does not depend on the order of the iteration, apart from the order of a listing.
\<close>

subsection \<open>Keys with a prefix\<close>

lemma starts_with_append: "starts_with p k \<longleftrightarrow> (\<exists>x. k = p @ x)"
  unfolding starts_with_def by (metis append_eq_conv_conj append_take_drop_id)

lemma set_list_keys:
  assumes "iter_order ord"
  shows "set (list_keys_with_prefix ord p s) = {k. starts_with p k \<and> kv_get k s \<noteq> None}"
proof -
  have "set (ord (kv_map s)) = set (kv_map s)"
    using assms by (auto simp: iter_order_def dest: mset_eq_setD)
  then show ?thesis
    by (auto simp: list_keys_with_prefix_def kv_get_def map_of_eq_None_iff)
qed

lemma distinct_list_keys:
  assumes "iter_order ord" and "distinct (map fst (kv_map s))"
  shows "distinct (list_keys_with_prefix ord p s)"
proof -
  have "mset (map fst (ord (kv_map s))) = mset (map fst (kv_map s))"
    using assms(1) by (simp add: iter_order_def)
  with assms(2) have "distinct (map fst (ord (kv_map s)))" using mset_eq_imp_distinct_iff by blast
  then show ?thesis by (simp add: list_keys_with_prefix_def)
qed

subsection \<open>Listing\<close>

definition entry_of :: "ObjectMetadata \<Rightarrow> ObjectListEntry" where
  "entry_of meta = \<lparr>oe_key = md_key meta, oe_size = md_size meta,
     oe_content_type = md_content_type meta, oe_etag = md_etag meta, oe_updated = md_updated meta\<rparr>"

definition live_object :: "kvstore \<Rightarrow> string \<Rightarrow> string \<Rightarrow> bool" where
  "live_object s b k \<longleftrightarrow>
     (case stored_meta s b k of None \<Rightarrow> False | Some meta \<Rightarrow> md_state meta \<noteq> Deleted)"

lemma list_entry_index:
  "list_entry b s (BucketIndexKey b k) =
     (if live_object s b k then Some (entry_of (the (stored_meta s b k))) else None)"
  by (auto simp: list_entry_def BucketIndexKey_def live_object_def stored_meta_def entry_of_def Let_def
      split: option.split)

lemma map_filter_index:
  "List.map_filter (list_entry b s) (map (BucketIndexKey b) ks) =
     map (\<lambda>k. entry_of (the (stored_meta s b k))) (filter (live_object s b) ks)"
  by (induction ks) (simp_all add: list_entry_index)

lemma list_outcome:
  assumes "iter_order ord" and "distinct (map fst (kv_map s))" and "BucketExists b s"
  shows "\<exists>ks. distinct ks \<and>
    set ks = {k. prefix pre k \<and> kv_get (BucketIndexKey b k) s \<noteq> None \<and> live_object s b k} \<and>
    ListObjects ord b pre s =
      \<lparr>lr_ok = True, lr_error = [], lr_objects = map (\<lambda>k. entry_of (the (stored_meta s b k))) ks\<rparr>"
proof -
  define iks where "iks = list_keys_with_prefix ord (BucketIndexKey b pre) s"
  define oks where "oks = map (drop (length (''bucketidx:'' @ b @ '':''))) iks"
  have BIK: "BucketIndexKey b x = (''bucketidx:'' @ b @ '':'') @ x" for x by (simp add: BucketIndexKey_def)
  have starts: "\<exists>x. k = BucketIndexKey b (pre @ x)" if "k \<in> set iks" for k
    using that unfolding iks_def set_list_keys [OF assms(1)] starts_with_append
    by (auto simp: BucketIndexKey_def)
  have iks: "iks = map (BucketIndexKey b) oks"
    unfolding oks_def by (rule nth_equalityI) (auto simp: BIK dest!: starts [OF nth_mem])
  have "set oks = {k. prefix pre k \<and> kv_get (BucketIndexKey b k) s \<noteq> None}"
  proof (rule set_eqI)
    fix k
    have "k \<in> set oks \<longleftrightarrow> BucketIndexKey b k \<in> set iks"
      unfolding iks by (auto simp: BIK)
    also have "\<dots> \<longleftrightarrow> prefix pre k \<and> kv_get (BucketIndexKey b k) s \<noteq> None"
      unfolding iks_def set_list_keys [OF assms(1)] starts_with_append
      by (auto simp: BIK prefix_def)
    finally show "k \<in> set oks \<longleftrightarrow> k \<in> {k. prefix pre k \<and> kv_get (BucketIndexKey b k) s \<noteq> None}" by simp
  qed
  moreover have "distinct oks"
    using distinct_list_keys [OF assms(1,2), of "BucketIndexKey b pre"]
    unfolding iks_def [symmetric] iks by (simp add: distinct_map)
  moreover have "ListObjects ord b pre s = \<lparr>lr_ok = True, lr_error = [],
      lr_objects = map (\<lambda>k. entry_of (the (stored_meta s b k))) (filter (live_object s b) oks)\<rparr>"
    using assms(3) by (auto simp: ListObjects_def BucketExists_def iks_def [symmetric] iks map_filter_index)
  ultimately show ?thesis by (intro exI [of _ "filter (live_object s b) oks"]) auto
qed

text \<open>
  C18.  Listing.  \<^verbatim>\<open>ListObjects\<close> of an existing bucket returns one entry for each object key that
  starts with the prefix, is in the bucket's index and has readable metadata that is
  not marked as deleted, and no other entry; the entry carries the fields of the metadata.
\<close>

theorem list_objects_exact:
  assumes "iter_order ord" and "distinct (map fst (kv_map s))" and "BucketExists b s"
  shows "\<exists>ks. distinct ks \<and>
    set ks = {k. prefix pre k \<and> kv_get (BucketIndexKey b k) s \<noteq> None \<and> live_object s b k} \<and>
    ListObjects ord b pre s =
      \<lparr>lr_ok = True, lr_error = [], lr_objects = map (\<lambda>k. entry_of (the (stored_meta s b k))) ks\<rparr>"
  using assms by (rule list_outcome)

lemma put_distinct:
  assumes "distinct (map fst (kv_map (fst sd)))"
  shows "distinct (map fst (kv_map (fst (snd (PutObject ios hash t1 t2 cs req sd)))))"
proof (cases "put_guard req (fst sd)")
  case True
  have "distinct (map fst (kv_map (fst (put_all kvs sd))))" for kvs
    using assms by (induction kvs rule: rev_induct) (auto simp: kv_put_distinct split: prod.split)
  with True show ?thesis by (simp add: PutObject_state flush_wal_frame(3))
next
  case False
  with assms show ?thesis by (auto simp: PutObject_def put_guard_def)
qed

lemma object_sys_index:
  "kv_get (BucketIndexKey ''b'' k) (fst object_sys) \<noteq> None \<longleftrightarrow> k = ''k''"
proof (cases "k = ''k''")
  case True
  have "kv_lookup object_sys (BucketIndexKey ''b'' ''k'') =
      Some (md_object_id (put_metadata (\<lambda>_. 5) 1 2 4 sample_req))"
    unfolding object_sys_def
    by (rule put_lookup_in [OF sample_ok(3,2)]) (simp add: put_pairs_def Let_def sample_req_def)
  with True show ?thesis by (simp add: kv_lookup_def)
next
  case False
  then have "BucketIndexKey ''b'' k \<notin> fst ` set (put_pairs (\<lambda>_. 5) 1 2 4 sample_req)"
    by (auto simp: put_pairs_def Let_def sample_req_def BucketIndexKey_def ObjectMetaKey_def
        chunk_pairs_def ChunkKey_def)
  from put_lookup_other [OF sample_ok(3,2) this, of "\<lambda>_. io_ok", folded object_sys_def] False show ?thesis
    by (simp add: kv_lookup_def bucket_sys_def kv_get_def BucketIndexKey_def)
qed

theorem list_objects_exact_witness:
  "map oe_key (lr_objects (ListObjects id ''b'' [] (fst object_sys))) = [''k'']"
proof -
  have d: "distinct (map fst (kv_map (fst object_sys)))"
    unfolding object_sys_def by (rule put_distinct) (simp add: bucket_sys_def)
  have "BucketMetaKey ''b'' \<notin> fst ` set (put_pairs (\<lambda>_. 5) 1 2 4 sample_req)"
    by (auto simp: put_pairs_def Let_def chunk_pairs_def)
  from put_lookup_other [OF sample_ok(3,2) this, of "\<lambda>_. io_ok", folded object_sys_def]
  have "BucketExists ''b'' (fst object_sys)"
    by (simp add: kv_lookup_def bucket_sys_def kv_get_def BucketExists_def BucketMetaKey_def)
  moreover have "iter_order id" by (simp add: iter_order_def)
  ultimately obtain ks where ks: "distinct ks"
    "set ks = {k. prefix [] k \<and> kv_get (BucketIndexKey ''b'' k) (fst object_sys) \<noteq> None \<and>
       live_object (fst object_sys) ''b'' k}"
    "ListObjects id ''b'' [] (fst object_sys) = \<lparr>lr_ok = True, lr_error = [],
       lr_objects = map (\<lambda>k. entry_of (the (stored_meta (fst object_sys) ''b'' k))) ks\<rparr>"
    using list_objects_exact [OF _ d] by blast
  have "live_object (fst object_sys) ''b'' ''k''"
    by (simp add: live_object_def object_sys_meta put_metadata_def)
  with ks(2) have "set ks = {''k''}" unfolding object_sys_index by auto
  with ks(1) have "ks = [''k'']" by (cases ks; cases "tl ks") auto
  then show ?thesis by (simp add: ks(3) object_sys_meta entry_of_def put_metadata_def sample_req_def)
qed

subsection \<open>Garbage collection\<close>

lemma rfind_char_last:
  assumes "c \<notin> set y"
  shows "rfind_char c (x @ c # y) = Some (length x)"
proof -
  have "dropWhile (\<lambda>z. z \<noteq> c) (rev y @ c # rev x) = c # rev x"
    using assms by (auto simp: dropWhile_append)
  then show ?thesis by (simp add: rfind_char_def)
qed

lemma chunk_owner_key: "chunk_owner (ChunkKey oid i) = (if oid = [] then None else Some oid)"
proof -
  have "ChunkKey oid i = (''objchunk:'' @ oid) @ CHR '':'' # show_word i" by (simp add: ChunkKey_def)
  then have "rfind_char (CHR '':'') (ChunkKey oid i) = Some (9 + length oid)"
    using rfind_char_last [of "CHR '':''" "show_word i" "''objchunk:'' @ oid"]
    by (simp add: show_word_def show_nat_no_colon)
  then show ?thesis by (simp add: chunk_owner_def) (simp add: ChunkKey_def)
qed

definition dead_chunk :: "string list \<Rightarrow> string \<Rightarrow> bool" where
  "dead_chunk reachable k \<longleftrightarrow>
     (case chunk_owner k of None \<Rightarrow> False | Some oid \<Rightarrow> oid \<notin> set reachable)"

lemma gc_loop_spec:
  assumes "kv_ready sd" and "distinct ks" and "\<forall>k \<in> set ks. kv_lookup sd k \<noteq> None"
  shows "gc_loop (\<lambda>_. io_ok) reachable ks n sd =
    (n + length (filter (dead_chunk reachable) ks), fold kv_del_ok (filter (dead_chunk reachable) ks) sd)"
  using assms
proof (induction ks arbitrary: n sd)
  case Nil
  then show ?case by simp
next
  case (Cons k ks)
  show ?case
  proof (cases "dead_chunk reachable k")
    case True
    then obtain oid where oid: "chunk_owner k = Some oid" "oid \<notin> set reachable"
      by (auto simp: dead_chunk_def split: option.splits)
    have "kv_del io_ok k sd = (True, kv_del_ok k sd)"
      using kv_del_ready(3) [OF Cons.prems(1), of k] Cons.prems(3)
      by (cases "kv_del io_ok k sd") (simp add: kv_del_ok_def)
    moreover have "\<forall>x \<in> set ks. kv_lookup (kv_del_ok k sd) x \<noteq> None"
      using Cons.prems kv.lookup_del [OF Cons.prems(1), of k] by auto
    ultimately show ?thesis
      using Cons.IH [of "kv_del_ok k sd" "n + 1"] kv.ready_del [OF Cons.prems(1)] Cons.prems(2) True oid
      by simp
  next
    case False
    then show ?thesis using Cons by (auto simp: dead_chunk_def split: option.splits)
  qed
qed

text \<open>The garbage of a store: chunks whose owner is the object id of no committed metadata.\<close>

definition committed_ids :: "kvstore \<Rightarrow> string set" where
  "committed_ids s = {oid. \<exists>mk. starts_with ''objmeta:'' mk \<and> committed_id s mk = Some oid}"

definition garbage :: "kvstore \<Rightarrow> string set" where
  "garbage s = {k. kv_get k s \<noteq> None \<and> starts_with ''objchunk:'' k \<and>
     (\<exists>oid. chunk_owner k = Some oid \<and> oid \<notin> committed_ids s)}"

lemma set_map_filter_iff: "set (List.map_filter f xs) = {y. \<exists>x \<in> set xs. f x = Some y}"
  by (induction xs) (auto split: option.split)

lemma set_reachable: "iter_order ord \<Longrightarrow> set (reachable_object_ids ord s) = committed_ids s"
proof -
  assume ord: "iter_order ord"
  have "kv_get mk s \<noteq> None" if "committed_id s mk = Some oid" for mk oid
    using that by (auto simp: committed_id_def split: option.splits)
  then show ?thesis
    using set_list_keys [OF ord, of "''objmeta:''" s]
    by (auto simp: reachable_object_ids_def committed_ids_def set_map_filter_iff)
qed

lemma gc_result:
  assumes "kv_ready sd" and "distinct (map fst (kv_map (fst sd)))" and "iter_order ord"
    and "GarbageCollectChunks (\<lambda>_. io_ok) ord sd = (n, sd')"
  shows "kv_lookup sd' = kv_lookup sd |` (- garbage (fst sd))" and "n = card (garbage (fst sd))"
proof -
  define ks where "ks = list_keys_with_prefix ord ''objchunk:'' (fst sd)"
  define reach where "reach = reachable_object_ids ord (fst sd)"
  have ks: "distinct ks" "\<forall>k \<in> set ks. kv_lookup sd k \<noteq> None"
    using distinct_list_keys [OF assms(3,2)] set_list_keys [OF assms(3)]
    by (auto simp: ks_def kv_lookup_def)
  have gc: "n = length (filter (dead_chunk reach) ks)"
    "sd' = snd (flush_wal io_ok (fold kv_del_ok (filter (dead_chunk reach) ks) sd))"
    using assms(4) gc_loop_spec [OF assms(1) ks, of reach 0]
    by (auto simp: GarbageCollectChunks_def ks_def reach_def)
  have "set (filter (dead_chunk reach) ks) = garbage (fst sd)"
    using set_list_keys [OF assms(3), of "''objchunk:''" "fst sd"] set_reachable [OF assms(3), of "fst sd"]
    by (auto simp: ks_def garbage_def dead_chunk_def reach_def split: option.splits)
  then show "kv_lookup sd' = kv_lookup sd |` (- garbage (fst sd))" "n = card (garbage (fst sd))"
    using kv.lookup_dels [OF assms(1), of "filter (dead_chunk reach) ks"] ks(1)
    by (simp_all add: gc flush_wal_frame distinct_card [symmetric])
qed

text \<open>
  C15.  Garbage collection is exact.  With a working device \<^verbatim>\<open>GarbageCollectChunks\<close> removes
  exactly the chunk keys whose owner is the object id of no committed metadata, changes no
  other key, and returns their number.
\<close>

theorem gc_exact:
  assumes "kv_ready sd" and "distinct (map fst (kv_map (fst sd)))" and "iter_order ord"
    and "GarbageCollectChunks (\<lambda>_. io_ok) ord sd = (n, sd')"
  shows "kv_lookup sd' = kv_lookup sd |` (- garbage (fst sd)) \<and> n = card (garbage (fst sd))"
  using gc_result [OF assms] by blast

definition orphan_sys :: sys where
  "orphan_sys = (kv_new\<lparr>kv_opened := True, kv_map := [(''objchunk:x:0'', ''data''), (''a'', ''b'')],
     kv_wal := wal_new\<lparr>wal_fd := Some (''w'', 0)\<rparr>\<rparr>, [''w'' \<mapsto> empty_file])"

lemma orphan_garbage: "garbage (fst orphan_sys) = {''objchunk:x:0''}"
proof -
  have "committed_ids (fst orphan_sys) = {}"
    by (auto simp: committed_ids_def committed_id_def orphan_sys_def kv_get_def starts_with_def
        split: option.splits if_splits)
  moreover have "chunk_owner ''objchunk:x:0'' = Some ''x''"
    by (simp add: chunk_owner_def rfind_char_def)
  ultimately show ?thesis
    by (auto simp: garbage_def orphan_sys_def kv_get_def starts_with_def split: if_splits)
qed

theorem gc_exact_witness:
  "fst (GarbageCollectChunks (\<lambda>_. io_ok) rev orphan_sys) = 1 \<and>
   kv_lookup (snd (GarbageCollectChunks (\<lambda>_. io_ok) rev orphan_sys)) = [''a'' \<mapsto> ''b'']"
proof -
  obtain n sd' where g: "GarbageCollectChunks (\<lambda>_. io_ok) rev orphan_sys = (n, sd')"
    by (cases "GarbageCollectChunks (\<lambda>_. io_ok) rev orphan_sys")
  have "kv_ready orphan_sys" "distinct (map fst (kv_map (fst orphan_sys)))" "iter_order rev"
    by (simp_all add: orphan_sys_def kv_ready_def iter_order_def)
  from gc_exact [OF this g] have "kv_lookup sd' = kv_lookup orphan_sys |` (- {''objchunk:x:0''})" "n = 1"
    by (simp_all add: orphan_garbage)
  moreover have "kv_lookup orphan_sys |` (- {''objchunk:x:0''}) = [''a'' \<mapsto> ''b'']"
    by (auto simp: kv_lookup_def kv_get_def orphan_sys_def restrict_map_def)
  ultimately show ?thesis by (simp add: g)
qed

text \<open>Whatever the device does, a key that is not garbage keeps its value.\<close>

lemma gc_loop_frame:
  assumes "kv_ready sd" and "x \<notin> set (filter (dead_chunk reachable) ks)"
  shows "kv_lookup (snd (gc_loop ios reachable ks n sd)) x = kv_lookup sd x"
  using assms
proof (induction ks arbitrary: ios n sd)
  case Nil
  then show ?case by simp
next
  case (Cons k ks)
  show ?case
  proof (cases "dead_chunk reachable k")
    case True
    then obtain oid where oid: "chunk_owner k = Some oid" "oid \<notin> set reachable"
      by (auto simp: dead_chunk_def split: option.splits)
    obtain erased sd1 where del: "kv_del (ios 0) k sd = (erased, sd1)" by (cases "kv_del (ios 0) k sd")
    have "kv_ready sd1" "kv_lookup sd1 x = kv_lookup sd x"
      using kv_del_frame(1) [OF Cons.prems(1), of "ios 0" k] kv_del_frame(2) [OF Cons.prems(1), of x k "ios 0"]
        del Cons.prems(2) True by auto
    with Cons.IH [of sd1] Cons.prems(2) del oid True show ?thesis by simp
  next
    case False
    then show ?thesis using Cons by (auto simp: dead_chunk_def split: option.splits)
  qed
qed

lemma gc_frame:
  assumes "kv_ready sd" and "iter_order ord" and "GarbageCollectChunks ios ord sd = (n, sd')"
    and "x \<notin> garbage (fst sd)"
  shows "kv_get x (fst sd') = kv_get x (fst sd)"
proof -
  let ?reach = "reachable_object_ids ord (fst sd)" and ?ks = "list_keys_with_prefix ord ''objchunk:'' (fst sd)"
  have "x \<notin> set (filter (dead_chunk ?reach) ?ks)"
    using assms(4) set_list_keys [OF assms(2), of "''objchunk:''" "fst sd"] set_reachable [OF assms(2), of "fst sd"]
    by (auto simp: garbage_def dead_chunk_def split: option.splits)
  from gc_loop_frame [OF assms(1) this, of ios 0] assms(3)
  have "kv_lookup sd' x = kv_lookup sd x"
    by (auto simp: GarbageCollectChunks_def Let_def flush_wal_frame(2) split: prod.splits)
  then show ?thesis by (simp add: kv_lookup_def)
qed

text \<open>
  C7.  Garbage collection is safe.  Whatever the system calls do, what \<^verbatim>\<open>GetObject\<close> returns for an
  object whose stored metadata is committed is the same before and after, data included.
\<close>

theorem gc_keeps_objects:
  assumes "kv_ready sd" and "iter_order ord"
    and "GarbageCollectChunks ios ord sd = (n, sd')"
    and "stored_meta (fst sd) b k = Some meta" and "md_state meta = Committed"
  shows "GetObject b k (fst sd') = GetObject b k (fst sd)"
proof -
  note keep = gc_frame [OF assms(1-3)]
  have "committed_id (fst sd) (ObjectMetaKey b k) = Some (md_object_id meta)"
    using assms(4,5) by (auto simp: committed_id_def stored_meta_def bind_eq_Some_conv)
  moreover have "starts_with ''objmeta:'' (ObjectMetaKey b k)"
    by (simp add: starts_with_def ObjectMetaKey_def)
  ultimately have "md_object_id meta \<in> committed_ids (fst sd)"
    unfolding committed_ids_def by blast
  then have chunk: "ChunkKey (md_object_id meta) i \<notin> garbage (fst sd)" for i
    by (auto simp: garbage_def chunk_owner_key split: if_splits)
  have meta: "ObjectMetaKey b k \<notin> garbage (fst sd)"
    by (simp add: garbage_def starts_with_def ObjectMetaKey_def)
  show ?thesis
    using assms(4) by (intro GetObject_cong) (auto simp: keep chunk meta)
qed

theorem gc_keeps_objects_witness:
  "GetObject ''b'' ''k'' (fst (snd (GarbageCollectChunks late_io rev object_sys))) = GetObject ''b'' ''k'' (fst object_sys)"
proof -
  obtain n sd' where g: "GarbageCollectChunks late_io rev object_sys = (n, sd')"
    by (cases "GarbageCollectChunks late_io rev object_sys")
  have "iter_order rev" by (simp add: iter_order_def)
  from gc_keeps_objects [OF object_sys_meta(1) this g object_sys_meta(2)] g show ?thesis
    by (simp add: put_metadata_def)
qed

text \<open>
  Garbage collection is complete.  After it no chunk is left of an object that no
  committed metadata refers to: an overwritten, deleted or never committed one.
\<close>

theorem gc_reclaims:
  assumes "kv_ready sd" and "distinct (map fst (kv_map (fst sd)))" and "iter_order ord"
    and "GarbageCollectChunks (\<lambda>_. io_ok) ord sd = (n, sd')"
    and "oid \<noteq> []" and "oid \<notin> committed_ids (fst sd)"
  shows "kv_get (ChunkKey oid i) (fst sd') = None"
proof (cases "ChunkKey oid i \<in> garbage (fst sd)")
  case True
  with fun_cong [OF gc_result(1) [OF assms(1-4)], of "ChunkKey oid i"] show ?thesis
    by (simp add: kv_lookup_def)
next
  case False
  with assms(5,6) have "kv_get (ChunkKey oid i) (fst sd) = None"
    by (simp add: garbage_def chunk_owner_key) (simp add: starts_with_def ChunkKey_def)
  with fun_cong [OF gc_result(1) [OF assms(1-4)], of "ChunkKey oid i"] show ?thesis
    by (simp add: kv_lookup_def restrict_map_def split: if_splits)
qed

theorem gc_reclaims_witness:
  "kv_get (ChunkKey ''x'' 0) (fst (snd (GarbageCollectChunks (\<lambda>_. io_ok) rev orphan_sys))) = None"
proof -
  obtain n sd' where g: "GarbageCollectChunks (\<lambda>_. io_ok) rev orphan_sys = (n, sd')"
    by (cases "GarbageCollectChunks (\<lambda>_. io_ok) rev orphan_sys")
  have "kv_ready orphan_sys" "distinct (map fst (kv_map (fst orphan_sys)))" "iter_order rev"
    by (simp_all add: orphan_sys_def kv_ready_def iter_order_def)
  moreover have "''x'' \<notin> committed_ids (fst orphan_sys)"
    by (auto simp: committed_ids_def committed_id_def orphan_sys_def kv_get_def starts_with_def
        split: option.splits if_splits)
  ultimately show ?thesis using gc_reclaims [OF _ _ _ g] g by simp
qed

end
