(* ===== verification/Kv_Power_Cut.thy ===== *)
theory Kv_Power_Cut
  imports Kv_Durability
begin

text \<open>
  A power cut in the middle of a sequence of puts.  Every put has its own outcomes of the system
  calls.  Before the cut a flush works or fails without writing a byte; the flush that the cut
  interrupts may do anything, and after it nothing reaches the disk.  At every point the file
  holds durable records and perhaps a torn prefix of the buffered ones.
\<close>

subsection \<open>Outcomes around a power cut\<close>

definition writes_nothing :: "io \<Rightarrow> bool" where
  "writes_nothing io \<longleftrightarrow> (case io_writes io of [] \<Rightarrow> False | r # rs \<Rightarrow> r = WFail \<or> r = WIntr)"

definition power_cut :: "nat \<Rightarrow> (nat \<Rightarrow> io) \<Rightarrow> bool" where
  "power_cut n ios \<longleftrightarrow>
     (\<forall>i < n. ios i = io_ok \<or> writes_nothing (ios i)) \<and> (\<forall>i > n. writes_nothing (ios i))"

subsection \<open>The log around a power cut\<close>

text \<open>
  \<open>log_whole p rs0 cs D sd\<close>: the log on \<open>p\<close> is intact, the records of file and buffer are those of the
  commands \<open>cs\<close>, at least \<open>rs0\<close> is durable, and every other file is that of \<open>D\<close>.
  \<open>log_cut\<close>: the same, but a failed flush has left a prefix of the buffered records in the file.
\<close>

definition log_whole :: "string \<Rightarrow> wal_rec list \<Rightarrow> kv_cmd list \<Rightarrow> disk \<Rightarrow> sys \<Rightarrow> bool" where
  "log_whole p rs0 cs D sd \<longleftrightarrow> kv_opened (fst sd) \<and> (\<forall>p'. p' \<noteq> p \<longrightarrow> snd sd p' = D p') \<and>
     (\<exists>rs bs. wal_rep p rs bs (kv_wal (fst sd)) (snd sd) \<and> prefix rs0 rs \<and> map rec_cmd (rs @ bs) = cs)"

definition log_cut :: "string \<Rightarrow> wal_rec list \<Rightarrow> kv_cmd list \<Rightarrow> disk \<Rightarrow> sys \<Rightarrow> bool" where
  "log_cut p rs0 cs D sd \<longleftrightarrow> kv_opened (fst sd) \<and> (\<forall>p'. p' \<noteq> p \<longrightarrow> snd sd p' = D p') \<and>
     (\<exists>rs bs part f. wal_torn p rs part (snd sd) \<and> prefix part bs \<and> bs \<noteq> [] \<and> prefix rs0 rs \<and>
        map rec_cmd (rs @ bs) = cs \<and> (\<forall>r \<in> set (rs @ bs). wf_rec r) \<and>
        wal_fd (kv_wal (fst sd)) = Some (p, length (content f)) \<and> snd sd p = Some f \<and>
        synced f \<le> length (content f) \<and> wal_buffer (kv_wal (fst sd)) = map rec_image bs)"

lemma log_wholeI:
  assumes "kv_opened s" and "\<forall>p'. p' \<noteq> p \<longrightarrow> d p' = D p'"
    and "wal_rep p rs bs (kv_wal s) d" and "prefix rs0 rs" and "map rec_cmd (rs @ bs) = cs"
  shows "log_whole p rs0 cs D (s, d)"
  using assms unfolding log_whole_def fst_conv snd_conv by blast

lemma log_wholeE:
  assumes "log_whole p rs0 cs D (s, d)"
  obtains rs bs where "wal_rep p rs bs (kv_wal s) d" and "kv_opened s"
    and "\<forall>p'. p' \<noteq> p \<longrightarrow> d p' = D p'" and "prefix rs0 rs" and "map rec_cmd (rs @ bs) = cs"
  using assms unfolding log_whole_def fst_conv snd_conv by blast

lemma log_cutI:
  assumes "kv_opened s" and "\<forall>p'. p' \<noteq> p \<longrightarrow> d p' = D p'" and "wal_torn p rs part d" and "prefix part bs"
    and "bs \<noteq> []" and "prefix rs0 rs" and "map rec_cmd (rs @ bs) = cs" and "\<forall>r \<in> set (rs @ bs). wf_rec r"
    and "wal_fd (kv_wal s) = Some (p, length (content f))" and "d p = Some f"
    and "synced f \<le> length (content f)" and "wal_buffer (kv_wal s) = map rec_image bs"
  shows "log_cut p rs0 cs D (s, d)"
  using assms unfolding log_cut_def fst_conv snd_conv by blast

lemma rec_image_nonempty: "rec_image r \<noteq> []"
  by (cases r) (simp_all flip: length_greater_0_conv add: length_record_image)

lemma write_recs_nothing:
  "writes_nothing io \<Longrightarrow> bs \<noteq> [] \<Longrightarrow> write_recs (io_writes io) (map rec_image bs) = ([], False)"
  using rec_image_nonempty [of "hd bs"]
  by (cases bs; cases "rec_image (hd bs)") (auto simp: writes_nothing_def split: list.splits)

lemma flush_nothing:
  assumes "wal_fd w = Some (p, length (content f))" and "d p = Some f" and "synced f \<le> length (content f)"
    and "wal_buffer w = map rec_image bs" and "writes_nothing io"
  shows "wal_flush io w d = (bs = [], w, d)"
proof (cases "bs = []")
  case True
  with assms show ?thesis by (simp add: wal_flush_def)
next
  case False
  have "write_at (length (content f)) [] f = f" using assms(3) by (simp add: write_at_def min_def)
  then have "d(p \<mapsto> write_at (length (content f)) [] f) = d" using assms(2) by (simp add: fun_upd_idem)
  with False assms write_recs_nothing [OF assms(5) False] show ?thesis
    by (simp add: wal_flush_def)
qed

lemma wal_rep_nothing:
  assumes "wal_rep p rs bs w d" and "writes_nothing io"
  shows "wal_flush io w d = (bs = [], w, d)"
proof -
  from assms(1) have "wal_fd w = Some (p, length (content (log_file rs)))" "d p = Some (log_file rs)"
    "synced (log_file rs) \<le> length (content (log_file rs))" "wal_buffer w = map rec_image bs"
    by (simp_all add: wal_rep_def)
  then show ?thesis using assms(2) by (rule flush_nothing [of w p _ d bs io])
qed

subsection \<open>Flushes\<close>

lemma whole_flush_clean:
  assumes "log_whole p rs0 cs D sd" and "io = io_ok \<or> writes_nothing io"
  shows "log_whole p rs0 cs D (snd (flush_wal io sd))"
proof -
  obtain s d where sd: "sd = (s, d)" by (cases sd)
  from assms(1) obtain rs bs where rep: "wal_rep p rs bs (kv_wal s) d" and h: "kv_opened s"
    "\<forall>p'. p' \<noteq> p \<longrightarrow> d p' = D p'" "prefix rs0 rs" "map rec_cmd (rs @ bs) = cs"
    by (auto simp: log_whole_def sd)
  from assms(2) show ?thesis
  proof
    assume io: "io = io_ok"
    from rep obtain w' d' where f: "wal_flush io_ok (kv_wal s) d = (True, w', d')"
      "wal_rep p (rs @ bs) [] w' d'" "\<forall>p'. p' \<noteq> p \<longrightarrow> d' p' = d p'" by (rule wal_rep_flush_ok)
    have "log_whole p rs0 cs D (s\<lparr>kv_wal := w'\<rparr>, d')"
      by (rule log_wholeI [of _ p d' D "rs @ bs" "[]"]) (use h f in simp_all)
    with f(1) show ?thesis by (simp add: flush_wal_def sd io)
  next
    assume "writes_nothing io"
    from wal_rep_nothing [OF rep this] assms(1) show ?thesis
      by (simp add: flush_wal_def sd log_whole_def)
  qed
qed

lemma whole_flush_any:
  assumes "log_whole p rs0 cs D sd"
  shows "log_whole p rs0 cs D (snd (flush_wal io sd)) \<or> log_cut p rs0 cs D (snd (flush_wal io sd))"
proof -
  obtain s d where sd: "sd = (s, d)" by (cases sd)
  from assms obtain rs bs where rep: "wal_rep p rs bs (kv_wal s) d" and h: "kv_opened s"
    "\<forall>p'. p' \<noteq> p \<longrightarrow> d p' = D p'" "prefix rs0 rs" "map rec_cmd (rs @ bs) = cs"
    by (auto simp: log_whole_def sd)
  obtain ok w' d' where f: "wal_flush io (kv_wal s) d = (ok, w', d')" by (cases "wal_flush io (kv_wal s) d")
  have fl: "snd (flush_wal io sd) = (s\<lparr>kv_wal := w'\<rparr>, d')" by (simp add: flush_wal_def sd f)
  note torn = wal_rep_flush_torn [OF rep f]
  show ?thesis
  proof (cases "bs = []")
    case True
    with rep f have "w' = kv_wal s" "d' = d" by (auto simp: wal_flush_def wal_rep_def)
    with fl have "snd (flush_wal io sd) = sd" by (simp add: sd)
    with assms show ?thesis by simp
  next
    case False
    from rep have p: "wal_fd (kv_wal s) = Some (p, length (content (log_file rs)))" "d p = Some (log_file rs)"
      and b: "wal_buffer (kv_wal s) = map rec_image bs" and wf: "\<forall>r \<in> set (rs @ bs). wf_rec r"
      by (simp_all add: wal_rep_def)
    from flush_result [OF p _ _ f] b False obtain q f' where
      d': "d' = d(p \<mapsto> f')" "content f' = log_image rs @ q" "wal_fd w' = Some (p, length (content f'))" and
      ok: "if ok then q = concat (map rec_image bs) \<and> synced f' = length (content f') \<and> wal_buffer w' = []
        else synced f' = length (log_image rs) \<and> wal_buffer w' = map rec_image bs"
      by auto
    show ?thesis
    proof (cases ok)
      case True
      with ok have q: "q = log_image bs" "synced f' = length (content f')" "wal_buffer w' = []"
        by (simp_all add: log_image_def)
      then have "f' = log_file (rs @ bs)" using d'(2) by (cases f') simp
      then have "wal_rep p (rs @ bs) [] w' d'" using d' q wf by (simp add: wal_rep_def)
      then have "log_whole p rs0 cs D (s\<lparr>kv_wal := w'\<rparr>, d')"
        by (intro log_wholeI [of _ p d' D "rs @ bs" "[]"]) (use h torn in simp_all)
      then show ?thesis unfolding fl ..
    next
      case False
      with ok have "synced f' \<le> length (content f')" "wal_buffer w' = map rec_image bs" using d'(2) by simp_all
      moreover have "d' p = Some f'" using d'(1) by simp
      moreover have "\<forall>p'. p' \<noteq> p \<longrightarrow> d' p' = D p'" using torn h(2) by simp
      ultimately have "log_cut p rs0 cs D (s\<lparr>kv_wal := w'\<rparr>, d')"
        using torn h d'(3) wf \<open>bs \<noteq> []\<close> by (intro log_cutI [of _ p d' D rs bs bs _ _ f']) simp_all
      then show ?thesis unfolding fl ..
    qed
  qed
qed

lemma cut_flush:
  assumes "log_cut p rs0 cs D sd" and "writes_nothing io"
  shows "flush_wal io sd = (False, sd)"
proof -
  obtain s d where sd: "sd = (s, d)" by (cases sd)
  from assms(1) obtain bs f where "wal_fd (kv_wal s) = Some (p, length (content f))" "d p = Some f"
    "synced f \<le> length (content f)" "wal_buffer (kv_wal s) = map rec_image bs" "bs \<noteq> []"
    by (auto simp: log_cut_def sd)
  with flush_nothing [of "kv_wal s" p f d bs io] assms(2) show ?thesis by (simp add: flush_wal_def sd)
qed

subsection \<open>Puts\<close>

text \<open>A put buffers its record and flushes if the group is full.\<close>

lemma kv_put_steps:
  assumes "kv_opened s" and "wal_fd (kv_wal s) \<noteq> None"
  obtains s1 where "kv_opened s1"
    and "kv_wal s1 = (kv_wal s)\<lparr>wal_buffer := wal_buffer (kv_wal s) @ [rec_image (RPut (kv_seq s + 1) k v)]\<rparr>"
    and "kv_put io k v (s, d) =
      (if commit_due (kv_seq s + 1) (kv_group s) then snd (flush_wal io (s1, d)) else (s1, d))"
  using assms that [of "s\<lparr>kv_seq := kv_seq s + 1,
      kv_wal := (kv_wal s)\<lparr>wal_buffer := wal_buffer (kv_wal s) @ [rec_image (RPut (kv_seq s + 1) k v)]\<rparr>,
      kv_map := AList.update k v (kv_map s)\<rparr>"]
  by (auto simp: kv_put_def append_put_def write_record_def Let_def)

lemma whole_put:
  assumes "log_whole p rs0 cs D sd" and "wf_cmd (CPut k v)"
  obtains sd1 where "log_whole p rs0 (cs @ [CPut k v]) D sd1"
    and "kv_put io k v sd = sd1 \<or> kv_put io k v sd = snd (flush_wal io sd1)"
proof -
  obtain s d where sd: "sd = (s, d)" by (cases sd)
  from assms(1) [unfolded sd] obtain rs bs where rep: "wal_rep p rs bs (kv_wal s) d" and h: "kv_opened s"
    "\<forall>p'. p' \<noteq> p \<longrightarrow> d p' = D p'" "prefix rs0 rs" "map rec_cmd (rs @ bs) = cs"
    by (rule log_wholeE)
  from rep have "wal_fd (kv_wal s) \<noteq> None" by (simp add: wal_rep_def)
  from kv_put_steps [OF h(1) this, of k v io d] obtain s1 where s1: "kv_opened s1"
    "kv_wal s1 = (kv_wal s)\<lparr>wal_buffer := wal_buffer (kv_wal s) @ [rec_image (RPut (kv_seq s + 1) k v)]\<rparr>" and
    put: "kv_put io k v (s, d) =
      (if commit_due (kv_seq s + 1) (kv_group s) then snd (flush_wal io (s1, d)) else (s1, d))" .
  have "log_whole p rs0 (cs @ [CPut k v]) D (s1, d)"
  proof (rule log_wholeI [of s1 p d D rs "bs @ [RPut (kv_seq s + 1) k v]"])
    show "wal_rep p rs (bs @ [RPut (kv_seq s + 1) k v]) (kv_wal s1) d"
      using rep assms(2) by (auto simp: wal_rep_def s1(2))
  qed (use h s1(1) in simp_all)
  then show ?thesis by (rule that) (simp add: put sd)
qed

lemma cut_put:
  assumes "log_cut p rs0 cs D sd" and "wf_cmd (CPut k v)" and "writes_nothing io"
  shows "log_cut p rs0 (cs @ [CPut k v]) D (kv_put io k v sd)"
proof -
  obtain s d where sd: "sd = (s, d)" by (cases sd)
  from assms(1) obtain rs bs part f where h: "kv_opened s" "\<forall>p'. p' \<noteq> p \<longrightarrow> d p' = D p'"
    "wal_torn p rs part d" "prefix part bs" "bs \<noteq> []" "prefix rs0 rs" "map rec_cmd (rs @ bs) = cs"
    "\<forall>r \<in> set (rs @ bs). wf_rec r" "wal_fd (kv_wal s) = Some (p, length (content f))" "d p = Some f"
    "synced f \<le> length (content f)" "wal_buffer (kv_wal s) = map rec_image bs"
    unfolding log_cut_def sd fst_conv snd_conv by blast
  let ?r = "RPut (kv_seq s + 1) k v"
  from h(9) have "wal_fd (kv_wal s) \<noteq> None" by simp
  from kv_put_steps [OF h(1) this, of k v io d] obtain s1 where s1: "kv_opened s1"
    "kv_wal s1 = (kv_wal s)\<lparr>wal_buffer := wal_buffer (kv_wal s) @ [rec_image ?r]\<rparr>" and
    put: "kv_put io k v (s, d) =
      (if commit_due (kv_seq s + 1) (kv_group s) then snd (flush_wal io (s1, d)) else (s1, d))" .
  have cut: "log_cut p rs0 (cs @ [CPut k v]) D (s1, d)"
  proof (rule log_cutI [of s1 p d D rs part "bs @ [?r]" _ _ f])
    show "\<forall>r \<in> set (rs @ bs @ [?r]). wf_rec r" using h(8) assms(2) by auto
  qed (use h s1 in \<open>simp_all add: prefix_append\<close>)
  then show ?thesis using cut_flush [OF cut assms(3)] by (simp add: put sd)
qed

subsection \<open>A sequence of puts around a power cut\<close>

lemma whole_puts_clean:
  assumes "log_whole p rs0 cs D sd" and "list_all (\<lambda>(io, k, v). wf_cmd (CPut k v)) xs"
    and "list_all (\<lambda>(io, k, v). io = io_ok \<or> writes_nothing io) xs"
  shows "log_whole p rs0 (cs @ map (\<lambda>(io, k, v). CPut k v) xs) D (put_all xs sd)"
  using assms
proof (induction xs arbitrary: cs sd)
  case Nil
  then show ?case by simp
next
  case (Cons x xs)
  obtain io k v where x: "x = (io, k, v)" by (cases x)
  from Cons.prems(2) have "wf_cmd (CPut k v)" by (simp add: x)
  with Cons.prems(1) obtain sd1 where sd1: "log_whole p rs0 (cs @ [CPut k v]) D sd1"
    "kv_put io k v sd = sd1 \<or> kv_put io k v sd = snd (flush_wal io sd1)"
    by (rule whole_put)
  moreover from Cons.prems(3) have "io = io_ok \<or> writes_nothing io" by (simp add: x)
  ultimately have "log_whole p rs0 (cs @ [CPut k v]) D (kv_put io k v sd)"
    using whole_flush_clean by metis
  from Cons.IH [OF this] Cons.prems(2,3) show ?case by (simp add: x)
qed

lemma cut_puts:
  assumes "log_cut p rs0 cs D sd" and "list_all (\<lambda>(io, k, v). wf_cmd (CPut k v)) xs"
    and "list_all (\<lambda>(io, k, v). writes_nothing io) xs"
  shows "log_cut p rs0 (cs @ map (\<lambda>(io, k, v). CPut k v) xs) D (put_all xs sd)"
  using assms
proof (induction xs arbitrary: cs sd)
  case (Cons x xs)
  obtain io k v where x: "x = (io, k, v)" by (cases x)
  from Cons.prems have "log_cut p rs0 (cs @ [CPut k v]) D (kv_put io k v sd)"
    by (intro cut_put) (simp_all add: x)
  from Cons.IH [OF this] Cons.prems(2,3) show ?case by (simp add: x)
qed simp

text \<open>The puts of an operation that a power cut interrupts in its \<open>n\<close>-th call, or later.\<close>

lemma puts_power_cut:
  assumes "log_whole p rs0 cs D sd" and "list_all (\<lambda>(k, v). wf_cmd (CPut k v)) kvs" and "power_cut n ios"
  defines "xs \<equiv> zip (map ios [0..<length kvs]) kvs"
  defines "cs' \<equiv> cs @ map (\<lambda>(k, v). CPut k v) kvs"
  shows "log_whole p rs0 cs' D (put_all xs sd) \<or> n < length kvs \<and> log_cut p rs0 cs' D (put_all xs sd)"
proof -
  have fst: "fst (xs ! i) = ios i" "snd (xs ! i) = kvs ! i" if "i < length xs" for i
    using that by (simp_all add: xs_def)
  have len: "length xs = length kvs" and snd: "map snd xs = kvs" by (simp_all add: xs_def)
  have cs': "cs' = cs @ map (\<lambda>(io, k, v). CPut k v) xs"
    using arg_cong [OF snd, of "map (\<lambda>(k, v). CPut k v)"] by (simp add: cs'_def comp_def case_prod_unfold)
  have wf: "list_all (\<lambda>(io, k, v). wf_cmd (CPut k v)) xs"
    using assms(2) unfolding snd [symmetric] by (simp add: list_all_iff case_prod_beta)
  have before: "list_all (\<lambda>(io, k, v). io = io_ok \<or> writes_nothing io) (take n xs)"
    and after: "list_all (\<lambda>(io, k, v). writes_nothing io) (drop (Suc n) xs)"
    using assms(3) fst by (auto simp: list_all_length power_cut_def case_prod_beta)
  show ?thesis
  proof (cases "n < length kvs")
    case False
    with before len have "list_all (\<lambda>(io, k, v). io = io_ok \<or> writes_nothing io) xs" by simp
    from whole_puts_clean [OF assms(1) wf this] show ?thesis by (simp add: cs')
  next
    case True
    define a b where "a = take n xs" and "b = drop (Suc n) xs"
    obtain io k v where x: "xs ! n = (io, k, v)" by (cases "xs ! n")
    have xs: "xs = a @ (io, k, v) # b"
      using id_take_nth_drop [of n xs] True len x by (simp add: a_def b_def)
    let ?c = "cs @ map (\<lambda>(io, k, v). CPut k v) a"
    from wf have w: "list_all (\<lambda>(io, k, v). wf_cmd (CPut k v)) a" "wf_cmd (CPut k v)"
      "list_all (\<lambda>(io, k, v). wf_cmd (CPut k v)) b" by (simp_all add: xs)
    from whole_puts_clean [OF assms(1) w(1)] before have "log_whole p rs0 ?c D (put_all a sd)"
      by (simp add: a_def)
    then obtain sd1 where sd1: "log_whole p rs0 (?c @ [CPut k v]) D sd1"
      "kv_put io k v (put_all a sd) = sd1 \<or> kv_put io k v (put_all a sd) = snd (flush_wal io sd1)"
      using w(2) by (rule whole_put)
    define sd2 where "sd2 = kv_put io k v (put_all a sd)"
    from sd1(2) whole_flush_any [OF sd1(1), of io] sd1(1)
    have step: "log_whole p rs0 (?c @ [CPut k v]) D sd2 \<or> log_cut p rs0 (?c @ [CPut k v]) D sd2"
      unfolding sd2_def by auto
    have b: "list_all (\<lambda>(io, k, v). io = io_ok \<or> writes_nothing io) b"
      using after by (auto simp: b_def list_all_iff)
    have eq: "cs' = (?c @ [CPut k v]) @ map (\<lambda>(io, k, v). CPut k v) b" "put_all xs sd = put_all b sd2"
      by (simp_all add: xs cs' sd2_def)
    from step show ?thesis
    proof
      assume "log_whole p rs0 (?c @ [CPut k v]) D sd2"
      from whole_puts_clean [OF this w(3) b] show ?thesis unfolding eq ..
    next
      assume "log_cut p rs0 (?c @ [CPut k v]) D sd2"
      from cut_puts [OF this w(3)] after True show ?thesis unfolding eq b_def by blast
    qed
  qed
qed

subsection \<open>What the next start finds\<close>

lemma cut_recover:
  assumes "log_whole p rs0 cs D sd \<or> log_cut p rs0 cs D sd" and "crash_disk (snd sd) d1"
    and "p \<noteq> kv_snapshot" and "stable D kv_snapshot"
  shows "\<exists>s1 m. kv_open io_ok p (kv_new, d1) = (True, (s1, d1)) \<and> length rs0 \<le> m \<and>
    map_of (kv_map s1) = fold cmd_upd (take m cs) (map_of (snap_map D)) \<and>
    (log_whole p rs0 cs D sd \<and> all_flushed sd \<longrightarrow> m = length cs)"
proof -
  from assms(1) obtain rs bs part where torn: "wal_torn p rs part (snd sd)" and part: "prefix part bs"
    and rs: "prefix rs0 rs" "map rec_cmd (rs @ bs) = cs" "\<forall>r \<in> set (rs @ bs). wf_rec r"
    and snap: "snd sd kv_snapshot = D kv_snapshot"
    and fl: "log_whole p rs0 cs D sd \<and> all_flushed sd \<Longrightarrow> part = bs \<and> bs = []"
  proof
    assume w: "log_whole p rs0 cs D sd"
    then obtain rs bs where rep: "wal_rep p rs bs (kv_wal (fst sd)) (snd sd)" and o: "prefix rs0 rs"
      "map rec_cmd (rs @ bs) = cs" "snd sd kv_snapshot = D kv_snapshot"
      using assms(3) by (auto simp: log_whole_def)
    with wal_rep_torn [OF rep] show ?thesis
      by (intro that [of rs bs bs]) (auto simp: wal_rep_def all_flushed_def)
  next
    assume c: "log_cut p rs0 cs D sd"
    moreover have "\<not> (log_whole p rs0 cs D sd \<and> all_flushed sd)"
      using c by (auto simp: log_cut_def all_flushed_def)
    ultimately show ?thesis using that assms(3) by (auto simp: log_cut_def)
  qed
  from part obtain z where z: "bs = part @ z" by (auto simp: prefix_def)
  have "\<forall>r \<in> set (rs @ part). wf_rec r" using rs(3) by (auto simp: z)
  from wal_torn_recover [OF torn this assms(2)] obtain f j where
    f: "d1 p = Some f" "fst (decode_all read_record (content f)) = rs @ take j part" by blast
  define m where "m = length rs + min j (length part)"
  have m: "map rec_cmd (rs @ take j part) = take m cs"
    unfolding rs(2) [symmetric] by (simp add: m_def z min_def take_map)
  have "snap_map d1 = snap_map (snd sd)"
    using assms(4) snap by (intro snap_map_crash [OF assms(2)]) (simp add: stable_def)
  also have "\<dots> = snap_map D" using snap by (simp add: snap_map_def)
  finally have "map_of (fold apply_rec (rs @ take j part) (snap_map d1)) =
      fold cmd_upd (take m cs) (map_of (snap_map D))"
    by (simp only: map_of_fold_apply_rec m)
  moreover have "length rs0 \<le> m" using prefix_length_le [OF rs(1)] by (simp add: m_def)
  moreover have "m = length cs" if "log_whole p rs0 cs D sd \<and> all_flushed sd"
    using fl [OF that] arg_cong [OF rs(2), of length] by (simp add: m_def)
  ultimately show ?thesis using kv_open_ok [where d = d1 and p = p, OF f(1)] f(2) by auto
qed

end
