(* ===== verification/Object_Crash.thy ===== *)
theory Object_Crash
  imports Object_Gc Kv_Power_Cut
begin

text \<open>
  The commit point of \<^verbatim>\<open>PutObject\<close>.  The operation is a sequence of commands of the storage
  engine, chunks first, then the metadata, then the index entry, then a flush; so crash
  recovery of the engine decides what a crash in the middle of it leaves.
\<close>

definition put_cmds :: "(string \<Rightarrow> u64) \<Rightarrow> u64 \<Rightarrow> u64 \<Rightarrow> u32 \<Rightarrow> PutObjectRequest \<Rightarrow> kv_cmd list" where
  "put_cmds hash t1 t2 cs req = map (\<lambda>(k, v). CPut k v) (put_pairs hash t1 t2 cs req) @ [CFlush]"

lemma PutObject_cmds:
  assumes "put_guard req (fst sd)"
  shows "snd (PutObject (\<lambda>_. io_ok) hash t1 t2 cs req sd) = kv_run io_ok (put_cmds hash t1 t2 cs req) sd"
proof -
  have "put_all (with_io (\<lambda>_. io_ok) kvs) sd = kv_run io_ok (map (\<lambda>(k, v). CPut k v) kvs) sd" for kvs sd
    by (induction kvs arbitrary: sd rule: rev_induct) (auto simp: with_io_def zip_append split: prod.split)
  then show ?thesis by (simp add: PutObject_state [OF assms] put_cmds_def)
qed

lemma fold_cmd_upd_puts:
  "fold cmd_upd (map (\<lambda>(k, v). CPut k v) kvs) m = m ++ map_of (rev kvs)"
proof (induction kvs arbitrary: m)
  case (Cons kv kvs)
  then show ?case by (cases kv) (simp add: map_add_def fun_eq_iff split: option.split)
qed simp

text \<open>The two possible outcomes of writing a prefix of the pairs of a request onto a map.\<close>

lemma put_prefix_outcome:
  fixes hash t1 t2 cs req
  defines "meta \<equiv> put_metadata hash t1 t2 cs req" and "ps \<equiv> put_pairs hash t1 t2 cs req"
  assumes s1: "map_of (kv_map s1) = map_of (kv_map s) ++ map_of (rev (take n ps))" and "req_ok cs req"
  shows "GetObject (rq_bucket req) (rq_key req) s1 =
      \<lparr>gr_found = True, gr_error = [], gr_metadata = meta, gr_data = rq_data req\<rparr> \<or>
    n < length ps \<and> (\<forall>b k. stored_meta s1 b k = stored_meta s b k \<and>
       (map_option md_object_id (stored_meta s b k) = Some (md_object_id meta) \<or>
        GetObject b k s1 = GetObject b k s))"
proof -
  define cp where "cp = chunk_pairs (md_object_id meta) cs (rq_data req) (md_chunk_count meta)"
  have ps: "ps = cp @ [(ObjectMetaKey (rq_bucket req) (rq_key req), serialize_metadata meta),
      (BucketIndexKey (rq_bucket req) (rq_key req), md_object_id meta)]"
    by (simp add: ps_def put_pairs_def Let_def cp_def meta_def)
  show ?thesis
  proof (cases "n \<le> length cp")
    case True
    then have take: "take n ps = take n cp" by (simp add: ps)
    have keep: "kv_get x s1 = kv_get x s" if "\<forall>i. x \<noteq> ChunkKey (md_object_id meta) i" for x
    proof -
      have "x \<notin> fst ` set (take n cp)"
        using that chunk_pairs_fst [of x "md_object_id meta" cs "rq_data req" "md_chunk_count meta"]
          set_take_subset [of n cp] unfolding cp_def [symmetric] by blast
      then have "map_of (rev (take n cp)) x = None" by (simp add: map_of_eq_None_iff)
      with s1 take show ?thesis by (simp add: kv_get_def map_add_def)
    qed
    have "stored_meta s1 b k = stored_meta s b k" for b k
      by (simp add: stored_meta_def keep)
    moreover have "GetObject b k s1 = GetObject b k s"
      if "map_option md_object_id (stored_meta s b k) \<noteq> Some (md_object_id meta)" for b k
      using that by (intro GetObject_cong keep) auto
    moreover have "n < length ps" using True by (simp add: ps)
    ultimately show ?thesis by blast
  next
    case False
    define n' where "n' = n - Suc (length cp)"
    have "take n ps = cp @ (ObjectMetaKey (rq_bucket req) (rq_key req), serialize_metadata meta) #
        take n' [(BucketIndexKey (rq_bucket req) (rq_key req), md_object_id meta)]"
      using False by (simp add: ps n'_def take_Cons')
    then have sub: "set cp \<subseteq> set (take n ps)"
      "(ObjectMetaKey (rq_bucket req) (rq_key req), serialize_metadata meta) \<in> set (take n ps)"
      by auto
    have "distinct (map fst (take n ps))"
      using distinct_put_pairs unfolding ps_def take_map [symmetric] by (rule distinct_take)
    then have d: "distinct (map fst (rev (take n ps)))" by (simp add: rev_map [symmetric])
    have look: "kv_get k s1 = Some v" if "(k, v) \<in> set (take n ps)" for k v
      using that map_of_eq_Some_iff [OF d, of k v] s1 by (simp add: kv_get_def)
    have "GetObject (rq_bucket req) (rq_key req) s1 =
        \<lparr>gr_found = True, gr_error = [], gr_metadata = meta, gr_data = rq_data req\<rparr>"
      unfolding meta_def
      by (rule GetObject_stored [OF assms(4)])
        (use sub look in \<open>auto simp: cp_def meta_def\<close>)
    then show ?thesis ..
  qed
qed

lemma kv_run_lookup: "kv_ready sd \<Longrightarrow> kv_lookup (kv_run io_ok cs sd) = fold cmd_upd cs (kv_lookup sd)"
  by (induction cs arbitrary: sd) (simp_all add: kv_exec_lookup)

subsection \<open>Sizes\<close>

text \<open>Requests whose keys and metadata fit into the 32-bit length fields of the log.\<close>

definition names_ok :: "PutObjectRequest \<Rightarrow> bool" where
  "names_ok req \<longleftrightarrow> length (rq_bucket req) + length (rq_key req) + length (rq_content_type req) < 2 ^ 28"

lemma put_pairs_wf:
  assumes "names_ok req"
  shows "list_all (\<lambda>(k, v). wf_cmd (CPut k v)) (put_pairs hash t1 t2 cs req)"
proof -
  let ?m = "put_metadata hash t1 t2 cs req"
  note len = assms [unfolded names_ok_def]
  have id: "length (md_object_id ?m) \<le> length (rq_bucket req) + length (rq_key req) + 22"
    using length_show_u64 [of t1] by (simp add: put_metadata_def make_object_id_def)
  have chunk: "length (chunk_slice cs (rq_data req) i) < 2 ^ 32" for i
  proof -
    have "length (chunk_slice cs (rq_data req) i) \<le> unat cs" by (simp add: chunk_slice_alt)
    also have "\<dots> < 2 ^ LENGTH(32)" by (rule unsigned_less)
    finally show ?thesis by simp
  qed
  have ckey: "length (ChunkKey (md_object_id ?m) i) < 2 ^ 32" for i
    using id len length_show_u32 [of i] by (simp add: ChunkKey_def)
  have "length (show_nat (state_code (md_state ?m))) = 1"
    by (simp add: put_metadata_def show_nat_def show_base.simps)
  then have "length (serialize_metadata ?m) < 2 ^ 32"
    using id len length_show_u64 [of "md_size ?m"] length_show_u32 [of "md_chunk_count ?m"]
      length_show_u32 [of "md_chunk_size ?m"] length_show_u64 [of "md_created ?m"]
      length_show_u64 [of "md_updated ?m"] length_show_hex [of "hash (rq_data req)"]
    by (simp add: serialize_metadata_def) (simp add: put_metadata_def compute_etag_def)
  with id len chunk ckey show ?thesis
    by (auto simp: list_all_iff put_pairs_def Let_def chunk_pairs_def ObjectMetaKey_def BucketIndexKey_def)
qed

lemma put_cmds_wf: "names_ok req \<Longrightarrow> list_all wf_cmd (put_cmds hash t1 t2 cs req)"
  using put_pairs_wf [of req hash t1 t2 cs] by (auto simp: put_cmds_def list_all_iff)

subsection \<open>A power cut during \<^verbatim>\<open>PutObject\<close>\<close>

text \<open>The log after a \<^verbatim>\<open>PutObject\<close> that a power cut interrupts: the puts of a prefix of its pairs.\<close>

lemma PutObject_power_cut:
  assumes "log_whole p rs cs0 D sd" and "names_ok req" and "power_cut n ios"
    and "PutObject ios hash t1 t2 cs req sd = (r, sd')"
  defines "cs' \<equiv> cs0 @ (if put_guard req (fst sd) then map (\<lambda>(k, v). CPut k v) (put_pairs hash t1 t2 cs req) else [])"
  shows "(log_whole p rs cs' D sd' \<or> log_cut p rs cs' D sd') \<and>
    (pr_ok r \<longrightarrow> put_guard req (fst sd) \<and> log_whole p rs cs' D sd' \<and> all_flushed sd')"
proof (cases "put_guard req (fst sd)")
  case False
  have "snd (PutObject ios hash t1 t2 cs req sd) = sd"
    using False by (auto simp: PutObject_def put_guard_def)
  moreover have "\<not> pr_ok (fst (PutObject ios hash t1 t2 cs req sd))" using False pr_ok_guard by blast
  ultimately have "sd' = sd" "\<not> pr_ok r" using assms(4) by simp_all
  with False assms(1) show ?thesis by (simp add: cs'_def)
next
  case True
  let ?ps = "put_pairs hash t1 t2 cs req"
  define sd1 where "sd1 = put_all (with_io ios ?ps) sd"
  define io where "io = ios (length ?ps)"
  have st: "sd' = snd (flush_wal io sd1)" and ok: "pr_ok r = fst (flush_wal io sd1)"
    using assms(4) PutObject_state [OF True, of ios hash t1 t2 cs] PutObject_ok [OF True, of ios hash t1 t2 cs]
    by (simp_all add: sd1_def io_def)
  from puts_power_cut [OF assms(1) put_pairs_wf [OF assms(2)] assms(3), of hash t1 t2 cs]
  consider "log_whole p rs cs' D sd1" | "n < length ?ps" "log_cut p rs cs' D sd1"
    using True by (auto simp: sd1_def with_io_def cs'_def)
  then show ?thesis
  proof cases
    case 1
    note any = whole_flush_any [OF 1, of io, folded st]
    moreover have "log_whole p rs cs' D sd'" if "all_flushed sd'"
      using any that by (auto simp: log_cut_def all_flushed_def)
    moreover have "all_flushed sd'" if "pr_ok r"
      using that flush_empties [of io sd1] by (simp add: ok st)
    ultimately show ?thesis using True by blast
  next
    case 2
    with assms(3) have "writes_nothing io" by (simp add: power_cut_def io_def)
    from cut_flush [OF 2(2) this] 2(2) ok st show ?thesis by simp
  qed
qed

lemma put_survives:
  assumes "log_on p rs0 d0" and "stable d0 kv_snapshot" and "p \<noteq> kv_snapshot"
    and "kv_open io_ok p (kv_new, d0) = (True, sd0)" and "list_all wf_cmd pre"
    and "sd = kv_run io_ok pre sd0" and "all_flushed sd"
    and "req_ok cs req" and "names_ok req"
    and "power_cut n ios" and "PutObject ios hash t1 t2 cs req sd = (r, sd')" and "crash_disk (snd sd') d1"
  shows "\<exists>s1. kv_open io_ok p (kv_new, d1) = (True, (s1, d1)) \<and>
    (GetObject (rq_bucket req) (rq_key req) s1 =
        \<lparr>gr_found = True, gr_error = [], gr_metadata = put_metadata hash t1 t2 cs req,
         gr_data = rq_data req\<rparr> \<or>
     \<not> pr_ok r \<and> (\<forall>b k. stored_meta s1 b k = stored_meta (fst sd) b k \<and>
        (map_option md_object_id (stored_meta (fst sd) b k) =
           Some (make_object_id t1 (rq_bucket req) (rq_key req)) \<or>
         GetObject b k s1 = GetObject b k (fst sd))))"
proof -
  let ?ps = "put_pairs hash t1 t2 cs req" and ?base = "map_of (snap_map d0)"
  obtain s d where sd0: "sd0 = (s, d)" and inv0: "log_inv ?base p rs0 [] sd0"
    and frame0: "\<forall>p'. p' \<noteq> p \<longrightarrow> snd sd0 p' = d0 p'"
    by (rule log_inv_open [OF assms(1,3)]) (use assms(4) in simp)
  from log_inv_run [OF inv0 assms(5)] obtain rs bs where inv: "log_inv ?base p rs bs sd"
    and frame: "\<forall>p'. p' \<noteq> p \<longrightarrow> snd sd p' = snd sd0 p'"
    unfolding assms(6) by blast
  obtain s' d' where sd: "sd = (s', d')" by (cases sd)
  with inv assms(7) have bs: "bs = []" by (auto simp: log_inv_def wal_rep_def all_flushed_def)
  with inv have rep: "wal_rep p rs [] (kv_wal s') d'" "kv_opened s'"
    "map_of (kv_map s') = fold cmd_upd (map rec_cmd rs) ?base"
    by (simp_all add: sd log_inv_def)
  have whole: "log_whole p rs (map rec_cmd rs) d0 sd"
    unfolding sd by (rule log_wholeI [OF rep(2) _ rep(1)]) (use frame frame0 sd in simp_all)
  define kvs where "kvs = (if put_guard req (fst sd) then ?ps else [])"
  define cs' where "cs' = map rec_cmd rs @ map (\<lambda>(k, v). CPut k v) kvs"
  from PutObject_power_cut [OF whole assms(9-11)] have
    cut: "log_whole p rs cs' d0 sd' \<or> log_cut p rs cs' d0 sd'" and
    ok: "pr_ok r \<Longrightarrow> kvs = ?ps \<and> log_whole p rs cs' d0 sd' \<and> all_flushed sd'"
    by (auto simp: cs'_def kvs_def if_distrib cong: if_cong)
  from cut_recover [OF cut assms(12,3,2)] obtain s1 m where
    op: "kv_open io_ok p (kv_new, d1) = (True, (s1, d1))" and m: "length rs \<le> m" and
    s1: "map_of (kv_map s1) = fold cmd_upd (take m cs') ?base" and
    full: "log_whole p rs cs' d0 sd' \<and> all_flushed sd' \<longrightarrow> m = length cs'" by blast
  define j where "j = (if kvs = [] then 0 else m - length rs)"
  have j: "take (m - length rs) kvs = take j ?ps" by (simp add: j_def kvs_def)
  have "take m cs' = map rec_cmd rs @ map (\<lambda>(k, v). CPut k v) (take j ?ps)"
    using m by (simp add: cs'_def take_map j [symmetric])
  then have "map_of (kv_map s1) = map_of (kv_map (fst sd)) ++ map_of (rev (take j ?ps))"
    using s1 rep(3) by (simp add: fold_cmd_upd_puts sd)
  note outcome = put_prefix_outcome [OF this assms(8)]
  have "\<not> j < length ?ps" if "pr_ok r"
    using ok [OF that] full by (auto simp: j_def cs'_def)
  with outcome op show ?thesis by (simp add: put_metadata_def) blast
qed

text \<open>
  C4.  \<^verbatim>\<open>PutObject\<close> is atomic across a power cut.  A store was opened on a durable log, ran any commands
  on a working device and has everything flushed; then \<^verbatim>\<open>PutObject\<close> is called, for a request within
  the bounds \<open>req_ok\<close> and \<open>names_ok\<close> of the text formats.  Up to the \<open>n\<close>-th call to the engine, a group
  commit works or fails without writing a byte; during the \<open>n\<close>-th the system calls do anything (also a
  partial write); then the power is off and nothing more reaches the disk, of which a power failure
  keeps what it may.  The call may also have returned before that.  On the store opened next, either
  \<^verbatim>\<open>GetObject\<close> returns the complete new object; or \<^verbatim>\<open>PutObject\<close> had not reported success, no metadata has
  changed and every object is read as before, except one that already had the new object's id
  (the same bucket, key and clock reading), whose chunks may be partly overwritten.
\<close>

theorem put_crash_atomic:
  assumes "log_on p rs0 d0" and "stable d0 kv_snapshot" and "p \<noteq> kv_snapshot"
    and "kv_open io_ok p (kv_new, d0) = (True, sd0)" and "list_all wf_cmd pre"
    and "sd = kv_run io_ok pre sd0" and "all_flushed sd"
    and "req_ok cs req" and "names_ok req"
    and "power_cut n ios" and "PutObject ios hash t1 t2 cs req sd = (r, sd')" and "crash_disk (snd sd') d1"
  shows "\<exists>s1. kv_open io_ok p (kv_new, d1) = (True, (s1, d1)) \<and>
    (GetObject (rq_bucket req) (rq_key req) s1 =
        \<lparr>gr_found = True, gr_error = [], gr_metadata = put_metadata hash t1 t2 cs req,
         gr_data = rq_data req\<rparr> \<or>
     \<not> pr_ok r \<and> (\<forall>b k. stored_meta s1 b k = stored_meta (fst sd) b k \<and>
        (map_option md_object_id (stored_meta (fst sd) b k) =
           Some (make_object_id t1 (rq_bucket req) (rq_key req)) \<or>
         GetObject b k s1 = GetObject b k (fst sd))))"
  using assms by (rule put_survives)

text \<open>
  The theorem at a concrete run: a bucket is created and flushed; then \<^verbatim>\<open>PutObject\<close> buffers its three
  records, and the power goes off after three bytes of the final flush.
\<close>

definition bucket_cmds :: "kv_cmd list" where
  "bucket_cmds = [CPut ''bucket:b'' (''b'' @ [TAB] @ ''7''), CFlush]"

definition tiny_req :: PutObjectRequest where
  "tiny_req = \<lparr>rq_bucket = ''b'', rq_key = ''k'', rq_data = ''x'', rq_content_type = []\<rparr>"

definition bucket_disk :: disk where
  "bucket_disk = [''wal'' \<mapsto> log_file [RPut 1 ''bucket:b'' (''b'' @ [TAB] @ ''7'')]]"

definition cut_io :: "nat \<Rightarrow> io" where
  "cut_io i = (if i < 3 then io_ok
     else io_ok\<lparr>io_writes := (if i = 3 then [Wrote 3, WFail] else [WFail])\<rparr>)"

lemma tiny_pairs: "put_pairs (\<lambda>_. 5) 1 2 4 tiny_req = (ChunkKey ''b:k:1'' 0, ''x'') #
    [(ObjectMetaKey ''b'' ''k'', serialize_metadata (put_metadata (\<lambda>_. 5) 1 2 4 tiny_req)),
     (BucketIndexKey ''b'' ''k'', ''b:k:1'')]"
  by (simp add: put_pairs_def tiny_req_def put_metadata_def chunk_pairs_def chunk_total_def Let_def
      make_object_id_def chunk_slice_def show_word_def show_nat_def show_base.simps digit_char_def) code_simp

lemma tiny_cut:
  defines "sd \<equiv> kv_run io_ok bucket_cmds (snd (kv_open io_ok ''wal'' (kv_new, Map.empty)))"
  shows "all_flushed sd" and "stored_meta (fst sd) ''b'' ''k'' = None" and "put_guard tiny_req (fst sd)"
    and "crash_disk (snd (snd (PutObject cut_io (\<lambda>_. 5) 1 2 4 tiny_req sd))) bucket_disk"
proof -
  have due: "\<not> commit_due 1 5" "\<not> commit_due 2 5" "\<not> commit_due 3 5" "\<not> commit_due 4 5"
    by (simp_all add: commit_due_def)
  let ?w = "RPut 1 ''bucket:b'' (''b'' @ [TAB] @ ''7'')"
  have sd: "sd = (\<lparr>kv_map = [(''bucket:b'', ''b'' @ [TAB] @ ''7'')], kv_wal = \<lparr>wal_buffer = [],
      wal_fd = Some (''wal'', length (log_image [?w])), wal_path = ''wal'', wal_last_good = 0\<rparr>,
      kv_seq = 1, kv_opened = True, kv_group = 5\<rparr>, bucket_disk)"
    by (simp add: sd_def fresh_open bucket_cmds_def exec_defs due length_record_image bucket_disk_def)
  show "all_flushed sd" "stored_meta (fst sd) ''b'' ''k'' = None"
    by (simp_all add: sd all_flushed_def stored_meta_def kv_get_def ObjectMetaKey_def)
  show g: "put_guard tiny_req (fst sd)"
    by (simp add: sd put_guard_def tiny_req_def BucketExists_def kv_get_def BucketMetaKey_def)
  have len: "3 < length (record_image WPut 2 (ChunkKey ''b:k:1'' 0) ''x'')" by (simp add: length_record_image)
  define sd1 where "sd1 = put_all (with_io cut_io (put_pairs (\<lambda>_. 5) 1 2 4 tiny_req)) sd"
  have io: "with_io cut_io (put_pairs (\<lambda>_. 5) 1 2 4 tiny_req) =
      map (Pair io_ok) (put_pairs (\<lambda>_. 5) 1 2 4 tiny_req)"
    "cut_io (length (put_pairs (\<lambda>_. 5) 1 2 4 tiny_req)) = io_ok\<lparr>io_writes := [Wrote 3, WFail]\<rparr>"
    by (simp_all add: tiny_pairs with_io_def cut_io_def upt_rec)
  have sd1: "\<exists>b. kv_wal (fst sd1) = \<lparr>wal_buffer = record_image WPut 2 (ChunkKey ''b:k:1'' 0) ''x'' # b,
      wal_fd = Some (''wal'', length (log_image [?w])), wal_path = ''wal'', wal_last_good = 0\<rparr>" "snd sd1 = bucket_disk"
    unfolding sd1_def io(1) unfolding tiny_pairs
    by (simp_all add: sd kv_put_def append_put_def write_record_def Let_def due)
  then have "snd (snd (flush_wal (io_ok\<lparr>io_writes := [Wrote 3, WFail]\<rparr>) sd1)) =
      [''wal'' \<mapsto> \<lparr>content = log_image [?w] @ take 3 (record_image WPut 2 (ChunkKey ''b:k:1'' 0) ''x''),
        synced = length (log_image [?w])\<rparr>]"
    by (cases sd1) (auto simp: flush_wal_def wal_flush_def write_rec_short [OF len] bucket_disk_def write_at_def)
  then show "crash_disk (snd (snd (PutObject cut_io (\<lambda>_. 5) 1 2 4 tiny_req sd))) bucket_disk"
    unfolding PutObject_state [OF g] io(2) sd1_def [symmetric]
    by (auto simp: bucket_disk_def crash_disk_def power_loss_def)
qed

theorem put_crash_atomic_witness:
  "\<exists>s1. kv_open io_ok ''wal'' (kv_new, bucket_disk) = (True, (s1, bucket_disk)) \<and>
     (gr_data (GetObject ''b'' ''k'' s1) = ''x'' \<or> stored_meta s1 ''b'' ''k'' = None)"
proof -
  define sd0 where "sd0 = snd (kv_open io_ok ''wal'' (kv_new, Map.empty))"
  define sd where "sd = kv_run io_ok bucket_cmds sd0"
  note run = tiny_cut [folded sd0_def, folded sd_def]
  obtain r sd' where p: "PutObject cut_io (\<lambda>_. 5) 1 2 4 tiny_req sd = (r, sd')"
    by (cases "PutObject cut_io (\<lambda>_. 5) 1 2 4 tiny_req sd")
  have op: "kv_open io_ok ''wal'' (kv_new, Map.empty) = (True, sd0)" by (simp add: sd0_def fresh_open)
  have "log_on ''wal'' [] Map.empty" "stable Map.empty kv_snapshot" "''wal'' \<noteq> kv_snapshot"
    "list_all wf_cmd bucket_cmds" "req_ok 4 tiny_req" "names_ok tiny_req" "power_cut 3 cut_io"
    by (simp_all add: log_on_def stable_def req_ok_def size_ok_def tiny_req_def names_ok_def bucket_cmds_def
        power_cut_def cut_io_def writes_nothing_def)
  from put_crash_atomic [OF this(1-3) op this(4) sd_def run(1) this(5-7) p, of bucket_disk] run(2,4) p obtain s1 where
    "kv_open io_ok ''wal'' (kv_new, bucket_disk) = (True, (s1, bucket_disk))"
    "gr_data (GetObject ''b'' ''k'' s1) = ''x'' \<or> stored_meta s1 ''b'' ''k'' = None"
    by (auto simp: tiny_req_def)
  then show ?thesis by blast
qed

end
