(* ===== verification/Object_Demos.thy ===== *)
theory Object_Demos
  imports Object_Store
begin

text \<open>
  The demonstration programs of the object store, \<^verbatim>\<open>src/src/object_store*_demo.cpp\<close>: each opens
  the engine on a fixed log, runs a fixed sequence of operations with chunks of eight bytes
  and reports on them.  A program is a function from the disk to its exit code, its
  standard output, the messages it writes to standard error itself, and the state of the engine
  and the disk when it ends.  The clock readings and \<^verbatim>\<open>std::hash\<close> are arguments, and \<open>ios c\<close> are the
  outcomes of the system calls of the \<open>c\<close>-th operation the program calls.
\<close>

record demo_result =
  dm_exit :: int
  dm_out :: string
  dm_err :: string

definition demo_fail :: "string \<Rightarrow> string \<Rightarrow> demo_result" where
  "demo_fail out msg = \<lparr>dm_exit = 1, dm_out = out, dm_err = msg @ [NL]\<rparr>"

definition demo_done :: "string \<Rightarrow> demo_result" where
  "demo_done out = \<lparr>dm_exit = 0, dm_out = out, dm_err = []\<rparr>"

definition out_line :: "string \<Rightarrow> string" where
  "out_line l = l @ [NL]"

subsection \<open>\<^verbatim>\<open>object_store_write_demo.cpp\<close>\<close>

definition demo_wal :: string where
  "demo_wal = ''/tmp/kv_object_demo.wal''"

definition recovery_req :: PutObjectRequest where
  "recovery_req = \<lparr>rq_bucket = ''photos'', rq_key = ''trip/recovery.txt'',
     rq_data = ''Recovered object data after restart!'', rq_content_type = ''text/plain''\<rparr>"

definition put_report :: "PutObjectResult \<Rightarrow> string" where
  "put_report r =
     out_line (''  object_id   = '' @ pr_object_id r) @
     out_line (''  size_bytes  = '' @ show_word (pr_size r)) @
     out_line (''  chunk_count = '' @ show_word (pr_chunk_count r)) @
     out_line (''  etag        = '' @ pr_etag r)"

definition write_demo ::
    "(nat \<Rightarrow> nat \<Rightarrow> io) \<Rightarrow> (string \<Rightarrow> u64) \<Rightarrow> u64 \<Rightarrow> u64 \<Rightarrow> u64 \<Rightarrow> disk \<Rightarrow> demo_result \<times> sys" where
  "write_demo ios hash t0 t1 t2 d =
     (let (opened, sd) = kv_open (ios 0 0) demo_wal (kv_new, d) in
      if \<not> opened then (demo_fail [] ''Failed to open KVStore WAL'', sd)
      else
        let cs = os_chunk_size 8;
            (created, sd) = CreateBucket (ios 1 0) t0 ''photos'' sd
        in if \<not> created then (demo_fail [] ''CreateBucket failed'', sd)
           else
             let (r, sd) = PutObject (ios 2) hash t1 t2 cs recovery_req sd
             in if \<not> pr_ok r then (demo_fail [] (''PutObject failed: '' @ pr_error r), sd)
                else (demo_done (out_line ''Write phase complete'' @ put_report r @
                        out_line ''Safe to terminate and restart recovery demo.''), sd))"

subsection \<open>\<^verbatim>\<open>object_store_recover_demo.cpp\<close>\<close>

definition get_report :: "GetObjectResult \<Rightarrow> string" where
  "get_report g =
     out_line (''  bucket       = '' @ md_bucket (gr_metadata g)) @
     out_line (''  key          = '' @ md_key (gr_metadata g)) @
     out_line (''  object_id    = '' @ md_object_id (gr_metadata g)) @
     out_line (''  size_bytes   = '' @ show_word (md_size (gr_metadata g))) @
     out_line (''  chunk_count  = '' @ show_word (md_chunk_count (gr_metadata g))) @
     out_line (''  content_type = '' @ md_content_type (gr_metadata g)) @
     out_line (''  etag         = '' @ md_etag (gr_metadata g)) @
     out_line (''  data         = '' @ gr_data g)"

definition recover_demo :: "(nat \<Rightarrow> nat \<Rightarrow> io) \<Rightarrow> disk \<Rightarrow> demo_result \<times> sys" where
  "recover_demo ios d =
     (let (opened, sd) = kv_open (ios 0 0) demo_wal (kv_new, d) in
      if \<not> opened then (demo_fail [] ''Failed to open KVStore WAL'', sd)
      else
        let g = GetObject ''photos'' ''trip/recovery.txt'' (fst sd)
        in if \<not> gr_found g then (demo_fail [] (''Recovery failed: '' @ gr_error g), sd)
           else (demo_done (out_line ''Recovery phase successful'' @ get_report g), sd))"

subsection \<open>\<^verbatim>\<open>object_store_demo.cpp\<close>\<close>

definition hello_req :: PutObjectRequest where
  "hello_req = \<lparr>rq_bucket = ''photos'', rq_key = ''trip/hello.txt'',
     rq_data = ''Hello from MiniS3 built on KVStore!'', rq_content_type = ''text/plain''\<rparr>"

text \<open>The part after the deletion, with the output so far.\<close>

definition mini_demo_end :: "string \<Rightarrow> sys \<Rightarrow> demo_result \<times> sys" where
  "mini_demo_end out sd =
     (let g = GetObject ''photos'' ''trip/hello.txt'' (fst sd)
      in if gr_found g
         then (demo_fail out ''Expected object to be deleted, but it was still found'', sd)
         else (demo_done (out @ out_line (''Get after delete correctly failed: '' @ gr_error g) @
                 [NL] @ out_line ''=== Demo completed successfully ===''), sd))"

definition mini_demo ::
    "(nat \<Rightarrow> nat \<Rightarrow> io) \<Rightarrow> (string \<Rightarrow> u64) \<Rightarrow> u64 \<Rightarrow> u64 \<Rightarrow> u64 \<Rightarrow> u64 \<Rightarrow> disk \<Rightarrow> demo_result \<times> sys" where
  "mini_demo ios hash t0 t1 t2 t3 d =
     (let (opened, sd) = kv_open (ios 0 0) ''/tmp/kv.wal'' (kv_new, d) in
      if \<not> opened then (demo_fail [] ''Failed to open KVStore WAL'', sd)
      else
        let cs = os_chunk_size 8;
            out = out_line ''=== Mini Object Store Demo ==='';
            (created, sd) = CreateBucket (ios 1 0) t0 ''photos'' sd
        in if \<not> created then (demo_fail out ''CreateBucket failed'', sd)
           else
             let out = out @ out_line (''Created bucket: '' @ ''photos'');
                 (r, sd) = PutObject (ios 2) hash t1 t2 cs hello_req sd
             in if \<not> pr_ok r then (demo_fail out (''PutObject failed: '' @ pr_error r), sd)
                else
                  let out = out @ out_line ''PutObject OK'' @ put_report r;
                      g = GetObject ''photos'' ''trip/hello.txt'' (fst sd)
                  in if \<not> gr_found g then (demo_fail out (''GetObject failed: '' @ gr_error g), sd)
                     else
                       let out = out @ [NL] @ out_line ''GetObject OK'' @ get_report g;
                           (dr, sd) = DeleteObject (ios 3) t3 ''photos'' ''trip/hello.txt'' sd
                       in if \<not> dr_ok dr then (demo_fail out (''DeleteObject failed: '' @ dr_error dr), sd)
                          else mini_demo_end (out @ [NL] @ out_line ''DeleteObject OK'') sd)"

subsection \<open>\<^verbatim>\<open>object_store_gc_demo.cpp\<close>\<close>

definition gc_req :: "string \<Rightarrow> PutObjectRequest" where
  "gc_req data = \<lparr>rq_bucket = ''photos'', rq_key = ''trip/a.txt'', rq_data = data,
     rq_content_type = ''text/plain''\<rparr>"

definition gc_demo ::
    "(nat \<Rightarrow> nat \<Rightarrow> io) \<Rightarrow> (kvmap \<Rightarrow> kvmap) \<Rightarrow> (string \<Rightarrow> u64) \<Rightarrow> u64 \<Rightarrow> u64 \<Rightarrow> u64 \<Rightarrow> u64 \<Rightarrow> u64 \<Rightarrow> disk \<Rightarrow>
     demo_result \<times> sys" where
  "gc_demo ios ord hash t0 t1 t2 t3 t4 d =
     (let (opened, sd) = kv_open (ios 0 0) ''/tmp/kv_gc_demo.wal'' (kv_new, d) in
      if \<not> opened then (demo_fail [] ''Failed to open KVStore'', sd)
      else
        let cs = os_chunk_size 8;
            sd = snd (CreateBucket (ios 1 0) t0 ''photos'' sd);
            sd = snd (PutObject (ios 2) hash t1 t2 cs (gc_req ''old-data'') sd);
            sd = snd (PutObject (ios 3) hash t3 t4 cs (gc_req ''new-data'') sd);
            g = GetObject ''photos'' ''trip/a.txt'' (fst sd);
            out = (if gr_found g then out_line (''Current object data: '' @ gr_data g) else []);
            (deleted, sd) = GarbageCollectChunks (ios 4) ord sd
        in (demo_done (out @ out_line (''GC deleted chunks: '' @ show_nat deleted)), sd))"

subsection \<open>\<^verbatim>\<open>object_store_list_demo.cpp\<close>\<close>

definition list_req :: "string \<Rightarrow> string \<Rightarrow> PutObjectRequest" where
  "list_req key data = \<lparr>rq_bucket = ''photos'', rq_key = key, rq_data = data,
     rq_content_type = ''text/plain''\<rparr>"

definition list_demo ::
    "(nat \<Rightarrow> nat \<Rightarrow> io) \<Rightarrow> (kvmap \<Rightarrow> kvmap) \<Rightarrow> (string \<Rightarrow> u64) \<Rightarrow> u64 \<Rightarrow> (u64 \<times> u64) \<Rightarrow> (u64 \<times> u64) \<Rightarrow> (u64 \<times> u64) \<Rightarrow>
     disk \<Rightarrow> demo_result \<times> sys" where
  "list_demo ios ord hash t0 ta tb tc d =
     (let (opened, sd) = kv_open (ios 0 0) ''/tmp/kv_list_demo.wal'' (kv_new, d) in
      if \<not> opened then (demo_fail [] ''Failed to open store'', sd)
      else
        let cs = os_chunk_size 8;
            sd = snd (CreateBucket (ios 1 0) t0 ''photos'' sd);
            sd = snd (PutObject (ios 2) hash (fst ta) (snd ta) cs (list_req ''trip/a.txt'' ''aaa'') sd);
            sd = snd (PutObject (ios 3) hash (fst tb) (snd tb) cs (list_req ''trip/b.txt'' ''bbb'') sd);
            sd = snd (PutObject (ios 4) hash (fst tc) (snd tc) cs (list_req ''notes/c.txt'' ''ccc'') sd);
            res = ListObjects ord ''photos'' ''trip/'' (fst sd)
        in (demo_done (concat (map (\<lambda>e. out_line (oe_key e @ '' size='' @ show_word (oe_size e)))
                         (lr_objects res))), sd))"

end
