(* ===== verification/Object_Demo_Props.thy ===== *)
theory Object_Demo_Props
  imports Object_Demos Object_Crash
begin

text \<open>
  What the demonstration programs print.  They are the composition of the whole storage stack, from
  the log file to the object, so these theorems put the properties of the layers together.
\<close>

subsection \<open>Opening and preparing the store\<close>

lemma open_ready:
  assumes "log_on p rs d" and "p \<noteq> kv_snapshot"
  obtains sd where "kv_open io_ok p (kv_new, d) = (True, sd)" and "kv_ready sd"
    and "distinct (map fst (kv_map (fst sd)))"
  using assms by (rule log_inv_open) (auto simp: kv_ready_def log_inv_def wal_rep_def intro: that)

definition create_cmds :: "u64 \<Rightarrow> string \<Rightarrow> kvstore \<Rightarrow> kv_cmd list" where
  "create_cmds now bucket s =
     (if kv_get (BucketMetaKey bucket) s \<noteq> None then []
      else [CPut (BucketMetaKey bucket) (serialize_bucket_meta \<lparr>bm_name = bucket, bm_created = now\<rparr>)])"

lemma CreateBucket_cmds:
  "bucket \<noteq> [] \<Longrightarrow> CreateBucket io_ok now bucket sd = (True, kv_run io_ok (create_cmds now bucket (fst sd)) sd)"
  by (simp add: CreateBucket_def create_cmds_def)

lemma create_cmds_wf: "length bucket < 2 ^ 28 \<Longrightarrow> list_all wf_cmd (create_cmds now bucket s)"
  using length_show_u64 [of now] by (simp add: create_cmds_def BucketMetaKey_def serialize_bucket_meta_def)

lemma kv_run_ready: "kv_ready sd \<Longrightarrow> kv_ready (kv_run io_ok cs sd)"
  by (induction cs arbitrary: sd) (simp_all add: kv_exec_lookup)

lemma create_exists:
  "kv_ready sd \<Longrightarrow> bucket \<noteq> [] \<Longrightarrow> BucketExists bucket (fst (kv_run io_ok (create_cmds now bucket (fst sd)) sd))"
  using kv_put_ready(2) [of sd io_ok "BucketMetaKey bucket"]
  by (auto simp: BucketExists_def create_cmds_def kv_lookup_def fun_eq_iff)

text \<open>The demos' preparation: an open store with the bucket.\<close>

lemma demo_prepared:
  assumes "log_on p rs d" and "p \<noteq> kv_snapshot"
  obtains sd0 sd where "kv_open io_ok p (kv_new, d) = (True, sd0)" and "kv_ready sd0"
    and "CreateBucket io_ok t0 ''photos'' sd0 = (True, sd)" and "kv_ready sd"
    and "sd = kv_run io_ok (create_cmds t0 ''photos'' (fst sd0)) sd0" and "BucketExists ''photos'' (fst sd)"
proof -
  from assms obtain sd0 where "kv_open io_ok p (kv_new, d) = (True, sd0)" "kv_ready sd0" by (rule open_ready)
  then show ?thesis
    using CreateBucket_cmds [of "''photos''" t0 sd0] kv_run_ready [of sd0] create_exists [of sd0 "''photos''" t0]
    by (intro that) simp_all
qed

subsection \<open>Writing and recovering\<close>

lemma GetObject_same: "(\<And>k. kv_get k s = kv_get k s') \<Longrightarrow> GetObject b k s = GetObject b k s'"
  by (intro GetObject_cong) auto

lemma write_demo_run:
  assumes "log_on demo_wal rs d0" and "write_demo (\<lambda>_ _. io_ok) hash t0 t1 t2 d0 = (res, sd)"
  obtains sd0 sd1 cs r where "kv_open io_ok demo_wal (kv_new, d0) = (True, sd0)" and "kv_ready sd0"
    and "list_all wf_cmd (cs @ [CFlush])" and "sd = kv_exec io_ok CFlush (kv_run io_ok cs sd0)"
    and "kv_ready sd1" and "PutObject (\<lambda>_. io_ok) hash t1 t2 8 recovery_req sd1 = (r, sd)" and "pr_ok r"
    and "dm_exit res = 0"
proof -
  have path: "demo_wal \<noteq> kv_snapshot" by (simp add: demo_wal_def)
  from assms(1) path obtain sd0 sd1 where op: "kv_open io_ok demo_wal (kv_new, d0) = (True, sd0)"
    and r0: "kv_ready sd0" and cb: "CreateBucket io_ok t0 ''photos'' sd0 = (True, sd1)" and r1: "kv_ready sd1"
    and sd1: "sd1 = kv_run io_ok (create_cmds t0 ''photos'' (fst sd0)) sd0" and bucket: "BucketExists ''photos'' (fst sd1)"
    by (rule demo_prepared)
  let ?ps = "map (\<lambda>(k, v). CPut k v) (put_pairs hash t1 t2 8 recovery_req)"
  have g: "put_guard recovery_req (fst sd1)" using bucket by (simp add: put_guard_def recovery_req_def)
  obtain r where p: "PutObject (\<lambda>_. io_ok) hash t1 t2 8 recovery_req sd1 = (r, sd)" and ok: "pr_ok r" and res: "dm_exit res = 0"
    using assms(2) put_ok [OF r1 g, of "\<lambda>_. io_ok" hash t1 t2 8]
    by (auto simp: write_demo_def op cb os_chunk_size_def demo_done_def Let_def split: prod.splits if_splits)
  have run: "sd = kv_exec io_ok CFlush (kv_run io_ok (create_cmds t0 ''photos'' (fst sd0) @ ?ps) sd0)"
    using PutObject_cmds [OF g, of hash t1 t2 8] p by (simp add: put_cmds_def sd1)
  have "list_all wf_cmd ((create_cmds t0 ''photos'' (fst sd0) @ ?ps) @ [CFlush])"
    using create_cmds_wf [of "''photos''"] put_cmds_wf [of recovery_req hash t1 t2 8]
    by (simp add: recovery_req_def put_cmds_def names_ok_def)
  from that [OF op r0 this run r1 p ok res] show ?thesis .
qed

text \<open>
  C17.  Write, lose power, recover.  The write demo on any intact log prints its report and exits with 0;
  whatever a power failure then leaves of the disk, the recovery demo started on it finds the object,
  prints its metadata and its data as they were written, and exits with 0.
\<close>

theorem write_then_recover:
  assumes "log_on demo_wal rs d0" and "stable d0 kv_snapshot"
    and "write_demo (\<lambda>_ _. io_ok) hash t0 t1 t2 d0 = (res, sd)" and "crash_disk (snd sd) d1"
  shows "dm_exit res = 0 \<and>
    fst (recover_demo (\<lambda>_ _. io_ok) d1) = demo_done (out_line ''Recovery phase successful'' @
      get_report \<lparr>gr_found = True, gr_error = [], gr_metadata = put_metadata hash t1 t2 8 recovery_req,
        gr_data = ''Recovered object data after restart!''\<rparr>)"
proof -
  from assms(1,3) obtain sd0 sd1 cs r where op: "kv_open io_ok demo_wal (kv_new, d0) = (True, sd0)"
    and r0: "kv_ready sd0" and wf: "list_all wf_cmd (cs @ [CFlush])"
    and run: "sd = kv_exec io_ok CFlush (kv_run io_ok cs sd0)" and r1: "kv_ready sd1"
    and p: "PutObject (\<lambda>_. io_ok) hash t1 t2 8 recovery_req sd1 = (r, sd)" and ok: "pr_ok r" and res: "dm_exit res = 0"
    by (rule write_demo_run)
  have "demo_wal \<noteq> kv_snapshot" by (simp add: demo_wal_def)
  from recovery [OF assms(1,2) this wf op, of io_ok d1] assms(4) obtain s1 j where
    s1: "kv_open io_ok demo_wal (kv_new, d1) = (True, (s1, d1))" and
    m1: "map_of (kv_map s1) = fold cmd_upd (take j (cs @ [CFlush])) (map_of (kv_map (fst sd0)))" and
    j: "all_flushed sd \<longrightarrow> j = length (cs @ [CFlush])"
    unfolding run by blast
  have "all_flushed sd"
    using run flush_empties [OF flush_ready_ok [OF kv_run_ready [OF r0, of cs]]] by simp
  with m1 j have "map_of (kv_map s1) = fold cmd_upd (cs @ [CFlush]) (map_of (kv_map (fst sd0)))" by simp
  also have "\<dots> = map_of (kv_map (fst sd))"
    using kv_run_lookup [OF r0, of "cs @ [CFlush]"] run by (simp add: kv_lookup_def kv_get_def)
  finally have "GetObject b k s1 = GetObject b k (fst sd)" for b k by (intro GetObject_same) (simp add: kv_get_def)
  moreover have "req_ok 8 recovery_req" by (simp add: req_ok_def size_ok_def recovery_req_def)
  from put_then_get [OF r1 this p ok] have "GetObject ''photos'' ''trip/recovery.txt'' (fst sd) =
      \<lparr>gr_found = True, gr_error = [], gr_metadata = put_metadata hash t1 t2 8 recovery_req,
       gr_data = ''Recovered object data after restart!''\<rparr>" by (simp add: recovery_req_def)
  ultimately show ?thesis using res by (simp add: recover_demo_def s1)
qed

lemma write_demo_durable:
  assumes "write_demo (\<lambda>_ _. io_ok) hash t0 t1 t2 Map.empty = (res, sd)"
  shows "crash_disk (snd sd) (snd sd)"
proof -
  have log: "log_on demo_wal [] Map.empty" by (simp add: log_on_def)
  from log assms obtain sd0 sd1 cs r where op: "kv_open io_ok demo_wal (kv_new, Map.empty) = (True, sd0)"
    and wf: "list_all wf_cmd (cs @ [CFlush])" and run: "sd = kv_exec io_ok CFlush (kv_run io_ok cs sd0)"
    by (rule write_demo_run)
  have "demo_wal \<noteq> kv_snapshot" by (simp add: demo_wal_def)
  from log this obtain s d where "kv_open io_ok demo_wal (kv_new, Map.empty) = (True, (s, d))"
    and inv: "log_inv (map_of (snap_map Map.empty)) demo_wal [] [] (s, d)"
    and other: "\<forall>p'. p' \<noteq> demo_wal \<longrightarrow> d p' = Map.empty p'" by (rule log_inv_open)
  with op have sd0: "sd0 = (s, d)" by simp
  from log_inv_run [OF inv wf] run sd0 obtain rs bs where "log_inv (map_of (snap_map Map.empty)) demo_wal rs bs sd"
    and same: "\<forall>p'. p' \<noteq> demo_wal \<longrightarrow> snd sd p' = d p'" by auto
  then have "snd sd demo_wal = Some (log_file rs)" by (auto simp: log_inv_def wal_rep_def)
  with same other have "snd sd = [demo_wal \<mapsto> log_file rs]" by (intro ext) auto
  then show ?thesis by (auto simp: crash_disk_def power_loss_def)
qed

theorem write_then_recover_witness:
  "fst (recover_demo (\<lambda>_ _. io_ok) (snd (snd (write_demo (\<lambda>_ _. io_ok) (\<lambda>_. 5) 1 2 3 Map.empty)))) =
   demo_done (out_line ''Recovery phase successful'' @
     get_report \<lparr>gr_found = True, gr_error = [], gr_metadata = put_metadata (\<lambda>_. 5) 2 3 8 recovery_req,
       gr_data = ''Recovered object data after restart!''\<rparr>)"
proof -
  obtain res sd where w: "write_demo (\<lambda>_ _. io_ok) (\<lambda>_. 5) 1 2 3 Map.empty = (res, sd)"
    by (cases "write_demo (\<lambda>_ _. io_ok) (\<lambda>_. 5) 1 2 3 Map.empty")
  have "log_on demo_wal [] Map.empty" "stable Map.empty kv_snapshot" by (simp_all add: log_on_def stable_def)
  from write_then_recover [OF this w write_demo_durable [OF w]] w show ?thesis by simp
qed

subsection \<open>Put, get and delete\<close>

text \<open>
  The object store demo.  On any intact log the demo runs to its end: it exits with 0, writes nothing to
  standard error, and prints the report on the object as it was put, the same data read back,
  and after the deletion the message that the object is deleted.
\<close>

theorem mini_demo_transcript:
  assumes "log_on ''/tmp/kv.wal'' rs d"
  shows "fst (mini_demo (\<lambda>_ _. io_ok) hash t0 t1 t2 t3 d) =
   (let meta = put_metadata hash t1 t2 8 hello_req in demo_done (
    out_line ''=== Mini Object Store Demo ==='' @ out_line ''Created bucket: photos'' @
    out_line ''PutObject OK'' @
    put_report \<lparr>pr_ok = True, pr_error = [], pr_object_id = md_object_id meta, pr_size = md_size meta,
      pr_chunk_count = md_chunk_count meta, pr_etag = md_etag meta\<rparr> @
    [NL] @ out_line ''GetObject OK'' @
    get_report \<lparr>gr_found = True, gr_error = [], gr_metadata = meta, gr_data = ''Hello from MiniS3 built on KVStore!''\<rparr> @
    [NL] @ out_line ''DeleteObject OK'' @
    out_line ''Get after delete correctly failed: object is deleted'' @
    [NL] @ out_line ''=== Demo completed successfully ===''))"
proof -
  define meta where "meta = put_metadata hash t1 t2 8 hello_req"
  have path: "''/tmp/kv.wal'' \<noteq> kv_snapshot" by simp
  from assms(1) path obtain sd0 sd1 where op: "kv_open io_ok ''/tmp/kv.wal'' (kv_new, d) = (True, sd0)"
    and cb: "CreateBucket io_ok t0 ''photos'' sd0 = (True, sd1)" and r1: "kv_ready sd1"
    and bucket: "BucketExists ''photos'' (fst sd1)"
    by (rule demo_prepared)
  have g: "put_guard hello_req (fst sd1)" using bucket by (simp add: put_guard_def hello_req_def)
  obtain r sd2 where p: "PutObject (\<lambda>_. io_ok) hash t1 t2 8 hello_req sd1 = (r, sd2)"
    by (cases "PutObject (\<lambda>_. io_ok) hash t1 t2 8 hello_req sd1")
  with put_ok [OF r1 g, of "\<lambda>_. io_ok" hash t1 t2 8] have ok: "pr_ok r" by simp
  then have r: "r = \<lparr>pr_ok = True, pr_error = [], pr_object_id = md_object_id meta, pr_size = md_size meta,
      pr_chunk_count = md_chunk_count meta, pr_etag = md_etag meta\<rparr>"
    using p by (auto simp: PutObject_writes [OF g] Let_def put_result_def meta_def put_metadata_def split: prod.splits if_splits)
  have req: "req_ok 8 hello_req" by (simp add: req_ok_def size_ok_def hello_req_def)
  have get: "GetObject ''photos'' ''trip/hello.txt'' (fst sd2) = \<lparr>gr_found = True, gr_error = [],
      gr_metadata = meta, gr_data = ''Hello from MiniS3 built on KVStore!''\<rparr>"
    using put_then_get [OF r1 req p ok] by (simp add: hello_req_def meta_def)
  have r2: "kv_ready sd2" using put_ready [OF r1, of "\<lambda>_. io_ok" hash t1 t2 8 hello_req] p by simp
  have "stored_meta (fst sd2) ''photos'' ''trip/hello.txt'' = Some meta"
    using get by (auto simp: GetObject_def stored_meta_def get_result_def split: option.splits if_splits sum.splits)
  moreover have "tab_free meta" "md_chunks meta = []"
    by (simp_all add: meta_def tab_free_def put_metadata_def hello_req_def make_object_id_def compute_etag_def
        show_hex_no_tab show_word_def show_nat_no_tab)
  ultimately have "GetObject ''photos'' ''trip/hello.txt'' (fst (snd (DeleteObject (\<lambda>_. io_ok) t3 ''photos'' ''trip/hello.txt'' sd2))) =
      get_result\<lparr>gr_error := ''object is deleted''\<rparr>"
    "dr_ok (fst (DeleteObject (\<lambda>_. io_ok) t3 ''photos'' ''trip/hello.txt'' sd2))"
    using delete_outcome [OF r2, of "''photos''" "''trip/hello.txt''" meta "\<lambda>_. io_ok" t3] by blast+
  then show ?thesis
    by (cases "DeleteObject (\<lambda>_. io_ok) t3 ''photos'' ''trip/hello.txt'' sd2")
      (simp add: mini_demo_def op cb p ok r get os_chunk_size_def mini_demo_end_def get_result_def flip: meta_def)
qed

theorem mini_demo_transcript_witness:
  "dm_exit (fst (mini_demo (\<lambda>_ _. io_ok) (\<lambda>_. 5) 1 2 3 4 Map.empty)) = 0"
proof -
  have "log_on ''/tmp/kv.wal'' [] Map.empty" by (simp add: log_on_def)
  from mini_demo_transcript [OF this, of "\<lambda>_. 5" 1 2 3 4] show ?thesis by (simp add: demo_done_def Let_def)
qed

subsection \<open>Garbage collection and listing\<close>

lemma put_dom:
  assumes "kv_ready sd" and "put_guard req (fst sd)"
  shows "kv_get k (fst (snd (PutObject ios hash t1 t2 cs req sd))) \<noteq> None \<longleftrightarrow>
    k \<in> fst ` set (put_pairs hash t1 t2 cs req) \<or> kv_get k (fst sd) \<noteq> None"
proof (cases "k \<in> fst ` set (put_pairs hash t1 t2 cs req)")
  case True
  then obtain v where "(k, v) \<in> set (put_pairs hash t1 t2 cs req)" by auto
  with put_lookup_in [OF assms this, of ios] True show ?thesis by (simp add: kv_lookup_def)
next
  case False
  with put_lookup_other [OF assms False, of ios] show ?thesis by (simp add: kv_lookup_def)
qed

lemma put_keeps_bucket:
  assumes "kv_ready sd" and "BucketExists b (fst sd)"
  shows "BucketExists b (fst (snd (PutObject ios hash t1 t2 cs req sd)))"
  using assms put_dom [OF assms(1)]
  by (cases "put_guard req (fst sd)") (auto simp: BucketExists_def PutObject_def put_guard_def)

text \<open>Data of at most eight bytes is one chunk.\<close>

lemma put_keys:
  assumes "0 < length (rq_data req)" and "length (rq_data req) \<le> 8"
  shows "fst ` set (put_pairs hash t1 t2 8 req) =
    {ChunkKey (make_object_id t1 (rq_bucket req) (rq_key req)) 0, ObjectMetaKey (rq_bucket req) (rq_key req),
     BucketIndexKey (rq_bucket req) (rq_key req)}"
proof -
  have "(7 + length (rq_data req)) div 8 = 1" using assms by presburger
  then have "unat (chunk_total 8 (length (rq_data req))) = 1" by (simp add: chunk_total_def)
  then show ?thesis by (auto simp: put_pairs_def put_metadata_def chunk_pairs_def Let_def)
qed

lemma make_object_id_inj: "make_object_id t b k = make_object_id t' b k \<longleftrightarrow> t = t'"
proof -
  have "show_word t = show_word t' \<Longrightarrow> t = t'"
    unfolding show_word_def by (metis digits_val_show_nat word_unat_eq_iff)
  then show ?thesis by (auto simp: make_object_id_def)
qed

text \<open>A store opened on a new log without a snapshot, with the bucket.\<close>

lemma fresh_prepared:
  assumes "d p = None" and "d kv_snapshot = None" and "p \<noteq> kv_snapshot"
  obtains sd0 sd where "kv_open io_ok p (kv_new, d) = (True, sd0)"
    and "CreateBucket io_ok t0 ''photos'' sd0 = (True, sd)" and "kv_ready sd" and "BucketExists ''photos'' (fst sd)"
    and "distinct (map fst (kv_map (fst sd)))" and "\<forall>k. kv_get k (fst sd) \<noteq> None \<longleftrightarrow> k = BucketMetaKey ''photos''"
proof -
  have log: "log_on p [] d" using assms(1) by (simp add: log_on_def)
  from log assms(3) obtain s d' where op: "kv_open io_ok p (kv_new, d) = (True, (s, d'))"
    and inv: "log_inv (map_of (snap_map d)) p [] [] (s, d')" by (rule log_inv_open)
  from log assms(3) obtain sd0 sd where op': "kv_open io_ok p (kv_new, d) = (True, sd0)" and r0: "kv_ready sd0"
    and cb: "CreateBucket io_ok t0 ''photos'' sd0 = (True, sd)" and r: "kv_ready sd"
    and run: "sd = kv_run io_ok (create_cmds t0 ''photos'' (fst sd0)) sd0" and b: "BucketExists ''photos'' (fst sd)"
    by (rule demo_prepared)
  have sd0: "sd0 = (s, d')" using op op' by simp
  have none: "kv_get k s = None" for k
    using inv assms(2) by (simp add: log_inv_def snap_map_def kv_get_def)
  then have sd: "sd = kv_put io_ok (BucketMetaKey ''photos'')
      (serialize_bucket_meta \<lparr>bm_name = ''photos'', bm_created = t0\<rparr>) sd0"
    by (simp add: run create_cmds_def sd0)
  have "distinct (map fst (kv_map (fst sd)))"
    unfolding sd by (rule kv_put_distinct) (use inv in \<open>simp add: sd0 log_inv_def\<close>)
  moreover have "kv_get k (fst sd) \<noteq> None \<longleftrightarrow> k = BucketMetaKey ''photos''" for k
    using fun_cong [OF kv_put_ready(2) [OF r0], of io_ok "BucketMetaKey ''photos''" _ k] none
    by (simp add: kv_lookup_def sd0 sd)
  ultimately show ?thesis using that [OF op' cb r b] by blast
qed

lemma key_prefixes:
  "starts_with ''objmeta:'' (ObjectMetaKey b k)" "starts_with ''objchunk:'' (ChunkKey oid i)"
  "\<not> starts_with ''objmeta:'' (BucketMetaKey b)" "\<not> starts_with ''objmeta:'' (BucketIndexKey b k)"
  "\<not> starts_with ''objmeta:'' (ChunkKey oid i)" "\<not> starts_with ''objchunk:'' (BucketMetaKey b)"
  "\<not> starts_with ''objchunk:'' (BucketIndexKey b k)" "\<not> starts_with ''objchunk:'' (ObjectMetaKey b k)"
  by (simp_all add: starts_with_def ObjectMetaKey_def ChunkKey_def BucketMetaKey_def BucketIndexKey_def)

text \<open>Two versions of an object on a fresh store: what garbage there is.\<close>

lemma gc_demo_garbage:
  assumes dom: "\<And>x. kv_get x s \<noteq> None \<longleftrightarrow> x \<in> {BucketMetaKey b, ObjectMetaKey b k, BucketIndexKey b k,
      ChunkKey oid 0, ChunkKey (md_object_id meta) 0}"
    and meta: "stored_meta s b k = Some meta" "md_state meta = Committed" and ids: "oid \<noteq> []" "md_object_id meta \<noteq> []"
  shows "garbage s = (if oid = md_object_id meta then {} else {ChunkKey oid 0})"
proof -
  have "committed_id s (ObjectMetaKey b k) = Some (md_object_id meta)"
    using meta by (auto simp: committed_id_def stored_meta_def bind_eq_Some_conv)
  moreover have "mk = ObjectMetaKey b k" if "starts_with ''objmeta:'' mk" "committed_id s mk = Some x" for mk x
  proof -
    from that(2) have "kv_get mk s \<noteq> None" by (auto simp: committed_id_def split: option.splits)
    with dom that(1) key_prefixes show ?thesis by auto
  qed
  ultimately have "committed_ids s = {md_object_id meta}"
    using key_prefixes(1) by (auto simp: committed_ids_def) (metis option.inject)
  then show ?thesis
    using dom ids key_prefixes by (auto simp: garbage_def chunk_owner_key)
qed

text \<open>
  The garbage collection demo.  On a new log it prints the new version of the overwritten object, and reports
  one reclaimed chunk, that of the old version; if both versions were written in the same
  millisecond they share their chunk and it reports none.
\<close>

theorem gc_demo_transcript:
  assumes "iter_order ord" and "d ''/tmp/kv_gc_demo.wal'' = None" and "d kv_snapshot = None"
  shows "fst (gc_demo (\<lambda>_ _. io_ok) ord hash t0 t1 t2 t3 t4 d) =
    demo_done (out_line ''Current object data: new-data'' @
      out_line (''GC deleted chunks: '' @ (if t1 = t3 then ''0'' else ''1'')))"
proof -
  have path: "''/tmp/kv_gc_demo.wal'' \<noteq> kv_snapshot" by simp
  from assms(2,3) path obtain sd0 sd1 where op: "kv_open io_ok ''/tmp/kv_gc_demo.wal'' (kv_new, d) = (True, sd0)"
    and cb: "CreateBucket io_ok t0 ''photos'' sd0 = (True, sd1)" and r1: "kv_ready sd1"
    and b1: "BucketExists ''photos'' (fst sd1)" and d1: "distinct (map fst (kv_map (fst sd1)))"
    and k1: "\<forall>k. kv_get k (fst sd1) \<noteq> None \<longleftrightarrow> k = BucketMetaKey ''photos''"
    by (rule fresh_prepared [where ?t0.0 = t0])
  define sd2 where "sd2 = snd (PutObject (\<lambda>_. io_ok) hash t1 t2 8 (gc_req ''old-data'') sd1)"
  obtain r sd3 where p: "PutObject (\<lambda>_. io_ok) hash t3 t4 8 (gc_req ''new-data'') sd2 = (r, sd3)"
    by (cases "PutObject (\<lambda>_. io_ok) hash t3 t4 8 (gc_req ''new-data'') sd2")
  have sd3: "sd3 = snd (PutObject (\<lambda>_. io_ok) hash t3 t4 8 (gc_req ''new-data'') sd2)" by (simp add: p)
  have r2: "kv_ready sd2" unfolding sd2_def by (rule put_ready [OF r1])
  have r3: "kv_ready sd3" unfolding sd3 by (rule put_ready [OF r2])
  have d3: "distinct (map fst (kv_map (fst sd3)))" unfolding sd3 sd2_def by (intro put_distinct d1)
  have b2: "BucketExists ''photos'' (fst sd2)" unfolding sd2_def by (rule put_keeps_bucket [OF r1 b1])
  have g1: "put_guard (gc_req x) (fst sd1)" and g2: "put_guard (gc_req x) (fst sd2)" for x
    using b1 b2 by (simp_all add: put_guard_def gc_req_def)
  have ok: "pr_ok r" using put_ok [OF r2 g2, of "\<lambda>_. io_ok" hash t3 t4 8 "''new-data''"] p by simp
  define meta where "meta = put_metadata hash t3 t4 8 (gc_req ''new-data'')"
  have "req_ok 8 (gc_req ''new-data'')" by (simp add: req_ok_def size_ok_def gc_req_def)
  from put_then_get [OF r2 this p ok] have get: "GetObject ''photos'' ''trip/a.txt'' (fst sd3) =
      \<lparr>gr_found = True, gr_error = [], gr_metadata = meta, gr_data = ''new-data''\<rparr>"
    by (simp add: gc_req_def meta_def)
  have keys: "fst ` set (put_pairs hash t t' 8 (gc_req x)) =
      {ChunkKey (make_object_id t ''photos'' ''trip/a.txt'') 0, ObjectMetaKey ''photos'' ''trip/a.txt'',
       BucketIndexKey ''photos'' ''trip/a.txt''}" if "length x = 8" for t t' x
    using put_keys [of "gc_req x" hash t t'] that by (simp add: gc_req_def)
  have id: "md_object_id meta = make_object_id t3 ''photos'' ''trip/a.txt''"
    by (simp add: meta_def put_metadata_def gc_req_def)
  have "garbage (fst sd3) = (if make_object_id t1 ''photos'' ''trip/a.txt'' = md_object_id meta then {}
      else {ChunkKey (make_object_id t1 ''photos'' ''trip/a.txt'') 0})"
  proof (rule gc_demo_garbage [where b = "''photos''" and k = "''trip/a.txt''"])
    show "kv_get x (fst sd3) \<noteq> None \<longleftrightarrow> x \<in> {BucketMetaKey ''photos'', ObjectMetaKey ''photos'' ''trip/a.txt'',
      BucketIndexKey ''photos'' ''trip/a.txt'', ChunkKey (make_object_id t1 ''photos'' ''trip/a.txt'') 0,
      ChunkKey (md_object_id meta) 0}" for x
      unfolding sd3 put_dom [OF r2 g2] unfolding sd2_def put_dom [OF r1 g1] k1 [rule_format] by (auto simp: keys id)
    show "stored_meta (fst sd3) ''photos'' ''trip/a.txt'' = Some meta"
      using get by (auto simp: GetObject_def stored_meta_def get_result_def split: option.splits if_splits sum.splits)
  qed (simp_all add: id make_object_id_def, simp add: meta_def put_metadata_def)
  moreover obtain n sd4 where gc: "GarbageCollectChunks (\<lambda>_. io_ok) ord sd3 = (n, sd4)"
    by (cases "GarbageCollectChunks (\<lambda>_. io_ok) ord sd3")
  ultimately have "n = (if t1 = t3 then 0 else 1)"
    using gc_result(2) [OF r3 d3 assms(1) gc] by (simp add: id make_object_id_inj)
  moreover have "show_nat 0 = ''0''" "show_nat (Suc 0) = ''1''" by code_simp+
  ultimately show ?thesis
    by (simp add: gc_demo_def op cb os_chunk_size_def p get gc flip: sd2_def)
qed

theorem gc_demo_transcript_witness:
  "dm_out (fst (gc_demo (\<lambda>_ _. io_ok) rev (\<lambda>_. 5) 1 2 3 4 5 Map.empty)) =
     out_line ''Current object data: new-data'' @ out_line ''GC deleted chunks: 1''"
  using gc_demo_transcript [of rev Map.empty "\<lambda>_. 5" 1 2 3 4 5] by (simp add: iter_order_def demo_done_def)

lemma distinct_two: "distinct xs \<Longrightarrow> set xs = {a, b} \<Longrightarrow> a \<noteq> b \<Longrightarrow> xs = [a, b] \<or> xs = [b, a]"
proof -
  assume d: "distinct xs" and s: "set xs = {a, b}" and ne: "a \<noteq> b"
  then have "length xs = 2" by (metis distinct_card card_2_iff)
  then obtain x y where "xs = [x, y]" by (auto simp: length_Suc_conv numeral_2_eq_2)
  with d s show ?thesis by (auto simp: doubleton_eq_iff)
qed

text \<open>A store in which the objects of some requests have been put, one after the other.\<close>

lemma put_stored_meta:
  assumes "kv_ready sd" and "put_guard req (fst sd)" and "req_ok cs req"
  shows "stored_meta (fst (snd (PutObject ios hash t1 t2 cs req sd))) (rq_bucket req) (rq_key req) =
    Some (put_metadata hash t1 t2 cs req)"
proof -
  have "kv_lookup (snd (PutObject ios hash t1 t2 cs req sd)) (ObjectMetaKey (rq_bucket req) (rq_key req)) =
      Some (serialize_metadata (put_metadata hash t1 t2 cs req))"
    by (rule put_lookup_in [OF assms(1,2)]) (simp add: put_pairs_def Let_def)
  with put_metadata_roundtrip [OF assms(3)] show ?thesis by (simp add: stored_meta_def kv_lookup_def)
qed

lemma put_stored_other:
  assumes "kv_ready sd" and "put_guard req (fst sd)"
    and "ObjectMetaKey b k \<noteq> ObjectMetaKey (rq_bucket req) (rq_key req)"
  shows "stored_meta (fst (snd (PutObject ios hash t1 t2 cs req sd))) b k = stored_meta (fst sd) b k"
proof -
  have "ObjectMetaKey b k \<notin> fst ` set (put_pairs hash t1 t2 cs req)"
    using assms(3) by (auto simp: put_pairs_def Let_def dest: chunk_pairs_fst [OF imageI])
  from put_lookup_other [OF assms(1,2) this, of ios] show ?thesis by (simp add: stored_meta_def kv_lookup_def)
qed

lemma two_listed:
  assumes "iter_order ord" and "distinct (map fst (kv_map s))" and "BucketExists ''photos'' s"
    and "\<forall>k. kv_get (BucketIndexKey ''photos'' k) s \<noteq> None \<longleftrightarrow> k \<in> {''trip/a.txt'', ''trip/b.txt'', ''notes/c.txt''}"
    and "stored_meta s ''photos'' ''trip/a.txt'' = Some ma" and "md_state ma = Committed"
    and "stored_meta s ''photos'' ''trip/b.txt'' = Some mb" and "md_state mb = Committed"
  shows "lr_objects (ListObjects ord ''photos'' ''trip/'' s) \<in>
    {[entry_of ma, entry_of mb], [entry_of mb, entry_of ma]}"
proof -
  from list_outcome [OF assms(1-3), of "''trip/''"] obtain ks where ks: "distinct ks"
    "set ks = {k. prefix ''trip/'' k \<and> kv_get (BucketIndexKey ''photos'' k) s \<noteq> None \<and> live_object s ''photos'' k}"
    "ListObjects ord ''photos'' ''trip/'' s = \<lparr>lr_ok = True, lr_error = [],
       lr_objects = map (\<lambda>k. entry_of (the (stored_meta s ''photos'' k))) ks\<rparr>" by blast
  have "live_object s ''photos'' ''trip/a.txt''" "live_object s ''photos'' ''trip/b.txt''"
    using assms(5-8) by (simp_all add: live_object_def)
  moreover have "prefix ''trip/'' ''trip/a.txt''" "prefix ''trip/'' ''trip/b.txt''" "\<not> prefix ''trip/'' ''notes/c.txt''"
    by simp_all
  ultimately have "set ks = {''trip/a.txt'', ''trip/b.txt''}" unfolding ks(2) assms(4) [rule_format] by blast
  with ks(1) have "ks = [''trip/a.txt'', ''trip/b.txt''] \<or> ks = [''trip/b.txt'', ''trip/a.txt'']"
    by (rule distinct_two) simp
  then show ?thesis using assms(5,7) by (auto simp: ks(3))
qed

text \<open>
  The listing demo.  On a new log it prints the two objects under the prefix with their sizes and not the third
  object of the bucket; the order of the two lines is that of the engine's hash map.
\<close>

theorem list_demo_transcript:
  assumes "iter_order ord" and "d ''/tmp/kv_list_demo.wal'' = None" and "d kv_snapshot = None"
  shows "fst (list_demo (\<lambda>_ _. io_ok) ord hash t0 ta tb tc d) \<in>
    {demo_done (out_line ''trip/a.txt size=3'' @ out_line ''trip/b.txt size=3''),
     demo_done (out_line ''trip/b.txt size=3'' @ out_line ''trip/a.txt size=3'')}"
proof -
  have path: "''/tmp/kv_list_demo.wal'' \<noteq> kv_snapshot" by simp
  from assms(2,3) path obtain sd0 sd1 where op: "kv_open io_ok ''/tmp/kv_list_demo.wal'' (kv_new, d) = (True, sd0)"
    and cb: "CreateBucket io_ok t0 ''photos'' sd0 = (True, sd1)" and r1: "kv_ready sd1"
    and b1: "BucketExists ''photos'' (fst sd1)" and d1: "distinct (map fst (kv_map (fst sd1)))"
    and k1: "\<forall>k. kv_get k (fst sd1) \<noteq> None \<longleftrightarrow> k = BucketMetaKey ''photos''"
    by (rule fresh_prepared [where ?t0.0 = t0])
  let ?a = "list_req ''trip/a.txt'' ''aaa''" and ?b = "list_req ''trip/b.txt'' ''bbb''"
    and ?c = "list_req ''notes/c.txt'' ''ccc''"
  define sd2 where "sd2 = snd (PutObject (\<lambda>_. io_ok) hash (fst ta) (snd ta) 8 ?a sd1)"
  define sd3 where "sd3 = snd (PutObject (\<lambda>_. io_ok) hash (fst tb) (snd tb) 8 ?b sd2)"
  define sd4 where "sd4 = snd (PutObject (\<lambda>_. io_ok) hash (fst tc) (snd tc) 8 ?c sd3)"
  have r2: "kv_ready sd2" unfolding sd2_def by (rule put_ready [OF r1])
  have r3: "kv_ready sd3" unfolding sd3_def by (rule put_ready [OF r2])
  have b2: "BucketExists ''photos'' (fst sd2)" unfolding sd2_def by (rule put_keeps_bucket [OF r1 b1])
  have b3: "BucketExists ''photos'' (fst sd3)" unfolding sd3_def by (rule put_keeps_bucket [OF r2 b2])
  have b4: "BucketExists ''photos'' (fst sd4)" unfolding sd4_def by (rule put_keeps_bucket [OF r3 b3])
  have d4: "distinct (map fst (kv_map (fst sd4)))" unfolding sd4_def sd3_def sd2_def by (intro put_distinct d1)
  have g: "put_guard ?a (fst sd1)" "put_guard ?b (fst sd2)" "put_guard ?c (fst sd3)"
    using b1 b2 b3 by (simp_all add: put_guard_def list_req_def)
  have keys: "fst ` set (put_pairs hash t t' 8 (list_req k x)) = {ChunkKey (make_object_id t ''photos'' k) 0,
      ObjectMetaKey ''photos'' k, BucketIndexKey ''photos'' k}" if "length x = 3" for t t' k x
    using put_keys [of "list_req k x" hash t t'] that by (simp add: list_req_def)
  have index: "kv_get (BucketIndexKey ''photos'' k) (fst sd4) \<noteq> None \<longleftrightarrow>
      k \<in> {''trip/a.txt'', ''trip/b.txt'', ''notes/c.txt''}" for k
    unfolding sd4_def put_dom [OF r3 g(3)] unfolding sd3_def put_dom [OF r2 g(2)]
    unfolding sd2_def put_dom [OF r1 g(1)] k1 [rule_format]
    by (auto simp: keys BucketIndexKey_def ObjectMetaKey_def ChunkKey_def BucketMetaKey_def)
  have ok: "req_ok 8 ?a" "req_ok 8 ?b" by (simp_all add: req_ok_def size_ok_def list_req_def)
  have "stored_meta (fst sd2) ''photos'' ''trip/a.txt'' = Some (put_metadata hash (fst ta) (snd ta) 8 ?a)"
    using put_stored_meta [OF r1 g(1) ok(1)] by (simp add: sd2_def list_req_def)
  then have ma: "stored_meta (fst sd4) ''photos'' ''trip/a.txt'' = Some (put_metadata hash (fst ta) (snd ta) 8 ?a)"
    using put_stored_other [OF r2 g(2)] put_stored_other [OF r3 g(3)]
    by (simp add: sd3_def sd4_def list_req_def ObjectMetaKey_def)
  have "stored_meta (fst sd3) ''photos'' ''trip/b.txt'' = Some (put_metadata hash (fst tb) (snd tb) 8 ?b)"
    using put_stored_meta [OF r2 g(2) ok(2)] by (simp add: sd3_def list_req_def)
  then have mb: "stored_meta (fst sd4) ''photos'' ''trip/b.txt'' = Some (put_metadata hash (fst tb) (snd tb) 8 ?b)"
    using put_stored_other [OF r3 g(3)] by (simp add: sd4_def list_req_def ObjectMetaKey_def)
  let ?ma = "put_metadata hash (fst ta) (snd ta) 8 ?a" and ?mb = "put_metadata hash (fst tb) (snd tb) 8 ?b"
  have "lr_objects (ListObjects ord ''photos'' ''trip/'' (fst sd4)) \<in>
      {[entry_of ?ma, entry_of ?mb], [entry_of ?mb, entry_of ?ma]}"
    using index ma mb by (intro two_listed [OF assms(1) d4 b4]) (auto simp: put_metadata_def)
  moreover have "show_word (3 :: u64) = ''3''" by code_simp
  moreover have "fst (list_demo (\<lambda>_ _. io_ok) ord hash t0 ta tb tc d) =
      demo_done (concat (map (\<lambda>e. out_line (oe_key e @ '' size='' @ show_word (oe_size e)))
        (lr_objects (ListObjects ord ''photos'' ''trip/'' (fst sd4)))))"
    by (simp add: list_demo_def op cb os_chunk_size_def Let_def flip: sd2_def sd3_def sd4_def)
  ultimately show ?thesis
    by (auto simp: entry_of_def put_metadata_def list_req_def out_line_def)
qed

theorem list_demo_transcript_witness:
  "dm_exit (fst (list_demo (\<lambda>_ _. io_ok) rev (\<lambda>_. 5) 1 (2, 3) (4, 5) (6, 7) Map.empty)) = 0"
  using list_demo_transcript [of rev Map.empty "\<lambda>_. 5" 1 "(2, 3)" "(4, 5)" "(6, 7)"]
  by (auto simp: iter_order_def demo_done_def)

end
