(* ===== verification/Raft.thy ===== *)
theory Raft
  imports Kv_Store
begin

text \<open>
  A Raft node: \<^verbatim>\<open>class RaftNode\<close> of \<^verbatim>\<open>src/include/kv/raft.h\<close> and \<^verbatim>\<open>src/src/raft.cpp\<close>, and the
  in-process transport of \<^verbatim>\<open>src/src/raft_transport.cpp\<close>.  Every section of the code that holds
  the node's lock is one function on the node's state; the loops that run between these
  sections, and the calls over the transport, are the steps of \<open>Raft_Steps\<close>.

  Terms and indices are 64-bit words.  The clock is not modelled: \<^verbatim>\<open>last_heard_\<close> and the
  randomised \<^verbatim>\<open>election_timeout_\<close> only decide when a node may start an election, and here it may
  at any time.
\<close>

subsection \<open>Types\<close>

datatype RaftRole = Follower | Candidate | Leader

datatype OpType = OpPut | OpDel

record LogEntry =
  le_term :: u64
  le_op :: OpType
  le_key :: string
  le_value :: string

record RequestVoteReq =
  rv_term :: u64
  rv_candidate_id :: int
  rv_last_log_index :: u64
  rv_last_log_term :: u64

record RequestVoteResp =
  rvr_term :: u64
  rvr_vote_granted :: bool

record AppendEntriesReq =
  ae_term :: u64
  ae_leader_id :: int
  ae_prev_log_index :: u64
  ae_prev_log_term :: u64
  ae_entries :: "LogEntry list"
  ae_leader_commit :: u64

record AppendEntriesResp =
  aer_term :: u64
  aer_success :: bool

record RaftNode =
  rn_id :: int
  rn_peers :: "int list"
  rn_term :: u64
  rn_voted_for :: "int option"
  rn_log :: "LogEntry list"
  rn_role :: RaftRole
  rn_leader :: "int option"
  rn_commit :: u64
  rn_applied :: u64
  rn_next :: "(int \<times> u64) list"
  rn_match :: "(int \<times> u64) list"

definition raft_new :: "int \<Rightarrow> int list \<Rightarrow> RaftNode" where
  "raft_new i peers =
     \<lparr>rn_id = i, rn_peers = peers, rn_term = 0, rn_voted_for = None, rn_log = [],
      rn_role = Follower, rn_leader = None, rn_commit = 0, rn_applied = 0, rn_next = [],
      rn_match = []\<rparr>"

subsection \<open>Log helpers\<close>

definition LastLogIndexLocked :: "RaftNode \<Rightarrow> u64" where
  "LastLogIndexLocked n = of_nat (length (rn_log n))"

definition LastLogTermLocked :: "RaftNode \<Rightarrow> u64" where
  "LastLogTermLocked n = (if rn_log n = [] then 0 else le_term (last (rn_log n)))"

definition TermAtLocked :: "RaftNode \<Rightarrow> u64 \<Rightarrow> u64" where
  "TermAtLocked n idx =
     (if idx = 0 then 0
      else if of_nat (length (rn_log n)) < idx then 0
      else le_term (rn_log n ! unat (idx - 1)))"

definition IsUpToDateLocked :: "RaftNode \<Rightarrow> u64 \<Rightarrow> u64 \<Rightarrow> bool" where
  "IsUpToDateLocked n cand_last_idx cand_last_term =
     (let my_term = LastLogTermLocked n;
          my_idx = LastLogIndexLocked n
      in if cand_last_term \<noteq> my_term then my_term < cand_last_term
         else my_idx \<le> cand_last_idx)"

subsection \<open>Commit index\<close>

definition AdvanceCommitIndexLocked :: "RaftNode \<Rightarrow> RaftNode" where
  "AdvanceCommitIndexLocked n =
     (let match_values = sort (LastLogIndexLocked n # map snd (rn_match n));
          N = match_values ! (length match_values div 2)
      in if rn_commit n < N \<and> TermAtLocked n N = rn_term n then n\<lparr>rn_commit := N\<rparr> else n)"

subsection \<open>Role changes\<close>

definition BecomeFollowerLocked :: "u64 \<Rightarrow> int option \<Rightarrow> RaftNode \<Rightarrow> RaftNode" where
  "BecomeFollowerLocked new_term leader n =
     n\<lparr>rn_role := Follower, rn_leader := leader, rn_term := new_term, rn_voted_for := None\<rparr>"

definition BecomeCandidateLocked :: "RaftNode \<Rightarrow> RaftNode" where
  "BecomeCandidateLocked n =
     n\<lparr>rn_role := Candidate, rn_leader := None, rn_term := rn_term n + 1,
       rn_voted_for := Some (rn_id n)\<rparr>"

definition BecomeLeaderLocked :: "RaftNode \<Rightarrow> RaftNode" where
  "BecomeLeaderLocked n =
     (let l = LastLogIndexLocked n
      in n\<lparr>rn_role := Leader, rn_leader := Some (rn_id n),
           rn_next := fold (\<lambda>p. AList.update p (l + 1)) (rn_peers n) (rn_next n),
           rn_match := fold (\<lambda>p. AList.update p 0) (rn_peers n) (rn_match n)\<rparr>)"

definition BuildAppendEntriesLocked :: "int \<Rightarrow> RaftNode \<Rightarrow> AppendEntriesReq" where
  "BuildAppendEntriesLocked peer_id n =
     (let next_ix = (case map_of (rn_next n) peer_id of None \<Rightarrow> 1 | Some i \<Rightarrow> i);
          prev = (if next_ix = 0 \<or> next_ix = 1 then 0 else next_ix - 1)
      in \<lparr>ae_term = rn_term n, ae_leader_id = rn_id n, ae_prev_log_index = prev,
          ae_prev_log_term = TermAtLocked n prev,
          ae_entries = (if 1 \<le> next_ix \<and> next_ix \<le> of_nat (length (rn_log n))
                        then drop (unat (next_ix - 1)) (rn_log n) else []),
          ae_leader_commit = rn_commit n\<rparr>)"

subsection \<open>RPC handlers\<close>

definition OnRequestVote :: "RequestVoteReq \<Rightarrow> RaftNode \<Rightarrow> RequestVoteResp \<times> RaftNode" where
  "OnRequestVote req n =
     (if rv_term req < rn_term n then (\<lparr>rvr_term = rn_term n, rvr_vote_granted = False\<rparr>, n)
      else
        let n = (if rn_term n < rv_term req then BecomeFollowerLocked (rv_term req) None n else n);
            can_vote = (rn_voted_for n = None \<or> rn_voted_for n = Some (rv_candidate_id req))
        in if can_vote \<and> IsUpToDateLocked n (rv_last_log_index req) (rv_last_log_term req)
           then (\<lparr>rvr_term = rn_term n, rvr_vote_granted = True\<rparr>,
                 n\<lparr>rn_voted_for := Some (rv_candidate_id req)\<rparr>)
           else (\<lparr>rvr_term = rn_term n, rvr_vote_granted = False\<rparr>, n))"

definition OnAppendEntries :: "AppendEntriesReq \<Rightarrow> RaftNode \<Rightarrow> AppendEntriesResp \<times> RaftNode" where
  "OnAppendEntries req n =
     (if ae_term req < rn_term n then (\<lparr>aer_term = rn_term n, aer_success = False\<rparr>, n)
      else
        let n = (if rn_term n < ae_term req
                 then BecomeFollowerLocked (ae_term req) (Some (ae_leader_id req)) n
                 else n\<lparr>rn_role := Follower, rn_leader := Some (ae_leader_id req)\<rparr>)
        in if LastLogIndexLocked n < ae_prev_log_index req
             then (\<lparr>aer_term = rn_term n, aer_success = False\<rparr>, n)
           else if TermAtLocked n (ae_prev_log_index req) \<noteq> ae_prev_log_term req
             then (\<lparr>aer_term = rn_term n, aer_success = False\<rparr>, n)
           else
             let n = (if ae_entries req \<noteq> []
                      then n\<lparr>rn_log := (if ae_prev_log_index req < LastLogIndexLocked n
                                        then take (unat (ae_prev_log_index req)) (rn_log n)
                                        else rn_log n) @ ae_entries req\<rparr>
                      else n);
                 n = (if rn_commit n < ae_leader_commit req
                      then n\<lparr>rn_commit := min (ae_leader_commit req) (LastLogIndexLocked n)\<rparr>
                      else n)
             in (\<lparr>aer_term = rn_term n, aer_success = True\<rparr>, n))"

subsection \<open>Elections\<close>

text \<open>\<^verbatim>\<open>needed\<close> of the loops: \<^verbatim>\<open>total / 2 + 1\<close> with \<^verbatim>\<open>total = 1 + peers_.size()\<close>.\<close>

definition needed :: "RaftNode \<Rightarrow> nat" where
  "needed n = (1 + length (rn_peers n)) div 2 + 1"

definition vote_request :: "RaftNode \<Rightarrow> RequestVoteReq" where
  "vote_request n =
     \<lparr>rv_term = rn_term n, rv_candidate_id = rn_id n, rv_last_log_index = LastLogIndexLocked n,
      rv_last_log_term = LastLogTermLocked n\<rparr>"

text \<open>
  The locked section of \<^verbatim>\<open>ElectionLoop\<close> after a response: the node, the votes, and
  whether the loop over the peers goes on.
\<close>

definition election_response ::
    "u64 \<Rightarrow> nat \<Rightarrow> RequestVoteResp \<Rightarrow> RaftNode \<Rightarrow> RaftNode \<times> nat \<times> bool" where
  "election_response term_started votes resp n =
     (if rn_role n \<noteq> Candidate then (n, votes, False)
      else if rn_term n \<noteq> term_started then (n, votes, False)
      else if rn_term n < rvr_term resp then (BecomeFollowerLocked (rvr_term resp) None n, votes, False)
      else
        let votes = (if rvr_vote_granted resp then votes + 1 else votes)
        in if needed n \<le> votes then (BecomeLeaderLocked n, votes, False) else (n, votes, True))"

subsection \<open>Proposals\<close>

text \<open>The first locked section of \<^verbatim>\<open>ProposePut\<close> and \<^verbatim>\<open>ProposeDel\<close>: append, if leader.\<close>

definition propose_append :: "OpType \<Rightarrow> string \<Rightarrow> string \<Rightarrow> RaftNode \<Rightarrow> (LogEntry \<times> RaftNode) option" where
  "propose_append op key val n =
     (if rn_role n \<noteq> Leader then None
      else
        let e = \<lparr>le_term = rn_term n, le_op = op, le_key = key, le_value = val\<rparr>
        in Some (e, n\<lparr>rn_log := rn_log n @ [e]\<rparr>))"

text \<open>The second locked section: the request for the entry, with the index read anew.\<close>

definition propose_request :: "LogEntry \<Rightarrow> RaftNode \<Rightarrow> AppendEntriesReq" where
  "propose_request e n =
     (let my_index = LastLogIndexLocked n;
          prev_idx = my_index - 1
      in \<lparr>ae_term = rn_term n, ae_leader_id = rn_id n, ae_prev_log_index = prev_idx,
          ae_prev_log_term = TermAtLocked n prev_idx, ae_entries = [e], ae_leader_commit = 0\<rparr>)"

datatype propose_next = PFail | PMore nat | PEnough nat

definition propose_response :: "nat \<Rightarrow> AppendEntriesResp \<Rightarrow> RaftNode \<Rightarrow> propose_next \<times> RaftNode" where
  "propose_response acks resp n =
     (if rn_role n \<noteq> Leader then (PFail, n)
      else if rn_term n < aer_term resp then (PFail, BecomeFollowerLocked (aer_term resp) None n)
      else
        let acks = (if aer_success resp then acks + 1 else acks)
        in (if needed n \<le> acks then PEnough acks else PMore acks, n))"

text \<open>The heartbeat that follows a successful proposal, and the section after each answer to it.\<close>

definition propose_heartbeat :: "RaftNode \<Rightarrow> AppendEntriesReq" where
  "propose_heartbeat n =
     \<lparr>ae_term = rn_term n, ae_leader_id = rn_id n, ae_prev_log_index = LastLogIndexLocked n,
      ae_prev_log_term = TermAtLocked n (LastLogIndexLocked n), ae_entries = [],
      ae_leader_commit = rn_commit n\<rparr>"

definition heartbeat_answer :: "AppendEntriesResp \<Rightarrow> RaftNode \<Rightarrow> bool \<times> RaftNode" where
  "heartbeat_answer resp n =
     (if rn_term n < aer_term resp then (False, BecomeFollowerLocked (aer_term resp) None n)
      else (True, n))"

subsection \<open>Heartbeats\<close>

definition heartbeat_request :: "int \<Rightarrow> RaftNode \<Rightarrow> AppendEntriesReq option" where
  "heartbeat_request p n =
     (if rn_role n \<noteq> Leader then None else Some (BuildAppendEntriesLocked p n))"

text \<open>The access \<^verbatim>\<open>m[p]\<close> of the log output inserts 0 for a missing key.\<close>

definition map_touch :: "int \<Rightarrow> (int \<times> u64) list \<Rightarrow> (int \<times> u64) list" where
  "map_touch p m = (case map_of m p of None \<Rightarrow> AList.update p 0 m | Some _ \<Rightarrow> m)"

definition heartbeat_response ::
    "int \<Rightarrow> AppendEntriesReq \<Rightarrow> AppendEntriesResp \<Rightarrow> RaftNode \<Rightarrow> bool \<times> RaftNode" where
  "heartbeat_response p req resp n =
     (if rn_term n < aer_term resp then (False, BecomeFollowerLocked (aer_term resp) None n)
      else if aer_success resp then
        let n = (if ae_entries req \<noteq> []
                 then (let sent_last = ae_prev_log_index req + of_nat (length (ae_entries req))
                       in n\<lparr>rn_match := AList.update p sent_last (rn_match n),
                            rn_next := AList.update p (sent_last + 1) (rn_next n)\<rparr>)
                 else n);
            n = AdvanceCommitIndexLocked n
        in (True, n\<lparr>rn_match := map_touch p (rn_match n), rn_next := map_touch p (rn_next n)\<rparr>)
      else
        let n = (case map_of (rn_next n) p of
                   None \<Rightarrow> n
                 | Some i \<Rightarrow> if 1 < i then n\<lparr>rn_next := AList.update p (max 1 (i - 1)) (rn_next n)\<rparr> else n)
        in (True, n\<lparr>rn_next := map_touch p (rn_next n)\<rparr>))"

subsection \<open>Applying committed entries\<close>

text \<open>
  The locked section of \<^verbatim>\<open>ApplyLoop\<close>: nothing to do, the next entry, or an access past
  the end of the log, which is undefined behaviour in the code.
\<close>

datatype apply_next = ApplyNothing | ApplyEntry LogEntry RaftNode | ApplyOutOfBounds

definition apply_take :: "RaftNode \<Rightarrow> apply_next" where
  "apply_take n =
     (if rn_applied n < rn_commit n then
        let idx = rn_applied n + 1
        in if unat (idx - 1) < length (rn_log n)
           then ApplyEntry (rn_log n ! unat (idx - 1)) (n\<lparr>rn_applied := idx\<rparr>)
           else ApplyOutOfBounds
      else ApplyNothing)"

definition apply_entry :: "LogEntry \<Rightarrow> kvstore \<Rightarrow> kvstore" where
  "apply_entry e s =
     (if le_op e = OpPut then ApplyPut (le_key e) (le_value e) s else ApplyDel (le_key e) s)"

subsection \<open>The in-process transport\<close>

text \<open>The nodes, and the ids that are registered with the transport.\<close>

type_synonym nodes = "int \<Rightarrow> RaftNode"

definition transport_register :: "RaftNode \<Rightarrow> int set \<Rightarrow> int set" where
  "transport_register n reg = insert (rn_id n) reg"

definition transport_unregister :: "int \<Rightarrow> int set \<Rightarrow> int set" where
  "transport_unregister i reg = reg - {i}"

definition transport_RequestVote ::
    "int set \<Rightarrow> int \<Rightarrow> RequestVoteReq \<Rightarrow> nodes \<Rightarrow> RequestVoteResp \<times> nodes" where
  "transport_RequestVote reg peer_id req ns =
     (if peer_id \<notin> reg then (\<lparr>rvr_term = rv_term req, rvr_vote_granted = False\<rparr>, ns)
      else let (resp, n) = OnRequestVote req (ns peer_id) in (resp, ns(peer_id := n)))"

definition transport_AppendEntries ::
    "int set \<Rightarrow> int \<Rightarrow> AppendEntriesReq \<Rightarrow> nodes \<Rightarrow> AppendEntriesResp \<times> nodes" where
  "transport_AppendEntries reg peer_id req ns =
     (if peer_id \<notin> reg then (\<lparr>aer_term = ae_term req, aer_success = False\<rparr>, ns)
      else let (resp, n) = OnAppendEntries req (ns peer_id) in (resp, ns(peer_id := n)))"

end
