(* ===== verification/Raft_Steps.thy ===== *)
theory Raft_Steps
  imports Raft
begin

text \<open>
  A cluster of Raft nodes at the granularity of the code's locks.  Each node runs an election
  thread, a heartbeat thread and an apply thread (\<^verbatim>\<open>ElectionLoop\<close>, \<^verbatim>\<open>HeartbeatLoop\<close>, \<^verbatim>\<open>ApplyLoop\<close>)
  and any number of client threads in \<^verbatim>\<open>ProposePut\<close> or \<^verbatim>\<open>ProposeDel\<close>.  A step is one locked
  section of one thread or one call over the transport, which runs the peer's handler;
  between two steps of a thread all others may move.  Each thread has a program
  counter with the local variables that are live there.  Nodes may be registered with
  the transport and removed from it, started and stopped at any time.  A thread that is
  idle is between two rounds of its loop: it may have seen \<^verbatim>\<open>running_\<close> before a \<^verbatim>\<open>Stop\<close> and begin
  one more round after it.
\<close>

datatype election_pc =
    EStopped
  | EIdle
  | EAsk RequestVoteReq "int list" nat
  | EGot RequestVoteReq int RequestVoteResp "int list" nat

datatype heartbeat_pc =
    HStopped
  | HIdle
  | HPeers "int list"
  | HSend int AppendEntriesReq "int list"
  | HGot int AppendEntriesReq AppendEntriesResp "int list"

datatype propose_pc =
    PIdle
  | PAppended LogEntry
  | PSend AppendEntriesReq "int list" nat
  | PGot AppendEntriesReq AppendEntriesResp "int list" nat
  | PCommit
  | PBeat AppendEntriesReq "int list"
  | PBeatGot AppendEntriesReq AppendEntriesResp "int list"
  | PDone bool

datatype apply_pc = AStopped | AIdle | AGot LogEntry | AUndefined

record raft_sys =
  sy_nodes :: nodes
  sy_reg :: "int set"
  sy_running :: "int set"
  sy_election :: "int \<Rightarrow> election_pc"
  sy_heartbeat :: "int \<Rightarrow> heartbeat_pc"
  sy_propose :: "int \<Rightarrow> nat \<Rightarrow> propose_pc"
  sy_apply :: "int \<Rightarrow> apply_pc"
  sy_sm :: "int \<Rightarrow> kvstore"

abbreviation upd_node :: "int \<Rightarrow> RaftNode \<Rightarrow> raft_sys \<Rightarrow> raft_sys" where
  "upd_node i n s \<equiv> s\<lparr>sy_nodes := (sy_nodes s)(i := n)\<rparr>"

abbreviation upd_election :: "int \<Rightarrow> election_pc \<Rightarrow> raft_sys \<Rightarrow> raft_sys" where
  "upd_election i pc s \<equiv> s\<lparr>sy_election := (sy_election s)(i := pc)\<rparr>"

abbreviation upd_heartbeat :: "int \<Rightarrow> heartbeat_pc \<Rightarrow> raft_sys \<Rightarrow> raft_sys" where
  "upd_heartbeat i pc s \<equiv> s\<lparr>sy_heartbeat := (sy_heartbeat s)(i := pc)\<rparr>"

abbreviation upd_propose :: "int \<Rightarrow> nat \<Rightarrow> propose_pc \<Rightarrow> raft_sys \<Rightarrow> raft_sys" where
  "upd_propose i c pc s \<equiv> s\<lparr>sy_propose := (sy_propose s)(i := (sy_propose s i)(c := pc))\<rparr>"

abbreviation upd_apply :: "int \<Rightarrow> apply_pc \<Rightarrow> raft_sys \<Rightarrow> raft_sys" where
  "upd_apply i pc s \<equiv> s\<lparr>sy_apply := (sy_apply s)(i := pc)\<rparr>"

text \<open>
  The election thread.  A candidacy needs a term below the largest 64-bit number: the code
  would wrap the term around, which no cluster lives long enough to see.
\<close>

inductive election_step :: "int \<Rightarrow> raft_sys \<Rightarrow> raft_sys \<Rightarrow> bool" for i where
  start_election:
    "sy_election s i = EIdle \<Longrightarrow> rn_role (sy_nodes s i) \<noteq> Leader \<Longrightarrow> rn_term (sy_nodes s i) \<noteq> - 1 \<Longrightarrow>
     n = BecomeCandidateLocked (sy_nodes s i) \<Longrightarrow>
     election_step i s (upd_election i (EAsk (vote_request n) (rn_peers n) 1) (upd_node i n s))"
| ask_vote:
    "sy_election s i = EAsk r (p # ps) v \<Longrightarrow>
     transport_RequestVote (sy_reg s) p r (sy_nodes s) = (resp, ns) \<Longrightarrow>
     election_step i s (upd_election i (EGot r p resp ps v) (s\<lparr>sy_nodes := ns\<rparr>))"
| got_vote:
    "sy_election s i = EGot r p resp ps v \<Longrightarrow>
     election_response (rv_term r) v resp (sy_nodes s i) = (n, v', go_on) \<Longrightarrow>
     election_step i s (upd_election i (if go_on then EAsk r ps v' else EIdle) (upd_node i n s))"
| election_over:
    "sy_election s i = EAsk r [] v \<Longrightarrow> election_step i s (upd_election i EIdle s)"
| election_exit:
    "sy_election s i = EIdle \<Longrightarrow> i \<notin> sy_running s \<Longrightarrow> election_step i s (upd_election i EStopped s)"

inductive heartbeat_step :: "int \<Rightarrow> raft_sys \<Rightarrow> raft_sys \<Rightarrow> bool" for i where
  heartbeat_start:
    "sy_heartbeat s i = HIdle \<Longrightarrow> rn_role (sy_nodes s i) = Leader \<Longrightarrow>
     heartbeat_step i s (upd_heartbeat i (HPeers (rn_peers (sy_nodes s i))) s)"
| heartbeat_build:
    "sy_heartbeat s i = HPeers (p # ps) \<Longrightarrow>
     pc = (case heartbeat_request p (sy_nodes s i) of None \<Rightarrow> HIdle | Some req \<Rightarrow> HSend p req ps) \<Longrightarrow>
     heartbeat_step i s (upd_heartbeat i pc s)"
| heartbeat_end:
    "sy_heartbeat s i = HPeers [] \<Longrightarrow> heartbeat_step i s (upd_heartbeat i HIdle s)"
| heartbeat_send:
    "sy_heartbeat s i = HSend p req ps \<Longrightarrow>
     transport_AppendEntries (sy_reg s) p req (sy_nodes s) = (resp, ns) \<Longrightarrow>
     heartbeat_step i s (upd_heartbeat i (HGot p req resp ps) (s\<lparr>sy_nodes := ns\<rparr>))"
| heartbeat_got:
    "sy_heartbeat s i = HGot p req resp ps \<Longrightarrow>
     heartbeat_response p req resp (sy_nodes s i) = (go_on, n) \<Longrightarrow>
     heartbeat_step i s (upd_heartbeat i (if go_on then HPeers ps else HIdle) (upd_node i n s))"
| heartbeat_exit:
    "sy_heartbeat s i = HIdle \<Longrightarrow> i \<notin> sy_running s \<Longrightarrow> heartbeat_step i s (upd_heartbeat i HStopped s)"

text \<open>A client thread \<open>c\<close> in \<^verbatim>\<open>ProposePut\<close> or \<^verbatim>\<open>ProposeDel\<close> of node \<open>i\<close>.\<close>

inductive propose_step :: "int \<Rightarrow> nat \<Rightarrow> raft_sys \<Rightarrow> raft_sys \<Rightarrow> bool" for i c where
  propose_begin:
    "sy_propose s i c = PIdle \<Longrightarrow> propose_append op key val (sy_nodes s i) = Some (e, n) \<Longrightarrow>
     propose_step i c s (upd_propose i c (PAppended e) (upd_node i n s))"
| propose_refuse:
    "sy_propose s i c = PIdle \<Longrightarrow> propose_append op key val (sy_nodes s i) = None \<Longrightarrow>
     propose_step i c s (upd_propose i c (PDone False) s)"
| propose_read:
    "sy_propose s i c = PAppended e \<Longrightarrow>
     propose_step i c s
       (upd_propose i c (PSend (propose_request e (sy_nodes s i)) (rn_peers (sy_nodes s i)) 1) s)"
| propose_send:
    "sy_propose s i c = PSend req (p # ps) acks \<Longrightarrow>
     transport_AppendEntries (sy_reg s) p req (sy_nodes s) = (resp, ns) \<Longrightarrow>
     propose_step i c s (upd_propose i c (PGot req resp ps acks) (s\<lparr>sy_nodes := ns\<rparr>))"
| propose_got:
    "sy_propose s i c = PGot req resp ps acks \<Longrightarrow>
     propose_response acks resp (sy_nodes s i) = (nx, n) \<Longrightarrow>
     pc = (case nx of PFail \<Rightarrow> PDone False | PMore a \<Rightarrow> PSend req ps a | PEnough a \<Rightarrow> PCommit) \<Longrightarrow>
     propose_step i c s (upd_propose i c pc (upd_node i n s))"
| propose_asked_all:
    "sy_propose s i c = PSend req [] acks \<Longrightarrow>
     pc = (if acks < needed (sy_nodes s i) then PDone False else PCommit) \<Longrightarrow>
     propose_step i c s (upd_propose i c pc s)"
| propose_commit:
    "sy_propose s i c = PCommit \<Longrightarrow>
     propose_step i c s
       (upd_propose i c (PBeat (propose_heartbeat (sy_nodes s i)) (rn_peers (sy_nodes s i))) s)"
| propose_beat:
    "sy_propose s i c = PBeat req (p # ps) \<Longrightarrow>
     transport_AppendEntries (sy_reg s) p req (sy_nodes s) = (resp, ns) \<Longrightarrow>
     propose_step i c s (upd_propose i c (PBeatGot req resp ps) (s\<lparr>sy_nodes := ns\<rparr>))"
| propose_beat_got:
    "sy_propose s i c = PBeatGot req resp ps \<Longrightarrow>
     heartbeat_answer resp (sy_nodes s i) = (go_on, n) \<Longrightarrow>
     propose_step i c s (upd_propose i c (if go_on then PBeat req ps else PDone True) (upd_node i n s))"
| propose_beat_end:
    "sy_propose s i c = PBeat req [] \<Longrightarrow> propose_step i c s (upd_propose i c (PDone True) s)"
| propose_return:
    "sy_propose s i c = PDone b \<Longrightarrow> propose_step i c s (upd_propose i c PIdle s)"

inductive apply_step :: "int \<Rightarrow> raft_sys \<Rightarrow> raft_sys \<Rightarrow> bool" for i where
  apply_next_entry:
    "sy_apply s i = AIdle \<Longrightarrow> apply_take (sy_nodes s i) = ApplyEntry e n \<Longrightarrow>
     apply_step i s (upd_apply i (AGot e) (upd_node i n s))"
| apply_undefined:
    "sy_apply s i = AIdle \<Longrightarrow> apply_take (sy_nodes s i) = ApplyOutOfBounds \<Longrightarrow>
     apply_step i s (upd_apply i AUndefined s)"
| apply_to_sm:
    "sy_apply s i = AGot e \<Longrightarrow>
     apply_step i s (upd_apply i AIdle (s\<lparr>sy_sm := (sy_sm s)(i := apply_entry e (sy_sm s i))\<rparr>))"
| apply_exit:
    "sy_apply s i = AIdle \<Longrightarrow> i \<notin> sy_running s \<Longrightarrow> apply_step i s (upd_apply i AStopped s)"

text \<open>
  \<^verbatim>\<open>Start\<close> does nothing on a node that runs; otherwise it makes three threads, which is an error
  unless those of an earlier run have ended.  \<^verbatim>\<open>Stop\<close> clears the flag and then waits for the
  threads; the waiting is not a step.
\<close>

definition threads_ended :: "int \<Rightarrow> raft_sys \<Rightarrow> bool" where
  "threads_ended i s \<longleftrightarrow> sy_election s i = EStopped \<and> sy_heartbeat s i = HStopped \<and> sy_apply s i = AStopped"

definition raft_start :: "int \<Rightarrow> raft_sys \<Rightarrow> raft_sys" where
  "raft_start i s =
     (if i \<in> sy_running s then s
      else upd_apply i AIdle (upd_heartbeat i HIdle (upd_election i EIdle
             (s\<lparr>sy_running := insert i (sy_running s)\<rparr>))))"

definition raft_stop :: "int \<Rightarrow> raft_sys \<Rightarrow> raft_sys" where
  "raft_stop i s = s\<lparr>sy_running := sy_running s - {i}\<rparr>"

lemma raft_start_stop_nodes [simp]:
  "sy_nodes (raft_start i s) = sy_nodes s" "sy_nodes (raft_stop i s) = sy_nodes s"
  "sy_propose (raft_start i s) = sy_propose s" "sy_propose (raft_stop i s) = sy_propose s"
  "sy_election (raft_stop i s) = sy_election s" "sy_heartbeat (raft_stop i s) = sy_heartbeat s"
  by (simp_all add: raft_start_def raft_stop_def)

lemma raft_start_election: "sy_election (raft_start i s) j \<in> {sy_election s j, EIdle}"
  and raft_start_heartbeat: "sy_heartbeat (raft_start i s) j \<in> {sy_heartbeat s j, HIdle}"
  by (simp_all add: raft_start_def)

inductive raft_step :: "int set \<Rightarrow> raft_sys \<Rightarrow> raft_sys \<Rightarrow> bool" for M where
  step_election: "i \<in> M \<Longrightarrow> election_step i s s' \<Longrightarrow> raft_step M s s'"
| step_heartbeat: "i \<in> M \<Longrightarrow> heartbeat_step i s s' \<Longrightarrow> raft_step M s s'"
| step_propose: "i \<in> M \<Longrightarrow> propose_step i c s s' \<Longrightarrow> raft_step M s s'"
| step_apply: "i \<in> M \<Longrightarrow> apply_step i s s' \<Longrightarrow> raft_step M s s'"
| step_register: "i \<in> M \<Longrightarrow> raft_step M s (s\<lparr>sy_reg := transport_register (sy_nodes s i) (sy_reg s)\<rparr>)"
| step_unregister: "i \<in> M \<Longrightarrow> raft_step M s (s\<lparr>sy_reg := transport_unregister i (sy_reg s)\<rparr>)"
| step_start: "i \<in> M \<Longrightarrow> i \<in> sy_running s \<or> threads_ended i s \<Longrightarrow> raft_step M s (raft_start i s)"
| step_stop: "i \<in> M \<Longrightarrow> raft_step M s (raft_stop i s)"

text \<open>
  Every member knows all the others, as the demo programs set the cluster up; no node
  is registered or started yet.
\<close>

definition raft_init :: "int set \<Rightarrow> raft_sys \<Rightarrow> bool" where
  "raft_init M s \<longleftrightarrow> finite M \<and>
     (\<forall>i \<in> M. \<exists>ps. sy_nodes s i = raft_new i ps \<and> distinct ps \<and> set ps = M - {i}) \<and>
     sy_reg s = {} \<and> sy_running s = {} \<and> (\<forall>i. threads_ended i s \<and> (\<forall>c. sy_propose s i c = PIdle))"

inductive raft_reachable :: "int set \<Rightarrow> raft_sys \<Rightarrow> bool" for M where
  reach_init: "raft_init M s \<Longrightarrow> raft_reachable M s"
| reach_step: "raft_reachable M s \<Longrightarrow> raft_step M s s' \<Longrightarrow> raft_reachable M s'"

subsection \<open>Restarting a node\<close>

text \<open>
  The restart of \<^verbatim>\<open>src/src/raft_demo.cpp\<close>: a node that was stopped and taken from the
  transport is replaced by a new object with the same id, peers and store.
\<close>

definition raft_restart :: "int \<Rightarrow> raft_sys \<Rightarrow> raft_sys" where
  "raft_restart i s = upd_node i (raft_new i (rn_peers (sy_nodes s i))) s"

definition may_restart :: "int \<Rightarrow> raft_sys \<Rightarrow> bool" where
  "may_restart i s \<longleftrightarrow> i \<notin> sy_running s \<and> threads_ended i s \<and> i \<notin> sy_reg s \<and> (\<forall>c. sy_propose s i c = PIdle)"

inductive restart_reachable :: "int set \<Rightarrow> raft_sys \<Rightarrow> bool" for M where
  restart_init: "raft_init M s \<Longrightarrow> restart_reachable M s"
| restart_step: "restart_reachable M s \<Longrightarrow> raft_step M s s' \<Longrightarrow> restart_reachable M s'"
| restart_node: "restart_reachable M s \<Longrightarrow> i \<in> M \<Longrightarrow> may_restart i s \<Longrightarrow> restart_reachable M (raft_restart i s)"

end
