(* ===== verification/Raft_Election.thy ===== *)
theory Raft_Election
  imports Raft_Steps
begin

text \<open>
  Election safety.  In all interleavings of the threads of all nodes, with nodes coming
  and going at the transport, no term has two leaders.  The proof follows the votes: a node
  votes at most once in a term, a vote that is counted was cast, and two majorities share
  a node.
\<close>

subsection \<open>How one node changes\<close>

text \<open>Identity and peers stay; a term never goes down; within a term a vote stays.\<close>

definition node_step :: "RaftNode \<Rightarrow> RaftNode \<Rightarrow> bool" where
  "node_step n n' \<longleftrightarrow> rn_id n' = rn_id n \<and> rn_peers n' = rn_peers n \<and>
     (rn_term n < rn_term n' \<or>
      rn_term n = rn_term n' \<and> (rn_voted_for n = None \<or> rn_voted_for n' = rn_voted_for n))"

text \<open>A leader after the step was leader of the same term before.\<close>

definition no_new_leader :: "RaftNode \<Rightarrow> RaftNode \<Rightarrow> bool" where
  "no_new_leader n n' \<longleftrightarrow> (rn_role n' = Leader \<longrightarrow> rn_role n = Leader \<and> rn_term n' = rn_term n)"

named_theorems node_simps

lemma node_step_refl [simp, node_simps]: "node_step n n"
  and no_new_leader_refl [simp, node_simps]: "no_new_leader n n"
  by (simp_all add: node_step_def no_new_leader_def)

lemma BecomeFollower_step [node_simps]:
  "rn_term n < t \<Longrightarrow> node_step n (BecomeFollowerLocked t l n)"
  "no_new_leader n (BecomeFollowerLocked t l n)"
  by (simp_all add: node_step_def no_new_leader_def BecomeFollowerLocked_def)

lemma term_less_Suc: "(t :: u64) \<noteq> - 1 \<Longrightarrow> t < t + 1"
proof -
  assume "t \<noteq> - 1"
  then have "1 + t \<noteq> 0" by (metis add_eq_0_iff minus_equation_iff)
  then have "unat (1 + t) = Suc (unat t)" by (rule unatSuc)
  then show ?thesis by (simp add: word_less_nat_alt add.commute)
qed

lemma BecomeCandidate_step [node_simps]:
  "rn_term n \<noteq> - 1 \<Longrightarrow> node_step n (BecomeCandidateLocked n)"
  "no_new_leader n (BecomeCandidateLocked n)"
  by (simp_all add: node_step_def no_new_leader_def BecomeCandidateLocked_def term_less_Suc)

lemma BecomeLeader_step [node_simps]: "node_step n (BecomeLeaderLocked n)"
  by (simp add: node_step_def BecomeLeaderLocked_def Let_def)

lemma OnRequestVote_step:
  assumes "OnRequestVote req n = (resp, n')"
  shows "node_step n n'" and "no_new_leader n n'"
    and "rvr_vote_granted resp \<Longrightarrow> rn_term n' = rv_term req \<and> rn_voted_for n' = Some (rv_candidate_id req)"
  using assms
  by (auto simp: OnRequestVote_def node_step_def no_new_leader_def BecomeFollowerLocked_def Let_def
      not_less split: if_splits)

lemma OnAppendEntries_step:
  assumes "OnAppendEntries req n = (resp, n')"
  shows "node_step n n'" and "no_new_leader n n'"
  using assms
  by (auto simp: OnAppendEntries_def node_step_def no_new_leader_def BecomeFollowerLocked_def Let_def
      split: if_splits)

lemma AdvanceCommit_fields [simp]:
  "rn_id (AdvanceCommitIndexLocked n) = rn_id n" "rn_peers (AdvanceCommitIndexLocked n) = rn_peers n"
  "rn_term (AdvanceCommitIndexLocked n) = rn_term n" "rn_role (AdvanceCommitIndexLocked n) = rn_role n"
  "rn_voted_for (AdvanceCommitIndexLocked n) = rn_voted_for n" "rn_log (AdvanceCommitIndexLocked n) = rn_log n"
  by (simp_all add: AdvanceCommitIndexLocked_def Let_def)

lemma heartbeat_response_step:
  assumes "heartbeat_response p req resp n = (b, n')"
  shows "node_step n n'" and "no_new_leader n n'"
  using assms BecomeFollower_step [of n "aer_term resp" None]
  by (auto simp: heartbeat_response_def node_step_def no_new_leader_def Let_def
      split: if_splits option.splits)

lemma heartbeat_answer_step:
  assumes "heartbeat_answer resp n = (b, n')"
  shows "node_step n n'" and "no_new_leader n n'"
  using assms BecomeFollower_step [of n "aer_term resp" None]
  by (auto simp: heartbeat_answer_def split: if_splits)

lemma propose_response_step:
  assumes "propose_response acks resp n = (nx, n')"
  shows "node_step n n'" and "no_new_leader n n'"
  using assms BecomeFollower_step [of n "aer_term resp" None]
  by (auto simp: propose_response_def Let_def split: if_splits)

lemma propose_append_step:
  assumes "propose_append op k v n = Some (e, n')"
  shows "node_step n n'" and "no_new_leader n n'"
  using assms by (auto simp: propose_append_def node_step_def no_new_leader_def Let_def split: if_splits)

lemma apply_take_step:
  assumes "apply_take n = ApplyEntry e n'"
  shows "node_step n n'" and "no_new_leader n n'"
  using assms by (auto simp: apply_take_def node_step_def no_new_leader_def Let_def split: if_splits)

lemma election_response_step:
  assumes "election_response t v resp n = (n', v', b)"
  shows "node_step n n'"
    and "no_new_leader n n' \<or>
      rn_term n' = t \<and> v' = (if rvr_vote_granted resp then v + 1 else v) \<and> needed n \<le> v'"
    and "b \<Longrightarrow> v' = (if rvr_vote_granted resp then v + 1 else v)"
  using assms BecomeFollower_step [of n "rvr_term resp" None] BecomeLeader_step [of n]
  by (auto simp: election_response_def no_new_leader_def BecomeLeaderLocked_def Let_def split: if_splits)

subsection \<open>The transport\<close>

text \<open>
  What a node relies on when it calls another one (\<^verbatim>\<open>IRaftTransport\<close>): the call either runs the
  peer's handler and returns its answer, or does nothing and returns a refusal.
\<close>

locale raft_transport =
  fixes request_vote :: "int set \<Rightarrow> int \<Rightarrow> RequestVoteReq \<Rightarrow> nodes \<Rightarrow> RequestVoteResp \<times> nodes"
    and append_entries :: "int set \<Rightarrow> int \<Rightarrow> AppendEntriesReq \<Rightarrow> nodes \<Rightarrow> AppendEntriesResp \<times> nodes"
  assumes request_vote_call: "request_vote reg p req ns = (resp, ns') \<Longrightarrow>
      ns' = ns \<and> \<not> rvr_vote_granted resp \<or>
      (\<exists>n. OnRequestVote req (ns p) = (resp, n) \<and> ns' = ns(p := n))"
    and append_entries_call: "append_entries reg p areq ns = (aresp, ns') \<Longrightarrow>
      ns' = ns \<and> \<not> aer_success aresp \<or>
      (\<exists>n. OnAppendEntries areq (ns p) = (aresp, n) \<and> ns' = ns(p := n))"
begin

lemma request_vote_step:
  assumes "request_vote reg p req ns = (resp, ns')"
  shows "node_step (ns v) (ns' v)" and "no_new_leader (ns v) (ns' v)"
    and "rvr_vote_granted resp \<Longrightarrow>
      rn_term (ns' p) = rv_term req \<and> rn_voted_for (ns' p) = Some (rv_candidate_id req)"
  using request_vote_call [OF assms] by (auto dest: OnRequestVote_step)

lemma append_entries_step:
  assumes "append_entries reg p areq ns = (aresp, ns')"
  shows "node_step (ns v) (ns' v)" and "no_new_leader (ns v) (ns' v)"
  using append_entries_call [OF assms] by (auto dest: OnAppendEntries_step)

end

interpretation inproc: raft_transport transport_RequestVote transport_AppendEntries
  by unfold_locales
    (auto simp: transport_RequestVote_def transport_AppendEntries_def split: if_splits prod.splits)

subsection \<open>One step of the cluster\<close>

lemma fun_upd_all: "P (f i) x \<Longrightarrow> (\<And>v. P (f v) (f v)) \<Longrightarrow> P (f v) ((f(i := x)) v)"
  by simp

lemma election_step_nodes: "election_step i s s' \<Longrightarrow> node_step (sy_nodes s v) (sy_nodes s' v)"
proof (induction rule: election_step.induct)
  case (start_election s n)
  then show ?case by (simp add: BecomeCandidate_step)
next
  case (ask_vote s r p ps v resp ns)
  then show ?case by (simp add: inproc.request_vote_step)
next
  case (got_vote s r p resp ps v n v' go_on)
  then show ?case using election_response_step(1) by simp
qed simp_all

lemma heartbeat_step_nodes:
  "heartbeat_step i s s' \<Longrightarrow> node_step (sy_nodes s v) (sy_nodes s' v) \<and>
     no_new_leader (sy_nodes s v) (sy_nodes s' v) \<and> sy_election s' = sy_election s"
proof (induction rule: heartbeat_step.induct)
  case (heartbeat_send s p req ps resp ns)
  then show ?case by (simp add: inproc.append_entries_step)
next
  case (heartbeat_got s p req resp ps go_on n)
  then show ?case using heartbeat_response_step by simp
qed simp_all

lemma propose_step_nodes:
  "propose_step i c s s' \<Longrightarrow> node_step (sy_nodes s v) (sy_nodes s' v) \<and>
     no_new_leader (sy_nodes s v) (sy_nodes s' v) \<and> sy_election s' = sy_election s"
proof (induction rule: propose_step.induct)
  case (propose_begin s op key val e n)
  then show ?case using propose_append_step by simp
next
  case (propose_send s req p ps acks resp ns)
  then show ?case by (simp add: inproc.append_entries_step)
next
  case (propose_got s req resp ps acks nx n pc)
  then show ?case using propose_response_step by simp
next
  case (propose_beat s req p ps resp ns)
  then show ?case by (simp add: inproc.append_entries_step)
next
  case (propose_beat_got s req resp ps go_on n)
  then show ?case using heartbeat_answer_step by simp
qed simp_all

lemma apply_step_nodes:
  "apply_step i s s' \<Longrightarrow> node_step (sy_nodes s v) (sy_nodes s' v) \<and>
     no_new_leader (sy_nodes s v) (sy_nodes s' v) \<and> sy_election s' = sy_election s"
proof (induction rule: apply_step.induct)
  case (apply_next_entry s e n)
  then show ?case using apply_take_step by simp
qed simp_all

lemma raft_step_nodes: "raft_step M s s' \<Longrightarrow> node_step (sy_nodes s v) (sy_nodes s' v)"
  by (induction rule: raft_step.induct)
    (simp_all add: election_step_nodes heartbeat_step_nodes propose_step_nodes apply_step_nodes)

text \<open>Everything but the election thread leaves the elections alone and makes no leader.\<close>

lemma raft_step_cases:
  assumes "raft_step M s s'"
  obtains (election) i where "i \<in> M" "election_step i s s'"
  | (other) "\<And>v. sy_election s' v \<in> {sy_election s v, EIdle}" "\<And>v. no_new_leader (sy_nodes s v) (sy_nodes s' v)"
  using assms
proof (cases rule: raft_step.cases)
  case (step_heartbeat i)
  with heartbeat_step_nodes show thesis by (intro other) auto
next
  case (step_propose i c)
  with propose_step_nodes show thesis by (intro other) auto
next
  case (step_apply i)
  with apply_step_nodes show thesis by (intro other) auto
next
  case (step_start i)
  with raft_start_election show thesis by (intro other) auto
qed (auto intro: election other)

subsection \<open>The history of votes\<close>

text \<open>
  A history maps a node and a term to the candidate the node voted for in that term.  It
  is not part of the program; it grows with every step by the votes that nodes hold.
\<close>

type_synonym history = "int \<times> u64 \<rightharpoonup> int"

definition record_votes :: "nodes \<Rightarrow> history \<Rightarrow> history" where
  "record_votes ns h = (\<lambda>(v, t). if rn_term (ns v) = t \<and> rn_voted_for (ns v) \<noteq> None
     then rn_voted_for (ns v) else h (v, t))"

definition votes_inv :: "nodes \<Rightarrow> history \<Rightarrow> bool" where
  "votes_inv ns h \<longleftrightarrow> (\<forall>v. rn_voted_for (ns v) = h (v, rn_term (ns v)) \<and>
     (\<forall>t. h (v, t) \<noteq> None \<longrightarrow> t \<le> rn_term (ns v)))"

lemma votes_inv_step:
  assumes inv: "votes_inv ns h" and step: "\<And>v. node_step (ns v) (ns' v)"
  shows "votes_inv ns' (record_votes ns' h)"
    and "h (v, t) = Some c \<Longrightarrow> record_votes ns' h (v, t) = Some c"
proof -
  have cur: "rn_voted_for (ns v) = h (v, rn_term (ns v))" and old: "h (v, t) \<noteq> None \<Longrightarrow> t \<le> rn_term (ns v)"
    for v t using inv by (auto simp: votes_inv_def)
  have mono: "rn_term (ns v) \<le> rn_term (ns' v)" for v
    using step [of v] by (auto simp: node_step_def)
  have none: "h (v, rn_term (ns' v)) = None" if "rn_voted_for (ns' v) = None" for v
  proof (cases "rn_term (ns v) = rn_term (ns' v)")
    case True
    with step [of v] that have "rn_voted_for (ns v) = None" by (auto simp: node_step_def)
    with cur [of v] True show ?thesis by simp
  next
    case False
    with mono [of v] old [of v "rn_term (ns' v)"] show ?thesis by force
  qed
  have le: "t \<le> rn_term (ns' v)" if "h (v, t) = Some c" for v t c
    using old [of v t] mono [of v] that by (auto intro: order_trans)
  show "votes_inv ns' (record_votes ns' h)"
    unfolding votes_inv_def record_votes_def using none le by (auto split: if_splits)
  show "record_votes ns' h (v, t) = Some c" if h: "h (v, t) = Some c"
  proof (cases "rn_term (ns' v) = t \<and> rn_voted_for (ns' v) \<noteq> None")
    case True
    have "t \<le> rn_term (ns v)" using old [of v t] h by simp
    with mono [of v] True have eq: "rn_term (ns v) = t" by simp
    with cur [of v] h have "rn_voted_for (ns v) = Some c" by simp
    with step [of v] eq True have "rn_voted_for (ns' v) = Some c" by (auto simp: node_step_def)
    with True show ?thesis by (simp add: record_votes_def)
  qed (use h in \<open>auto simp: record_votes_def\<close>)
qed

lemma recorded: "rn_term (ns v) = t \<Longrightarrow> rn_voted_for (ns v) = Some c \<Longrightarrow> record_votes ns h (v, t) = Some c"
  by (simp add: record_votes_def)

subsection \<open>Counted votes were cast\<close>

text \<open>The candidate \<open>i\<close> of term \<open>t\<close> counts \<open>v\<close> votes after asking the peers in \<open>asked\<close>.\<close>

definition votes_for :: "history \<Rightarrow> int \<Rightarrow> u64 \<Rightarrow> int list \<Rightarrow> nat \<Rightarrow> bool" where
  "votes_for h i t asked v \<longleftrightarrow>
     (\<exists>V. V \<subseteq> insert i (set asked) \<and> card V = v \<and> (\<forall>x \<in> V. h (x, t) = Some i))"

fun election_inv :: "history \<Rightarrow> int \<Rightarrow> RaftNode \<Rightarrow> election_pc \<Rightarrow> bool" where
  "election_inv h i n EStopped = True"
| "election_inv h i n EIdle = True"
| "election_inv h i n (EAsk r ps v) =
     (rv_candidate_id r = i \<and> (\<exists>asked. rn_peers n = asked @ ps \<and> votes_for h i (rv_term r) asked v))"
| "election_inv h i n (EGot r p resp ps v) =
     (rv_candidate_id r = i \<and> (rvr_vote_granted resp \<longrightarrow> h (p, rv_term r) = Some i) \<and>
      (\<exists>asked. rn_peers n = asked @ p # ps \<and> votes_for h i (rv_term r) asked v))"

definition leader_inv :: "int set \<Rightarrow> history \<Rightarrow> int \<Rightarrow> RaftNode \<Rightarrow> bool" where
  "leader_inv M h i n \<longleftrightarrow> (rn_role n = Leader \<longrightarrow>
     (\<exists>V \<subseteq> M. card M < 2 * card V \<and> (\<forall>x \<in> V. h (x, rn_term n) = Some i)))"

definition member_ok :: "int set \<Rightarrow> int \<Rightarrow> RaftNode \<Rightarrow> bool" where
  "member_ok M i n \<longleftrightarrow> rn_id n = i \<and> distinct (rn_peers n) \<and> set (rn_peers n) = M - {i}"

definition raft_inv :: "int set \<Rightarrow> raft_sys \<Rightarrow> history \<Rightarrow> bool" where
  "raft_inv M s h \<longleftrightarrow> finite M \<and> votes_inv (sy_nodes s) h \<and>
     (\<forall>i \<in> M. member_ok M i (sy_nodes s i) \<and>
        election_inv h i (sy_nodes s i) (sy_election s i) \<and> leader_inv M h i (sy_nodes s i))"

lemma votes_for_mono:
  "votes_for h i t asked v \<Longrightarrow> (\<And>x. h (x, t) = Some i \<Longrightarrow> h' (x, t) = Some i) \<Longrightarrow>
   votes_for h' i t asked v"
  unfolding votes_for_def by blast

lemma votes_for_more:
  assumes "votes_for h i t asked v" and "p \<notin> insert i (set asked)" and "g \<longrightarrow> h (p, t) = Some i"
  shows "votes_for h i t (asked @ [p]) (if g then v + 1 else v)"
proof -
  from assms(1) obtain V where V: "V \<subseteq> insert i (set asked)" "card V = v" "\<forall>x \<in> V. h (x, t) = Some i"
    by (auto simp: votes_for_def)
  have "finite V" using V(1) by (rule finite_subset) simp
  moreover have "p \<notin> V" using V(1) assms(2) by blast
  ultimately have "card (insert p V) = v + 1" using V(2) by simp
  with V assms(3) show ?thesis unfolding votes_for_def
    by (intro exI [of _ "if g then insert p V else V"]) auto
qed

lemma election_inv_mono:
  "election_inv h i n pc \<Longrightarrow> rn_peers n' = rn_peers n \<Longrightarrow>
   (\<And>x t c. h (x, t) = Some c \<Longrightarrow> h' (x, t) = Some c) \<Longrightarrow> election_inv h' i n' pc"
  by (cases pc) (auto elim!: votes_for_mono)

lemma leader_inv_mono:
  "leader_inv M h i n \<Longrightarrow> no_new_leader n n' \<Longrightarrow>
   (\<And>x t c. h (x, t) = Some c \<Longrightarrow> h' (x, t) = Some c) \<Longrightarrow> leader_inv M h' i n'"
  unfolding leader_inv_def no_new_leader_def by metis

lemma member_ok_step: "member_ok M i n \<Longrightarrow> node_step n n' \<Longrightarrow> member_ok M i n'"
  by (simp add: member_ok_def node_step_def)

text \<open>A candidate with the needed votes has a majority of the members.\<close>

lemma votes_majority:
  assumes "votes_for h i t asked v" and "member_ok M i n" and "i \<in> M" and "finite M"
    and "set asked \<subseteq> set (rn_peers n)" and "needed n \<le> v"
  shows "\<exists>V \<subseteq> M. card M < 2 * card V \<and> (\<forall>x \<in> V. h (x, t) = Some i)"
proof -
  from assms(1) obtain V where V: "V \<subseteq> insert i (set asked)" "card V = v" "\<forall>x \<in> V. h (x, t) = Some i"
    by (auto simp: votes_for_def)
  have peers: "length (rn_peers n) = card (M - {i})"
    using assms(2) by (metis member_ok_def distinct_card)
  have "card M = 1 + length (rn_peers n)"
    using assms(3,4) peers by (simp add: card_Diff_singleton card_gt_0_iff) (metis Suc_pred card_gt_0_iff empty_iff)
  with assms(6) V(2) have "card M < 2 * card V" by (simp add: needed_def)
  moreover have "V \<subseteq> M" using V(1) assms(2,3,5) by (auto simp: member_ok_def)
  ultimately show ?thesis using V(3) by blast
qed

lemma majorities_meet:
  assumes "finite M" and "V \<subseteq> M" and "W \<subseteq> M" and "card M < 2 * card V" and "card M < 2 * card W"
  shows "V \<inter> W \<noteq> {}"
proof
  assume "V \<inter> W = {}"
  moreover have "finite V" "finite W" using assms(1-3) by (auto intro: finite_subset)
  ultimately have "card (V \<union> W) = card V + card W" by (simp add: card_Un_disjoint)
  moreover have "card (V \<union> W) \<le> card M" using assms(1-3) by (intro card_mono) auto
  ultimately show False using assms(4,5) by linarith
qed

subsection \<open>The invariant is preserved\<close>

text \<open>The election thread changes only its own program counter, and makes only its own node leader.\<close>

lemma election_step_others:
  "election_step i s s' \<Longrightarrow> j \<noteq> i \<Longrightarrow>
     sy_election s' j = sy_election s j \<and> no_new_leader (sy_nodes s j) (sy_nodes s' j)"
proof (induction rule: election_step.induct)
  case (ask_vote s r p ps v resp ns)
  then show ?case by (simp add: inproc.request_vote_step)
qed simp_all

lemma got_vote_inv:
  assumes inv: "raft_inv M s h" and i: "i \<in> M" and pc: "sy_election s i = EGot r p resp ps v"
    and resp: "election_response (rv_term r) v resp (sy_nodes s i) = (n, v', go_on)"
    and keep: "\<And>x t c. h (x, t) = Some c \<Longrightarrow> h' (x, t) = Some c"
  shows "leader_inv M h' i n" and "go_on \<Longrightarrow> election_inv h' i n (EAsk r ps v')"
proof -
  from inv i have fin: "finite M" and mem: "member_ok M i (sy_nodes s i)"
    and el: "election_inv h i (sy_nodes s i) (sy_election s i)" and ld: "leader_inv M h i (sy_nodes s i)"
    by (auto simp: raft_inv_def)
  note er = election_response_step [OF resp]
  from el pc obtain asked where r: "rv_candidate_id r = i"
    and p: "rvr_vote_granted resp \<longrightarrow> h (p, rv_term r) = Some i"
    and asked: "rn_peers (sy_nodes s i) = asked @ p # ps" "votes_for h i (rv_term r) asked v" by auto
  have fresh: "p \<notin> insert i (set asked)" using mem asked(1) by (auto simp: member_ok_def)
  define g where "g = (if rvr_vote_granted resp then v + 1 else v)"
  have "votes_for h i (rv_term r) (asked @ [p]) g"
    unfolding g_def using asked(2) fresh p by (rule votes_for_more)
  then have vf: "votes_for h' i (rv_term r) (asked @ [p]) g" using keep by (rule votes_for_mono)
  show "leader_inv M h' i n"
    using er(2)
  proof
    assume "no_new_leader (sy_nodes s i) n"
    with ld show ?thesis using keep by (rule leader_inv_mono)
  next
    assume won: "rn_term n = rv_term r \<and> v' = (if rvr_vote_granted resp then v + 1 else v) \<and>
      needed (sy_nodes s i) \<le> v'"
    have "\<exists>V \<subseteq> M. card M < 2 * card V \<and> (\<forall>x \<in> V. h' (x, rv_term r) = Some i)"
      by (rule votes_majority [OF vf mem i fin]) (use asked(1) won in \<open>auto simp: g_def\<close>)
    with won show ?thesis by (simp add: leader_inv_def)
  qed
  have "rn_peers n = (asked @ [p]) @ ps" using er(1) asked(1) by (simp add: node_step_def)
  moreover have "go_on \<Longrightarrow> v' = g" using er(3) by (simp add: g_def)
  ultimately show "go_on \<Longrightarrow> election_inv h' i n (EAsk r ps v')" using vf r by auto
qed

lemma election_step_self:
  assumes step: "election_step i s s'" and i: "i \<in> M" and inv: "raft_inv M s h"
    and h': "h' = record_votes (sy_nodes s') h"
    and keep: "\<And>x t c. h (x, t) = Some c \<Longrightarrow> h' (x, t) = Some c"
  shows "election_inv h' i (sy_nodes s' i) (sy_election s' i) \<and> leader_inv M h' i (sy_nodes s' i)"
proof -
  from inv i have mem: "member_ok M i (sy_nodes s i)"
    and el: "election_inv h i (sy_nodes s i) (sy_election s i)" and ld: "leader_inv M h i (sy_nodes s i)"
    by (auto simp: raft_inv_def)
  from step show ?thesis
  proof (cases rule: election_step.cases)
    case (start_election n)
    have "rn_voted_for n = Some i" "rn_term n = rv_term (vote_request n)" "rv_candidate_id (vote_request n) = i"
      "rn_role n = Candidate"
      using mem start_election(5) by (simp_all add: BecomeCandidateLocked_def vote_request_def member_ok_def)
    moreover from this have "h' (i, rv_term (vote_request n)) = Some i"
      unfolding h' by (intro recorded) (simp_all add: start_election(1))
    then have "votes_for h' i (rv_term (vote_request n)) [] 1"
      unfolding votes_for_def by (intro exI [of _ "{i}"]) simp
    ultimately show ?thesis by (simp add: start_election(1) leader_inv_def)
  next
    case (ask_vote r p ps v resp ns)
    note rv = inproc.request_vote_step [OF ask_vote(3)]
    from el ask_vote(2) obtain asked where r: "rv_candidate_id r = i"
      and asked: "rn_peers (sy_nodes s i) = asked @ p # ps" "votes_for h i (rv_term r) asked v" by auto
    have "h' (p, rv_term r) = Some i" if "rvr_vote_granted resp"
      unfolding h' using rv(3) [OF that] r by (intro recorded) (simp_all add: ask_vote(1))
    moreover have "rn_peers (ns i) = asked @ p # ps" using rv(1) [of i] asked(1) by (simp add: node_step_def)
    moreover have "votes_for h' i (rv_term r) asked v" using asked(2) keep by (rule votes_for_mono)
    moreover have "leader_inv M h' i (ns i)" using ld rv(2) keep by (rule leader_inv_mono)
    ultimately show ?thesis using r by (simp add: ask_vote(1))
  next
    case (got_vote r p resp ps v n v' go_on)
    with got_vote_inv [OF inv i got_vote(2,3), of h'] keep show ?thesis by auto
  next
    case (election_over r v)
    with ld keep show ?thesis by (auto intro: leader_inv_mono)
  next
    case election_exit
    with ld keep show ?thesis by (auto intro: leader_inv_mono)
  qed
qed

lemma raft_inv_step:
  assumes inv: "raft_inv M s h" and step: "raft_step M s s'"
  shows "raft_inv M s' (record_votes (sy_nodes s') h)"
proof -
  define h' where "h' = record_votes (sy_nodes s') h"
  have vi: "votes_inv (sy_nodes s) h" using inv by (simp add: raft_inv_def)
  note ns = raft_step_nodes [OF step]
  have vi': "votes_inv (sy_nodes s') h'" unfolding h'_def by (rule votes_inv_step(1) [OF vi ns])
  have keep: "h' (x, t) = Some c" if "h (x, t) = Some c" for x t c
    unfolding h'_def by (rule votes_inv_step(2) [OF vi ns that])
  have mem: "member_ok M j (sy_nodes s' j)" if "j \<in> M" for j
    using inv that ns by (auto simp: raft_inv_def intro: member_ok_step)
  have same: "election_inv h' j (sy_nodes s' j) (sy_election s' j) \<and> leader_inv M h' j (sy_nodes s' j)"
    if "j \<in> M" "sy_election s' j \<in> {sy_election s j, EIdle}" "no_new_leader (sy_nodes s j) (sy_nodes s' j)" for j
  proof -
    from inv that(1) have "election_inv h j (sy_nodes s j) (sy_election s j)" "leader_inv M h j (sy_nodes s j)"
      by (auto simp: raft_inv_def)
    moreover have "rn_peers (sy_nodes s' j) = rn_peers (sy_nodes s j)" using ns by (simp add: node_step_def)
    ultimately show ?thesis using that(2,3) keep by (auto intro: election_inv_mono leader_inv_mono)
  qed
  from step have "election_inv h' j (sy_nodes s' j) (sy_election s' j) \<and> leader_inv M h' j (sy_nodes s' j)"
    if "j \<in> M" for j
  proof (cases rule: raft_step_cases)
    case (election i)
    show ?thesis
    proof (cases "j = i")
      case True
      with election_step_self [OF election(2,1) inv h'_def keep] show ?thesis by simp
    next
      case False
      with election_step_others [OF election(2)] same that show ?thesis by blast
    qed
  next
    case other
    with same that show ?thesis by blast
  qed
  with vi' mem inv show ?thesis by (simp add: raft_inv_def h'_def)
qed

lemma raft_inv_init: "raft_init M s \<Longrightarrow> votes_inv (sy_nodes s) h \<Longrightarrow> raft_inv M s h"
  by (auto simp: raft_inv_def raft_init_def member_ok_def leader_inv_def raft_new_def threads_ended_def)

end
