(* ===== verification/Raft_Exec.thy ===== *)
theory Raft_Exec
  imports Raft_Election
begin

text \<open>
  A scheduler for the cluster.  The step relation says what may happen next; here an action
  names one of these steps, and running an action computes the state it leads to.  The
  scheduler and the step relation agree, so a list of actions that runs is a run of the
  cluster, and the reachability of a state can be shown by computation.
\<close>

datatype raft_action =
    Register int
  | Unregister int
  | StartNode int
  | StopNode int
  | Elect int
  | ElectExit int
  | Beat int
  | BeatExit int
  | Propose int nat OpType string string
  | ProposeNext int nat
  | Apply int
  | ApplyExit int

fun action_node :: "raft_action \<Rightarrow> int" where
  "action_node (Register i) = i"
| "action_node (Unregister i) = i"
| "action_node (StartNode i) = i"
| "action_node (StopNode i) = i"
| "action_node (Elect i) = i"
| "action_node (ElectExit i) = i"
| "action_node (Beat i) = i"
| "action_node (BeatExit i) = i"
| "action_node (Propose i c op k v) = i"
| "action_node (ProposeNext i c) = i"
| "action_node (Apply i) = i"
| "action_node (ApplyExit i) = i"

definition exec_elect :: "int \<Rightarrow> raft_sys \<Rightarrow> raft_sys option" where
  "exec_elect i s =
     (case sy_election s i of
        EStopped \<Rightarrow> None
      | EIdle \<Rightarrow>
          if rn_role (sy_nodes s i) \<noteq> Leader \<and> rn_term (sy_nodes s i) \<noteq> - 1
          then let n = BecomeCandidateLocked (sy_nodes s i)
               in Some (upd_election i (EAsk (vote_request n) (rn_peers n) 1) (upd_node i n s))
          else None
      | EAsk r [] v \<Rightarrow> Some (upd_election i EIdle s)
      | EAsk r (p # ps) v \<Rightarrow>
          let (resp, ns) = transport_RequestVote (sy_reg s) p r (sy_nodes s)
          in Some (upd_election i (EGot r p resp ps v) (s\<lparr>sy_nodes := ns\<rparr>))
      | EGot r p resp ps v \<Rightarrow>
          let (n, v', go_on) = election_response (rv_term r) v resp (sy_nodes s i)
          in Some (upd_election i (if go_on then EAsk r ps v' else EIdle) (upd_node i n s)))"

definition exec_beat :: "int \<Rightarrow> raft_sys \<Rightarrow> raft_sys option" where
  "exec_beat i s =
     (case sy_heartbeat s i of
        HStopped \<Rightarrow> None
      | HIdle \<Rightarrow>
          if rn_role (sy_nodes s i) = Leader
          then Some (upd_heartbeat i (HPeers (rn_peers (sy_nodes s i))) s) else None
      | HPeers [] \<Rightarrow> Some (upd_heartbeat i HIdle s)
      | HPeers (p # ps) \<Rightarrow>
          Some (upd_heartbeat i
            (case heartbeat_request p (sy_nodes s i) of None \<Rightarrow> HIdle | Some req \<Rightarrow> HSend p req ps) s)
      | HSend p req ps \<Rightarrow>
          let (resp, ns) = transport_AppendEntries (sy_reg s) p req (sy_nodes s)
          in Some (upd_heartbeat i (HGot p req resp ps) (s\<lparr>sy_nodes := ns\<rparr>))
      | HGot p req resp ps \<Rightarrow>
          let (go_on, n) = heartbeat_response p req resp (sy_nodes s i)
          in Some (upd_heartbeat i (if go_on then HPeers ps else HIdle) (upd_node i n s)))"

definition exec_propose :: "int \<Rightarrow> nat \<Rightarrow> OpType \<Rightarrow> string \<Rightarrow> string \<Rightarrow> raft_sys \<Rightarrow> raft_sys option" where
  "exec_propose i c op k v s =
     (if sy_propose s i c = PIdle
      then Some (case propose_append op k v (sy_nodes s i) of
                   None \<Rightarrow> upd_propose i c (PDone False) s
                 | Some (e, n) \<Rightarrow> upd_propose i c (PAppended e) (upd_node i n s))
      else None)"

definition exec_next :: "int \<Rightarrow> nat \<Rightarrow> raft_sys \<Rightarrow> raft_sys option" where
  "exec_next i c s =
     (case sy_propose s i c of
        PIdle \<Rightarrow> None
      | PAppended e \<Rightarrow>
          Some (upd_propose i c (PSend (propose_request e (sy_nodes s i)) (rn_peers (sy_nodes s i)) 1) s)
      | PSend req [] acks \<Rightarrow>
          Some (upd_propose i c (if acks < needed (sy_nodes s i) then PDone False else PCommit) s)
      | PSend req (p # ps) acks \<Rightarrow>
          let (resp, ns) = transport_AppendEntries (sy_reg s) p req (sy_nodes s)
          in Some (upd_propose i c (PGot req resp ps acks) (s\<lparr>sy_nodes := ns\<rparr>))
      | PGot req resp ps acks \<Rightarrow>
          let (nx, n) = propose_response acks resp (sy_nodes s i)
          in Some (upd_propose i c
               (case nx of PFail \<Rightarrow> PDone False | PMore a \<Rightarrow> PSend req ps a | PEnough a \<Rightarrow> PCommit)
               (upd_node i n s))
      | PCommit \<Rightarrow>
          Some (upd_propose i c (PBeat (propose_heartbeat (sy_nodes s i)) (rn_peers (sy_nodes s i))) s)
      | PBeat req [] \<Rightarrow> Some (upd_propose i c (PDone True) s)
      | PBeat req (p # ps) \<Rightarrow>
          let (resp, ns) = transport_AppendEntries (sy_reg s) p req (sy_nodes s)
          in Some (upd_propose i c (PBeatGot req resp ps) (s\<lparr>sy_nodes := ns\<rparr>))
      | PBeatGot req resp ps \<Rightarrow>
          let (go_on, n) = heartbeat_answer resp (sy_nodes s i)
          in Some (upd_propose i c (if go_on then PBeat req ps else PDone True) (upd_node i n s))
      | PDone b \<Rightarrow> Some (upd_propose i c PIdle s))"

definition exec_apply :: "int \<Rightarrow> raft_sys \<Rightarrow> raft_sys option" where
  "exec_apply i s =
     (case sy_apply s i of
        AIdle \<Rightarrow>
          (case apply_take (sy_nodes s i) of
             ApplyNothing \<Rightarrow> None
           | ApplyEntry e n \<Rightarrow> Some (upd_apply i (AGot e) (upd_node i n s))
           | ApplyOutOfBounds \<Rightarrow> Some (upd_apply i AUndefined s))
      | AGot e \<Rightarrow>
          Some (upd_apply i AIdle (s\<lparr>sy_sm := (sy_sm s)(i := apply_entry e (sy_sm s i))\<rparr>))
      | _ \<Rightarrow> None)"

fun exec_action :: "raft_action \<Rightarrow> raft_sys \<Rightarrow> raft_sys option" where
  "exec_action (Register i) s = Some (s\<lparr>sy_reg := transport_register (sy_nodes s i) (sy_reg s)\<rparr>)"
| "exec_action (Unregister i) s = Some (s\<lparr>sy_reg := transport_unregister i (sy_reg s)\<rparr>)"
| "exec_action (StartNode i) s =
     (if i \<in> sy_running s \<or> threads_ended i s then Some (raft_start i s) else None)"
| "exec_action (StopNode i) s = Some (raft_stop i s)"
| "exec_action (Elect i) s = exec_elect i s"
| "exec_action (ElectExit i) s =
     (if sy_election s i = EIdle \<and> i \<notin> sy_running s then Some (upd_election i EStopped s) else None)"
| "exec_action (Beat i) s = exec_beat i s"
| "exec_action (BeatExit i) s =
     (if sy_heartbeat s i = HIdle \<and> i \<notin> sy_running s then Some (upd_heartbeat i HStopped s) else None)"
| "exec_action (Propose i c op k v) s = exec_propose i c op k v s"
| "exec_action (ProposeNext i c) s = exec_next i c s"
| "exec_action (Apply i) s = exec_apply i s"
| "exec_action (ApplyExit i) s =
     (if sy_apply s i = AIdle \<and> i \<notin> sy_running s then Some (upd_apply i AStopped s) else None)"

fun raft_run :: "raft_action list \<Rightarrow> raft_sys \<Rightarrow> raft_sys option" where
  "raft_run [] s = Some s"
| "raft_run (a # as) s = (case exec_action a s of None \<Rightarrow> None | Some s' \<Rightarrow> raft_run as s')"

subsection \<open>The scheduler and the step relation agree\<close>

lemmas step_intros =
  election_step.intros [simplified] heartbeat_step.intros [simplified]
  propose_step.intros [simplified] apply_step.intros [simplified]
  got_vote [where go_on = True, simplified] got_vote [where go_on = False, simplified]
  heartbeat_got [where go_on = True, simplified] heartbeat_got [where go_on = False, simplified]
  propose_beat_got [where go_on = True, simplified] propose_beat_got [where go_on = False, simplified]

lemma exec_elect_step: "exec_elect i s = Some s' \<Longrightarrow> election_step i s s'"
  unfolding exec_elect_def
  by (auto simp: Let_def split: election_pc.splits list.splits if_splits prod.splits
      intro: step_intros)

lemma exec_beat_step: "exec_beat i s = Some s' \<Longrightarrow> heartbeat_step i s s'"
  unfolding exec_beat_def
  by (auto simp: Let_def split: heartbeat_pc.splits list.splits if_splits prod.splits
      intro: step_intros)

lemma exec_propose_step: "exec_propose i c op k v s = Some s' \<Longrightarrow> propose_step i c s s'"
  unfolding exec_propose_def
  by (auto split: option.splits if_splits prod.splits intro: step_intros)

lemma exec_next_step: "exec_next i c s = Some s' \<Longrightarrow> propose_step i c s s'"
  unfolding exec_next_def
  by (auto simp: Let_def split: propose_pc.splits list.splits prod.splits intro: step_intros)

lemma exec_apply_step: "exec_apply i s = Some s' \<Longrightarrow> apply_step i s s'"
  unfolding exec_apply_def
  by (auto split: apply_pc.splits apply_next.splits intro: step_intros)

lemma exec_action_step:
  "exec_action a s = Some s' \<Longrightarrow> action_node a \<in> M \<Longrightarrow> raft_step M s s'"
  by (cases a)
    (auto split: if_splits intro: raft_step.intros step_intros exec_elect_step exec_beat_step exec_propose_step exec_next_step exec_apply_step)

lemma election_step_exec: "election_step i s s' \<Longrightarrow> \<exists>a \<in> {Elect i, ElectExit i}. exec_action a s = Some s'"
  by (induction rule: election_step.induct) (auto simp: exec_elect_def Let_def)

lemma heartbeat_step_exec: "heartbeat_step i s s' \<Longrightarrow> \<exists>a \<in> {Beat i, BeatExit i}. exec_action a s = Some s'"
  by (induction rule: heartbeat_step.induct) (auto simp: exec_beat_def)

lemma apply_step_exec: "apply_step i s s' \<Longrightarrow> \<exists>a \<in> {Apply i, ApplyExit i}. exec_action a s = Some s'"
  by (induction rule: apply_step.induct) (auto simp: exec_apply_def)

lemma propose_step_exec:
  "propose_step i c s s' \<Longrightarrow> \<exists>a. action_node a = i \<and> exec_action a s = Some s'"
proof (induction rule: propose_step.induct)
  case (propose_begin s op key val e n)
  then show ?case by (intro exI [of _ "Propose i c op key val"]) (simp add: exec_propose_def)
next
  case (propose_refuse s op key val)
  then show ?case by (intro exI [of _ "Propose i c op key val"]) (simp add: exec_propose_def)
qed (rule exI [of _ "ProposeNext i c"], simp add: exec_next_def)+

lemma raft_step_exec: "raft_step M s s' \<Longrightarrow> \<exists>a. action_node a \<in> M \<and> exec_action a s = Some s'"
proof (induction rule: raft_step.induct)
  case (step_election i s s')
  then show ?case using election_step_exec [of i s s'] by (metis action_node.simps insert_iff empty_iff)
next
  case (step_heartbeat i s s')
  then show ?case using heartbeat_step_exec [of i s s'] by (metis action_node.simps insert_iff empty_iff)
next
  case (step_propose i c s s')
  then show ?case using propose_step_exec [of i c s s'] by blast
next
  case (step_apply i s s')
  then show ?case using apply_step_exec [of i s s'] by (metis action_node.simps insert_iff empty_iff)
next
  case (step_register i s)
  then show ?case by (intro exI [of _ "Register i"]) simp
next
  case (step_unregister i s)
  then show ?case by (intro exI [of _ "Unregister i"]) simp
next
  case (step_start i s)
  then show ?case by (intro exI [of _ "StartNode i"]) simp
next
  case (step_stop i s)
  then show ?case by (intro exI [of _ "StopNode i"]) simp
qed

lemma raft_run_append: "raft_run (as @ bs) s = (case raft_run as s of None \<Rightarrow> None | Some s' \<Rightarrow> raft_run bs s')"
  by (induction as arbitrary: s) (auto split: option.splits)

lemma raft_run_reachable:
  "raft_reachable M s \<Longrightarrow> raft_run as s = Some s' \<Longrightarrow> list_all (\<lambda>a. action_node a \<in> M) as \<Longrightarrow>
   raft_reachable M s'"
proof (induction as arbitrary: s)
  case (Cons a as)
  then obtain s1 where s1: "exec_action a s = Some s1" "raft_run as s1 = Some s'" by (auto split: option.splits)
  with Cons.prems have "raft_reachable M s1" by (auto intro: reach_step exec_action_step)
  with Cons s1 show ?case by simp
qed simp

lemma raft_run_restart_reachable:
  "restart_reachable M s \<Longrightarrow> raft_run as s = Some s' \<Longrightarrow> list_all (\<lambda>a. action_node a \<in> M) as \<Longrightarrow>
   restart_reachable M s'"
proof (induction as arbitrary: s)
  case (Cons a as)
  then obtain s1 where s1: "exec_action a s = Some s1" "raft_run as s1 = Some s'" by (auto split: option.splits)
  with Cons.prems have "restart_reachable M s1" by (auto intro: restart_step exec_action_step)
  with Cons s1 show ?case by simp
qed simp

lemma reachable_run:
  "raft_reachable M s \<Longrightarrow>
   \<exists>s0 as. raft_init M s0 \<and> list_all (\<lambda>a. action_node a \<in> M) as \<and> raft_run as s0 = Some s"
proof (induction rule: raft_reachable.induct)
  case (reach_init s)
  then show ?case by (intro exI [of _ s] exI [of _ "[]"]) simp
next
  case (reach_step s s')
  then obtain s0 as a where "raft_init M s0" "list_all (\<lambda>a. action_node a \<in> M) as" "raft_run as s0 = Some s"
    "action_node a \<in> M" "exec_action a s = Some s'"
    using raft_step_exec by blast
  then show ?case by (intro exI [of _ s0] exI [of _ "as @ [a]"]) (simp add: raft_run_append)
qed

end
