(* ===== verification/Raft_Ledger.thy ===== *)
theory Raft_Ledger
  imports Raft_Election
begin

text \<open>
  Logs and the requests that replicate them.  A ledger records, for every term, the log of
  the leader of that term; it is not part of the program.  A log agrees with a ledger if
  each entry comes with the whole prefix the leader of its term had there, so two logs
  that agree with one ledger match: this is the log matching property of Raft.
\<close>

text \<open>Logs whose length is a 64-bit number.\<close>

definition log_small :: "RaftNode \<Rightarrow> bool" where
  "log_small n \<longleftrightarrow> length (rn_log n) < 2 ^ 64"

lemma unat_LastLogIndex: "log_small n \<Longrightarrow> unat (LastLogIndexLocked n) = length (rn_log n)"
  unfolding LastLogIndexLocked_def by (rule of_nat_inverse) (simp_all add: log_small_def)

lemma TermAt_nat:
  assumes "log_small n" and "unat p \<le> length (rn_log n)"
  shows "TermAtLocked n p = (if unat p = 0 then 0 else le_term (rn_log n ! (unat p - 1)))"
proof (cases "p = 0")
  case False
  then have "unat (p - 1) = unat p - 1" by (rule unat_minus_one)
  moreover have "\<not> LastLogIndexLocked n < p"
    using assms unat_LastLogIndex [of n] by (simp add: word_less_nat_alt)
  ultimately show ?thesis
    using False by (simp add: TermAtLocked_def LastLogIndexLocked_def unat_eq_0)
qed (simp add: TermAtLocked_def)

subsection \<open>The outcome of a request\<close>

lemma OnAppendEntries_spec:
  assumes "log_small n" and "OnAppendEntries req n = (resp, n')"
    and "matches = (ae_prev_log_index req \<le> LastLogIndexLocked n \<and>
      TermAtLocked n (ae_prev_log_index req) = ae_prev_log_term req)"
  shows "if ae_term req < rn_term n
    then n' = n \<and> resp = \<lparr>aer_term = rn_term n, aer_success = False\<rparr>
    else resp = \<lparr>aer_term = ae_term req, aer_success = matches\<rparr> \<and> rn_term n' = ae_term req \<and>
      rn_role n' = Follower \<and> rn_leader n' = Some (ae_leader_id req) \<and>
      rn_log n' = (if matches \<and> ae_entries req \<noteq> []
        then take (unat (ae_prev_log_index req)) (rn_log n) @ ae_entries req else rn_log n) \<and>
      rn_commit n' = (if matches \<and> rn_commit n < ae_leader_commit req
        then min (ae_leader_commit req) (LastLogIndexLocked n') else rn_commit n)"
proof -
  define n1 where "n1 = (if rn_term n < ae_term req
      then BecomeFollowerLocked (ae_term req) (Some (ae_leader_id req)) n
      else n\<lparr>rn_role := Follower, rn_leader := Some (ae_leader_id req)\<rparr>)"
  have n1: "rn_log n1 = rn_log n" "rn_commit n1 = rn_commit n" "rn_role n1 = Follower"
    "rn_leader n1 = Some (ae_leader_id req)" "LastLogIndexLocked n1 = LastLogIndexLocked n"
    "TermAtLocked n1 i = TermAtLocked n i" for i
    by (simp_all add: n1_def BecomeFollowerLocked_def LastLogIndexLocked_def TermAtLocked_def)
  have t: "rn_term n1 = ae_term req" if "\<not> ae_term req < rn_term n"
    using that by (auto simp: n1_def BecomeFollowerLocked_def)
  have cut: "(if ae_prev_log_index req < LastLogIndexLocked n
      then take (unat (ae_prev_log_index req)) (rn_log n) else rn_log n) =
      take (unat (ae_prev_log_index req)) (rn_log n)"
    if "ae_prev_log_index req \<le> LastLogIndexLocked n"
    using that unat_LastLogIndex [OF assms(1)] by (auto simp: word_le_nat_alt word_less_nat_alt)
  show ?thesis
  proof (cases "ae_term req < rn_term n")
    case True
    with assms(2) show ?thesis by (auto simp: OnAppendEntries_def)
  next
    case False
    with assms(2,3) cut t n1 show ?thesis
      by (auto simp: OnAppendEntries_def n1_def [symmetric] Let_def not_less LastLogIndexLocked_def
          split: if_splits)
  qed
qed

subsection \<open>Logs that agree with a ledger\<close>

type_synonym ledger = "u64 \<Rightarrow> LogEntry list"

definition log_ok :: "ledger \<Rightarrow> LogEntry list \<Rightarrow> bool" where
  "log_ok H l \<longleftrightarrow> (\<forall>k < length l. prefix (take (Suc k) l) (H (le_term (l ! k))))"

lemma log_ok_Nil [simp]: "log_ok H []"
  by (simp add: log_ok_def)

lemma log_ok_take: "log_ok H l \<Longrightarrow> log_ok H (take m l)"
  by (simp add: log_ok_def min_def)

lemma log_ok_grow: "log_ok H l \<Longrightarrow> (\<And>t. prefix (H t) (H' t)) \<Longrightarrow> log_ok H' l"
  unfolding log_ok_def using prefix_order.trans by blast

lemma log_ok_snoc: "log_ok H l \<Longrightarrow> H (le_term e) = l @ [e] \<Longrightarrow> log_ok H (l @ [e])"
  by (auto simp: log_ok_def less_Suc_eq nth_append)

lemma prefix_take: "prefix xs ys \<Longrightarrow> m \<le> length xs \<Longrightarrow> take m ys = take m xs"
  by (auto simp: prefix_def)

lemma log_ok_match:
  assumes "log_ok H l" and "log_ok H l'" and "k < length l" and "k < length l'"
    and "le_term (l ! k) = le_term (l' ! k)"
  shows "take (Suc k) l = take (Suc k) l'"
proof -
  let ?t = "H (le_term (l ! k))"
  have "prefix (take (Suc k) l) ?t" "prefix (take (Suc k) l') ?t"
    using assms by (auto simp: log_ok_def)
  from this [THEN prefix_take, of "Suc k"] assms(3,4) show ?thesis by simp
qed

subsection \<open>Requests that carry a piece of the ledger\<close>

definition append_ok :: "ledger \<Rightarrow> AppendEntriesReq \<Rightarrow> bool" where
  "append_ok H req \<longleftrightarrow>
     (let p = unat (ae_prev_log_index req);
          l = H (ae_term req)
      in ae_entries req \<noteq> [] \<longrightarrow>
           p \<le> length l \<and> prefix (take p l @ ae_entries req) l \<and>
           ae_prev_log_term req = (if p = 0 then 0 else le_term (l ! (p - 1))))"

lemma append_ok_grow:
  assumes "append_ok H req" and "\<And>t. prefix (H t) (H' t)"
  shows "append_ok H' req"
proof -
  obtain z where z: "H' (ae_term req) = H (ae_term req) @ z" using assms(2) by (auto simp: prefix_def)
  with assms(1) show ?thesis
    by (auto simp: append_ok_def Let_def nth_append dest: prefix_prefix)
qed

text \<open>What a leader sends from its own log, in a heartbeat or for a proposal.\<close>

lemma Build_ok:
  assumes "log_small n" and "rn_log n = H (rn_term n)"
  shows "append_ok H (BuildAppendEntriesLocked p n)"
proof -
  define next_ix where "next_ix = (case map_of (rn_next n) p of None \<Rightarrow> 1 | Some i \<Rightarrow> i)"
  define prev where "prev = (if next_ix = 0 \<or> next_ix = 1 then 0 else next_ix - 1)"
  show ?thesis
  proof (cases "1 \<le> next_ix \<and> next_ix \<le> of_nat (length (rn_log n))")
    case True
    then have "next_ix \<noteq> 0" by auto
    then have u: "unat (next_ix - 1) = unat next_ix - 1" by (rule unat_minus_one)
    then have p: "unat prev = unat (next_ix - 1)" by (auto simp: prev_def)
    have "unat next_ix \<le> length (rn_log n)"
      using True unat_LastLogIndex [OF assms(1)] by (simp add: LastLogIndexLocked_def word_le_nat_alt)
    with p u have le: "unat prev \<le> length (rn_log n)" by simp
    with True p show ?thesis
      by (simp add: append_ok_def BuildAppendEntriesLocked_def Let_def next_ix_def [symmetric]
          prev_def [symmetric] TermAt_nat [OF assms(1) le] flip: assms(2))
  next
    case False
    then show ?thesis by (auto simp: append_ok_def BuildAppendEntriesLocked_def Let_def next_ix_def [symmetric])
  qed
qed

lemma propose_request_ok:
  assumes "log_small n" and "rn_log n = H (rn_term n)" and "rn_log n = l @ [e]"
  shows "append_ok H (propose_request e n)"
proof -
  have "LastLogIndexLocked n \<noteq> 0"
    using unat_LastLogIndex [OF assms(1)] assms(3) by (metis append_is_Nil_conv length_0_conv list.discI unat_0)
  then have "unat (LastLogIndexLocked n - 1) = unat (LastLogIndexLocked n) - 1" by (rule unat_minus_one)
  with unat_LastLogIndex [OF assms(1)] assms(3) have u: "unat (LastLogIndexLocked n - 1) = length l" by simp
  moreover from u assms(3) have "unat (LastLogIndexLocked n - 1) \<le> length (rn_log n)" by simp
  ultimately show ?thesis
    using TermAt_nat [OF assms(1)] assms(3)
    by (simp add: append_ok_def propose_request_def Let_def flip: assms(2))
qed

text \<open>A node that accepts such a request has a prefix of the leader's log afterwards.\<close>

lemma accepted_prefix:
  assumes req: "append_ok H req" and led: "log_ok H (H (ae_term req))"
    and n: "log_ok H (rn_log n)" "log_small n" and call: "OnAppendEntries req n = (resp, n')"
    and acc: "aer_success resp" "ae_entries req \<noteq> []"
  shows "take (unat (ae_prev_log_index req)) (rn_log n) = take (unat (ae_prev_log_index req)) (H (ae_term req))"
proof (cases "unat (ae_prev_log_index req) = 0")
  case False
  let ?p = "unat (ae_prev_log_index req)" and ?l = "H (ae_term req)"
  from OnAppendEntries_spec [OF n(2) call refl] acc(1)
  have last: "ae_prev_log_index req \<le> LastLogIndexLocked n"
    and at: "TermAtLocked n (ae_prev_log_index req) = ae_prev_log_term req"
    by (auto split: if_splits)
  have p: "?p \<le> length (rn_log n)" using last unat_LastLogIndex [OF n(2)] by (simp add: word_le_nat_alt)
  have l: "?p \<le> length ?l" "ae_prev_log_term req = le_term (?l ! (?p - 1))"
    using req acc(2) False by (simp_all add: append_ok_def Let_def)
  have "le_term (rn_log n ! (?p - 1)) = le_term (?l ! (?p - 1))"
    using at l(2) TermAt_nat [OF n(2) p] False by simp
  with log_ok_match [OF n(1) led, of "?p - 1"] p l(1) False show ?thesis by simp
qed simp

lemma accepted_log:
  assumes req: "append_ok H req" and led: "log_ok H (H (ae_term req))"
    and n: "log_ok H (rn_log n)" "log_small n" and call: "OnAppendEntries req n = (resp, n')"
    and acc: "aer_success resp" "ae_entries req \<noteq> []"
  shows "prefix (rn_log n') (H (ae_term req))"
    and "length (rn_log n') = unat (ae_prev_log_index req) + length (ae_entries req)"
proof -
  from OnAppendEntries_spec [OF n(2) call refl] acc
  have log': "rn_log n' = take (unat (ae_prev_log_index req)) (rn_log n) @ ae_entries req"
    and le: "ae_prev_log_index req \<le> LastLogIndexLocked n"
    by (auto split: if_splits)
  from req acc(2) have "prefix (take (unat (ae_prev_log_index req)) (H (ae_term req)) @ ae_entries req) (H (ae_term req))"
    by (simp add: append_ok_def Let_def)
  with log' accepted_prefix [OF assms] show "prefix (rn_log n') (H (ae_term req))" by simp
  show "length (rn_log n') = unat (ae_prev_log_index req) + length (ae_entries req)"
    using le unat_LastLogIndex [OF n(2)] by (simp add: log' word_le_nat_alt)
qed

lemma OnAppendEntries_ok:
  assumes req: "append_ok H req" and led: "log_ok H (H (ae_term req))"
    and n: "log_ok H (rn_log n)" "log_small n" and call: "OnAppendEntries req n = (resp, n')"
  shows "log_ok H (rn_log n')"
proof (cases "rn_log n' = rn_log n")
  case False
  note spec = OnAppendEntries_spec [OF n(2) call refl]
  from spec False have acc: "aer_success resp" "ae_entries req \<noteq> []"
    and log': "rn_log n' = take (unat (ae_prev_log_index req)) (rn_log n) @ ae_entries req"
    by (auto split: if_splits)
  have "prefix (take (unat (ae_prev_log_index req)) (H (ae_term req)) @ ae_entries req) (H (ae_term req))"
    using req acc(2) by (simp add: append_ok_def Let_def)
  with log' accepted_prefix [OF assms acc] obtain k where "rn_log n' = take k (H (ae_term req))"
    by (metis prefix_def append_eq_conv_conj)
  with led show ?thesis by (simp add: log_ok_take)
qed (use n in simp)

end
