(* ===== verification/Raft_Log_Matching.thy ===== *)
theory Raft_Log_Matching
  imports Raft_Ledger
begin

text \<open>
  Log matching.  The code of a proposal reads the index of its entry in a second locked
  section, and an entry appended by another client in between is then replicated in the wrong
  place.  In the runs in which nothing happens between the two sections the logs
  match, whatever else is interleaved.  The proof keeps a ledger of the leaders' logs.
\<close>

subsection \<open>Orderly runs\<close>

definition settled :: "int set \<Rightarrow> raft_sys \<Rightarrow> bool" where
  "settled M s \<longleftrightarrow> (\<forall>i \<in> M. \<forall>c e. sy_propose s i c \<noteq> PAppended e)"

definition logs_small :: "int set \<Rightarrow> raft_sys \<Rightarrow> bool" where
  "logs_small M s \<longleftrightarrow> (\<forall>i \<in> M. log_small (sy_nodes s i))"

inductive orderly :: "int set \<Rightarrow> raft_sys \<Rightarrow> bool" for M where
  orderly_init: "raft_init M s \<Longrightarrow> orderly M s"
| orderly_step:
    "orderly M s \<Longrightarrow> raft_step M s s' \<Longrightarrow> settled M s' \<Longrightarrow> logs_small M s' \<Longrightarrow> orderly M s'"
| orderly_propose:
    "orderly M s \<Longrightarrow> i \<in> M \<Longrightarrow> propose_step i c s s1 \<Longrightarrow> sy_propose s1 i c = PAppended e \<Longrightarrow>
     propose_step i c s1 s2 \<Longrightarrow> logs_small M s2 \<Longrightarrow> orderly M s2"

lemma propose_to_appended:
  assumes "propose_step i c s s1" and "sy_propose s1 i c = PAppended e"
  obtains op key val n where "sy_propose s i c = PIdle" "propose_append op key val (sy_nodes s i) = Some (e, n)"
    "s1 = upd_propose i c (PAppended e) (upd_node i n s)"
  using assms
  by (cases rule: propose_step.cases) (auto split: propose_next.splits if_splits)

lemma propose_from_appended:
  assumes "propose_step i c s1 s2" and "sy_propose s1 i c = PAppended e"
  shows "s2 = upd_propose i c (PSend (propose_request e (sy_nodes s1 i)) (rn_peers (sy_nodes s1 i)) 1) s1"
  using assms by (cases rule: propose_step.cases) auto

lemma orderly_reachable: "orderly M s \<Longrightarrow> raft_reachable M s"
  by (induction rule: orderly.induct) (auto intro: raft_reachable.intros step_propose)

lemma orderly_settled: "orderly M s \<Longrightarrow> settled M s"
proof (induction rule: orderly.induct)
  case (orderly_propose s i c s1 e s2)
  from orderly_propose(3,4) obtain n where "s1 = upd_propose i c (PAppended e) (upd_node i n s)"
    by (rule propose_to_appended)
  with propose_from_appended [OF orderly_propose(5,4)]
  have "s2 = upd_propose i c (PSend (propose_request e n) (rn_peers n) 1) (upd_node i n s)" by simp
  with orderly_propose.IH show ?case by (auto simp: settled_def split: if_splits)
qed (auto simp: settled_def raft_init_def)

lemma orderly_small: "orderly M s \<Longrightarrow> logs_small M s"
  by (induction rule: orderly.induct) (auto simp: logs_small_def log_small_def raft_init_def raft_new_def)

subsection \<open>Operations that leave the log alone\<close>

definition no_new_candidate :: "RaftNode \<Rightarrow> RaftNode \<Rightarrow> bool" where
  "no_new_candidate n n' \<longleftrightarrow> (rn_role n' = Candidate \<longrightarrow> rn_role n = Candidate \<and> rn_term n' = rn_term n)"

definition calm :: "RaftNode \<Rightarrow> RaftNode \<Rightarrow> bool" where
  "calm n n' \<longleftrightarrow> rn_log n' = rn_log n \<and> no_new_leader n n' \<and> no_new_candidate n n'"

lemma calm_refl [simp]: "calm n n"
  by (simp add: calm_def no_new_candidate_def)

lemma BecomeFollower_calm: "calm n (BecomeFollowerLocked t l n)"
  by (simp add: calm_def no_new_leader_def no_new_candidate_def BecomeFollowerLocked_def)

lemma OnRequestVote_calm: "OnRequestVote req n = (resp, n') \<Longrightarrow> calm n n'"
  by (auto simp: OnRequestVote_def calm_def no_new_leader_def no_new_candidate_def BecomeFollowerLocked_def
      Let_def split: if_splits)

lemma heartbeat_response_calm: "heartbeat_response p req resp n = (b, n') \<Longrightarrow> calm n n'"
  using BecomeFollower_calm [of n "aer_term resp" None]
  by (auto simp: heartbeat_response_def calm_def no_new_leader_def no_new_candidate_def Let_def
      split: if_splits option.splits)

lemma heartbeat_answer_calm: "heartbeat_answer resp n = (b, n') \<Longrightarrow> calm n n'"
  using BecomeFollower_calm [of n "aer_term resp" None] by (auto simp: heartbeat_answer_def split: if_splits)

lemma propose_response_calm: "propose_response acks resp n = (nx, n') \<Longrightarrow> calm n n'"
  using BecomeFollower_calm [of n "aer_term resp" None]
  by (auto simp: propose_response_def Let_def split: if_splits)

lemma apply_take_calm: "apply_take n = ApplyEntry e n' \<Longrightarrow> calm n n'"
  by (auto simp: apply_take_def calm_def no_new_leader_def no_new_candidate_def Let_def split: if_splits)

lemma election_response_calm:
  "election_response t v resp n = (n', v', b) \<Longrightarrow>
   calm n n' \<or> rn_role n = Candidate \<and> rn_term n = t \<and> n' = BecomeLeaderLocked n \<and> \<not> b"
  using BecomeFollower_calm [of n "rvr_term resp" None]
  by (auto simp: election_response_def Let_def split: if_splits)

lemma transport_RequestVote_calm:
  "transport_RequestVote reg p r ns = (resp, ns') \<Longrightarrow> calm (ns v) (ns' v)"
  using inproc.request_vote_call [of reg p r ns resp ns'] by (auto dest: OnRequestVote_calm)

lemma OnAppendEntries_leader: "OnAppendEntries req n = (resp, n') \<Longrightarrow> rn_role n' = Leader \<Longrightarrow> n' = n"
  and OnAppendEntries_candidate: "OnAppendEntries req n = (resp, n') \<Longrightarrow> no_new_candidate n n'"
  by (auto simp: OnAppendEntries_def no_new_candidate_def BecomeFollowerLocked_def Let_def split: if_splits)

lemma transport_AppendEntries_leader:
  "transport_AppendEntries reg p req ns = (resp, ns') \<Longrightarrow> rn_role (ns' v) = Leader \<Longrightarrow> ns' v = ns v"
  using inproc.append_entries_call [of reg p req ns resp ns'] OnAppendEntries_leader
  by (cases "v = p") auto

subsection \<open>The invariant\<close>

text \<open>The requests a thread may still send.\<close>

fun heartbeat_reqs :: "heartbeat_pc \<Rightarrow> AppendEntriesReq set" where
  "heartbeat_reqs (HSend p req ps) = {req}"
| "heartbeat_reqs _ = {}"

fun propose_reqs :: "propose_pc \<Rightarrow> AppendEntriesReq set" where
  "propose_reqs (PSend req ps acks) = {req}"
| "propose_reqs (PGot req resp ps acks) = {req}"
| "propose_reqs (PBeat req ps) = {req}"
| "propose_reqs (PBeatGot req resp ps) = {req}"
| "propose_reqs _ = {}"

definition in_flight :: "int set \<Rightarrow> raft_sys \<Rightarrow> AppendEntriesReq set" where
  "in_flight M s = (\<Union>i \<in> M. heartbeat_reqs (sy_heartbeat s i) \<union> (\<Union>c. propose_reqs (sy_propose s i c)))"

lemma in_flight_same:
  "sy_heartbeat s' = sy_heartbeat s \<Longrightarrow> sy_propose s' = sy_propose s \<Longrightarrow> in_flight M s' = in_flight M s"
  by (simp add: in_flight_def)

lemma in_flight_heartbeat:
  "sy_heartbeat s' = (sy_heartbeat s)(i := pc) \<Longrightarrow> sy_propose s' = sy_propose s \<Longrightarrow>
   in_flight M s' \<subseteq> in_flight M s \<union> heartbeat_reqs pc"
  by (auto simp: in_flight_def split: if_splits)

lemma in_flight_propose:
  "sy_propose s' = (sy_propose s)(i := (sy_propose s i)(c := pc)) \<Longrightarrow> sy_heartbeat s' = sy_heartbeat s \<Longrightarrow>
   in_flight M s' \<subseteq> in_flight M s \<union> propose_reqs pc"
  by (auto simp: in_flight_def split: if_splits)

lemma in_flightI:
  "i \<in> M \<Longrightarrow> req \<in> heartbeat_reqs (sy_heartbeat s i) \<Longrightarrow> req \<in> in_flight M s"
  "i \<in> M \<Longrightarrow> req \<in> propose_reqs (sy_propose s i c) \<Longrightarrow> req \<in> in_flight M s"
  by (auto simp: in_flight_def)

text \<open>A candidate that still counts its votes has not been leader of its term.\<close>

fun election_open :: "(u64 \<rightharpoonup> int) \<Rightarrow> int \<Rightarrow> RaftNode \<Rightarrow> election_pc \<Rightarrow> bool" where
  "election_open led i n (EAsk r ps v) =
     (rn_role n = Candidate \<and> rn_term n = rv_term r \<longrightarrow> led (rv_term r) \<noteq> Some i)"
| "election_open led i n (EGot r p resp ps v) =
     (rn_role n = Candidate \<and> rn_term n = rv_term r \<longrightarrow> led (rv_term r) \<noteq> Some i)"
| "election_open led i n _ = True"

definition voted_in :: "int set \<Rightarrow> history \<Rightarrow> u64 \<Rightarrow> int \<Rightarrow> bool" where
  "voted_in M h t i \<longleftrightarrow> (\<exists>V \<subseteq> M. card M < 2 * card V \<and> (\<forall>x \<in> V. h (x, t) = Some i))"

definition ledger_inv :: "int set \<Rightarrow> raft_sys \<Rightarrow> history \<Rightarrow> ledger \<Rightarrow> (u64 \<rightharpoonup> int) \<Rightarrow> bool" where
  "ledger_inv M s h H led \<longleftrightarrow> raft_inv M s h \<and>
     (\<forall>t. log_ok H (H t)) \<and> (\<forall>t. led t = None \<longrightarrow> H t = []) \<and>
     (\<forall>t i. led t = Some i \<longrightarrow> i \<in> M \<and> t \<le> rn_term (sy_nodes s i) \<and> voted_in M h t i) \<and>
     (\<forall>i \<in> M. log_ok H (rn_log (sy_nodes s i)) \<and>
        (rn_role (sy_nodes s i) = Leader \<longrightarrow>
           rn_log (sy_nodes s i) = H (rn_term (sy_nodes s i)) \<and> led (rn_term (sy_nodes s i)) = Some i) \<and>
        election_open led i (sy_nodes s i) (sy_election s i)) \<and>
     (\<forall>req \<in> in_flight M s. append_ok H req)"

lemma election_open_calm:
  "election_open led i n pc \<Longrightarrow> no_new_candidate n n' \<Longrightarrow> election_open led i n' pc"
  by (cases pc) (auto simp: no_new_candidate_def)

lemma voted_in_mono:
  "voted_in M h t i \<Longrightarrow> (\<And>x c. h (x, t) = Some c \<Longrightarrow> h' (x, t) = Some c) \<Longrightarrow> voted_in M h' t i"
  unfolding voted_in_def by metis

lemma voted_in_unique: "finite M \<Longrightarrow> voted_in M h t i \<Longrightarrow> voted_in M h t j \<Longrightarrow> i = j"
  unfolding voted_in_def
  by (elim exE conjE) (metis majorities_meet disjoint_iff option.inject)

lemma ledger_inv_init:
  assumes "raft_init M s" and "votes_inv (sy_nodes s) h"
  shows "ledger_inv M s h (\<lambda>_. []) (\<lambda>_. None)"
  using raft_inv_init [OF assms] assms(1)
  by (auto simp: ledger_inv_def raft_init_def raft_new_def threads_ended_def in_flight_def)

subsection \<open>Steps that do not extend the ledger\<close>

lemma ledger_inv_keep:
  assumes inv: "ledger_inv M s h H led" and step: "raft_step M s s'"
    and logs: "\<And>i. i \<in> M \<Longrightarrow> log_ok H (rn_log (sy_nodes s' i))"
    and lead: "\<And>i. i \<in> M \<Longrightarrow> rn_role (sy_nodes s' i) = Leader \<Longrightarrow> rn_role (sy_nodes s i) = Leader \<and>
      rn_term (sy_nodes s' i) = rn_term (sy_nodes s i) \<and> rn_log (sy_nodes s' i) = rn_log (sy_nodes s i)"
    and elec: "\<And>i. i \<in> M \<Longrightarrow> election_open led i (sy_nodes s' i) (sy_election s' i)"
    and reqs: "\<And>req. req \<in> in_flight M s' \<Longrightarrow> req \<in> in_flight M s \<or> append_ok H req"
  shows "\<exists>h'. ledger_inv M s' h' H led"
proof (intro exI)
  let ?h = "record_votes (sy_nodes s') h"
  have ri: "raft_inv M s h" using inv by (simp add: ledger_inv_def)
  then have vi: "votes_inv (sy_nodes s) h" by (simp add: raft_inv_def)
  note ns = raft_step_nodes [OF step]
  have keep: "?h (x, t) = Some c" if "h (x, t) = Some c" for x t c
    by (rule votes_inv_step(2) [OF vi ns that])
  have mono: "rn_term (sy_nodes s i) \<le> rn_term (sy_nodes s' i)" for i
    using ns [of i] by (auto simp: node_step_def)
  have "i \<in> M \<and> t \<le> rn_term (sy_nodes s' i) \<and> voted_in M ?h t i" if "led t = Some i" for t i
  proof -
    from inv that have "i \<in> M" "t \<le> rn_term (sy_nodes s i)" "voted_in M h t i" by (auto simp: ledger_inv_def)
    with mono [of i] voted_in_mono [of M h t i ?h] keep show ?thesis by auto
  qed
  moreover have "\<forall>req \<in> in_flight M s'. append_ok H req" using inv reqs unfolding ledger_inv_def by blast
  ultimately show "ledger_inv M s' ?h H led"
    using raft_inv_step [OF ri step] inv logs lead elec unfolding ledger_inv_def by auto
qed

text \<open>All nodes are calm, no election is opened and no request is added.\<close>

lemma ledger_inv_calm:
  assumes inv: "ledger_inv M s h H led" and step: "raft_step M s s'"
    and calm: "\<And>i. i \<in> M \<Longrightarrow> calm (sy_nodes s i) (sy_nodes s' i)"
    and elec: "\<And>i. i \<in> M \<Longrightarrow> sy_election s' i \<in> {sy_election s i, EIdle, EStopped}"
    and reqs: "\<And>req. req \<in> in_flight M s' \<Longrightarrow> req \<in> in_flight M s \<or> append_ok H req"
  shows "\<exists>h'. ledger_inv M s' h' H led"
proof (rule ledger_inv_keep [OF inv step])
  fix i assume i: "i \<in> M"
  note c = calm [OF i]
  show "log_ok H (rn_log (sy_nodes s' i))" using inv i c by (simp add: ledger_inv_def calm_def)
  show "rn_role (sy_nodes s i) = Leader \<and> rn_term (sy_nodes s' i) = rn_term (sy_nodes s i) \<and>
    rn_log (sy_nodes s' i) = rn_log (sy_nodes s i)" if "rn_role (sy_nodes s' i) = Leader"
    using c that by (simp add: calm_def no_new_leader_def)
  have "election_open led i (sy_nodes s' i) (sy_election s i)"
    using inv i c by (auto simp: ledger_inv_def calm_def intro: election_open_calm)
  with elec [OF i] show "election_open led i (sy_nodes s' i) (sy_election s' i)" by auto
qed (use reqs in blast)

text \<open>A request in flight is delivered.\<close>

lemma ledger_inv_deliver:
  assumes inv: "ledger_inv M s h H led" and small: "logs_small M s" and step: "raft_step M s s'"
    and call: "transport_AppendEntries reg p req (sy_nodes s) = (resp, sy_nodes s')"
    and req: "req \<in> in_flight M s"
    and elec: "sy_election s' = sy_election s"
    and reqs: "in_flight M s' \<subseteq> in_flight M s"
  shows "\<exists>h'. ledger_inv M s' h' H led"
proof -
  have node: "sy_nodes s' i = sy_nodes s i \<or> (\<exists>resp. OnAppendEntries req (sy_nodes s i) = (resp, sy_nodes s' i))" for i
    using inproc.append_entries_call [OF call] by auto
  show ?thesis
  proof (rule ledger_inv_keep [OF inv step])
    fix i assume i: "i \<in> M"
    have ok: "log_ok H (rn_log (sy_nodes s i))" "log_ok H (H (ae_term req))" "append_ok H req"
      "log_small (sy_nodes s i)" "election_open led i (sy_nodes s i) (sy_election s i)"
      using inv small i req by (auto simp: ledger_inv_def logs_small_def)
    show "log_ok H (rn_log (sy_nodes s' i))" using node [of i] ok OnAppendEntries_ok by metis
    show "rn_role (sy_nodes s i) = Leader \<and> rn_term (sy_nodes s' i) = rn_term (sy_nodes s i) \<and>
      rn_log (sy_nodes s' i) = rn_log (sy_nodes s i)" if "rn_role (sy_nodes s' i) = Leader"
      using node [of i] that OnAppendEntries_leader by metis
    have "no_new_candidate (sy_nodes s i) (sy_nodes s' i)"
      using node [of i] OnAppendEntries_candidate calm_refl calm_def by metis
    with ok(5) show "election_open led i (sy_nodes s' i) (sy_election s' i)"
      by (simp add: elec election_open_calm)
  qed (use reqs in blast)
qed

subsection \<open>A node becomes leader\<close>

lemma ledger_inv_elected:
  assumes inv: "ledger_inv M s h H led" and step: "raft_step M s s'" and i: "i \<in> M"
    and cand: "rn_role (sy_nodes s i) = Candidate" "rn_term (sy_nodes s i) = t" "led t \<noteq> Some i"
    and s': "s' = upd_election i EIdle (upd_node i (BecomeLeaderLocked (sy_nodes s i)) s)"
  shows "\<exists>h'. ledger_inv M s' h' (H(t := rn_log (sy_nodes s i))) (led(t \<mapsto> i))"
proof (intro exI)
  let ?h = "record_votes (sy_nodes s') h" and ?H = "H(t := rn_log (sy_nodes s i))"
  let ?n = "BecomeLeaderLocked (sy_nodes s i)"
  have n: "rn_role ?n = Leader" "rn_term ?n = t" "rn_log ?n = rn_log (sy_nodes s i)"
    using cand by (simp_all add: BecomeLeaderLocked_def Let_def)
  have ri: "raft_inv M s h" using inv by (simp add: ledger_inv_def)
  then have fin: "finite M" and vi: "votes_inv (sy_nodes s) h" by (simp_all add: raft_inv_def)
  note ri' = raft_inv_step [OF ri step]
  have keep: "?h (x, t) = Some c" if "h (x, t) = Some c" for x t c
    by (rule votes_inv_step(2) [OF vi raft_step_nodes [OF step] that])
  have "leader_inv M ?h i (sy_nodes s' i)" using ri' i unfolding raft_inv_def by blast
  moreover have "sy_nodes s' i = ?n" by (simp add: s')
  ultimately have won: "voted_in M ?h t i" using n(1,2) unfolding leader_inv_def voted_in_def by metis
  have led: "j \<in> M" "t' \<le> rn_term (sy_nodes s' j)" "voted_in M ?h t' j" if "led t' = Some j" for t' j
  proof -
    from inv that have *: "j \<in> M" "t' \<le> rn_term (sy_nodes s j)" "voted_in M h t' j" by (auto simp: ledger_inv_def)
    then show "j \<in> M" "voted_in M ?h t' j" using voted_in_mono [of M h t' j ?h] keep by auto
    show "t' \<le> rn_term (sy_nodes s' j)" using * cand(2) n(2) by (cases "j = i") (simp_all add: s')
  qed
  have none: "led t = None"
    using led(3) [of t] won cand(3) voted_in_unique [OF fin] by (metis not_Some_eq)
  with inv have "H t = []" by (simp add: ledger_inv_def)
  then have grow: "prefix (H u) (?H u)" for u by simp
  have ok: "log_ok ?H (rn_log (sy_nodes s j))" if "j \<in> M" for j
    using inv that grow by (auto simp: ledger_inv_def intro: log_ok_grow)
  have "log_ok ?H (?H u)" for u
    using inv ok [OF i] grow by (cases "u = t") (auto simp: ledger_inv_def intro: log_ok_grow)
  moreover have "append_ok ?H req" if "req \<in> in_flight M s'" for req
  proof -
    have "in_flight M s' = in_flight M s" by (simp add: in_flight_def s')
    with inv that have "append_ok H req" unfolding ledger_inv_def by blast
    then show ?thesis by (rule append_ok_grow) (rule grow)
  qed
  moreover have "election_open (led(t \<mapsto> i)) j (sy_nodes s' j) (sy_election s' j)" if "j \<in> M" for j
    using inv that by (cases "j = i"; cases "sy_election s j") (auto simp: ledger_inv_def s')
  moreover have "rn_log (sy_nodes s' j) = ?H (rn_term (sy_nodes s' j)) \<and>
      (led(t \<mapsto> i)) (rn_term (sy_nodes s' j)) = Some j" if "j \<in> M" "rn_role (sy_nodes s' j) = Leader" for j
    using inv that none n by (cases "j = i") (auto simp: ledger_inv_def s')
  moreover have "log_ok ?H (rn_log (sy_nodes s' j))" if "j \<in> M" for j
    using ok [OF that] n(3) by (cases "j = i") (auto simp: s')
  moreover have "j \<in> M \<and> u \<le> rn_term (sy_nodes s' j) \<and> voted_in M ?h u j" if "(led(t \<mapsto> i)) u = Some j" for u j
  proof (cases "u = t")
    case True
    with that have "j = i" by simp
    with True won i n(2) show ?thesis by (simp add: s')
  next
    case False
    with that have "led u = Some j" by simp
    with led show ?thesis by blast
  qed
  moreover have "(led(t \<mapsto> i)) u = None \<longrightarrow> ?H u = []" for u using inv by (simp add: ledger_inv_def)
  ultimately show "ledger_inv M s' ?h ?H (led(t \<mapsto> i))" using ri' unfolding ledger_inv_def by blast
qed

subsection \<open>A leader appends an entry\<close>

lemma ledger_inv_proposed:
  assumes inv: "ledger_inv M s h H led" and i: "i \<in> M"
    and app: "propose_append op key val (sy_nodes s i) = Some (e, n)"
    and s1: "raft_step M s s1" "s1 = upd_propose i c (PAppended e) (upd_node i n s)"
    and s2: "raft_step M s1 s2" "s2 = upd_propose i c (PSend (propose_request e n) (rn_peers n) 1) s1"
    and small: "logs_small M s2"
  shows "\<exists>h' H'. ledger_inv M s2 h' H' led"
proof (intro exI)
  let ?m = "sy_nodes s i"
  let ?t = "rn_term ?m"
  let ?h = "record_votes (sy_nodes s2) (record_votes (sy_nodes s1) h)" and ?H = "H(?t := H ?t @ [e])"
  from app have lead: "rn_role ?m = Leader" and e: "le_term e = ?t"
    and n: "n = ?m\<lparr>rn_log := rn_log ?m @ [e]\<rparr>"
    by (auto simp: propose_append_def Let_def split: if_splits)
  from inv i lead have log: "rn_log ?m = H ?t" and led_i: "led ?t = Some i" by (auto simp: ledger_inv_def)
  have nodes: "sy_nodes s2 = (sy_nodes s)(i := n)" by (simp add: s1 s2)
  have ri: "raft_inv M s h" using inv by (simp add: ledger_inv_def)
  note ri1 = raft_inv_step [OF ri s1(1)]
  note ri2 = raft_inv_step [OF ri1 s2(1)]
  have vi: "votes_inv (sy_nodes s) h" and vi1: "votes_inv (sy_nodes s1) (record_votes (sy_nodes s1) h)"
    using ri ri1 by (simp_all add: raft_inv_def)
  have keep: "?h (x, t) = Some c" if "h (x, t) = Some c" for x t c
    using votes_inv_step(2) [OF vi1 raft_step_nodes [OF s2(1)]]
      votes_inv_step(2) [OF vi raft_step_nodes [OF s1(1)] that] by blast
  have grow: "prefix (H u) (?H u)" for u by simp
  have old: "log_ok ?H (rn_log (sy_nodes s j))" if "j \<in> M" for j
    using inv that grow by (auto simp: ledger_inv_def intro: log_ok_grow)
  have "log_ok ?H (H u)" for u using inv grow by (auto simp: ledger_inv_def intro: log_ok_grow)
  moreover from this have new: "log_ok ?H (H ?t @ [e])" by (intro log_ok_snoc) (simp_all add: e)
  ultimately have "log_ok ?H (?H u)" for u by simp
  moreover have "log_ok ?H (rn_log (sy_nodes s2 j))" if "j \<in> M" for j
    using old [OF that] new log by (auto simp: nodes n)
  moreover have "rn_log (sy_nodes s2 j) = ?H (rn_term (sy_nodes s2 j)) \<and>
      led (rn_term (sy_nodes s2 j)) = Some j" if "j \<in> M" "rn_role (sy_nodes s2 j) = Leader" for j
    using inv that log led_i by (cases "j = i") (auto simp: ledger_inv_def nodes n)
  moreover have "election_open led j (sy_nodes s2 j) (sy_election s2 j)" if "j \<in> M" for j
    using inv that lead by (cases "sy_election s j") (auto simp: ledger_inv_def s1 s2 n)
  moreover have "append_ok ?H req" if "req \<in> in_flight M s2" for req
  proof -
    have "in_flight M s2 \<subseteq> in_flight M s \<union> {propose_request e n}"
      using in_flight_propose [of s2 s i c "PSend (propose_request e n) (rn_peers n) 1" M] by (simp add: s1 s2)
    moreover have "append_ok ?H (propose_request e n)"
      using small i by (intro propose_request_ok [where l = "H ?t"]) (auto simp: logs_small_def nodes n log)
    moreover have "append_ok ?H req" if "req \<in> in_flight M s"
    proof -
      from inv that have "append_ok H req" unfolding ledger_inv_def by blast
      then show ?thesis by (rule append_ok_grow) (rule grow)
    qed
    ultimately show ?thesis using that by blast
  qed
  moreover have "j \<in> M \<and> u \<le> rn_term (sy_nodes s2 j) \<and> voted_in M ?h u j" if "led u = Some j" for u j
  proof -
    from inv that have "j \<in> M" "u \<le> rn_term (sy_nodes s j)" "voted_in M h u j" by (auto simp: ledger_inv_def)
    with voted_in_mono [of M h u j ?h] keep show ?thesis by (auto simp: nodes n)
  qed
  moreover have "led u = None \<longrightarrow> ?H u = []" for u using inv led_i by (simp add: ledger_inv_def)
  ultimately show "ledger_inv M s2 ?h ?H led" using ri2 unfolding ledger_inv_def by blast
qed

subsection \<open>The threads\<close>

lemma election_step_ledger:
  assumes inv: "ledger_inv M s h H led" and i: "i \<in> M" and step: "election_step i s s'"
  shows "\<exists>h' H' led'. ledger_inv M s' h' H' led'"
proof -
  have rs: "raft_step M s s'" using i step by (rule step_election)
  have reqs: "in_flight M s' = in_flight M s"
    using step by (cases rule: election_step.cases) (simp_all add: in_flight_def)
  from inv i have open_i: "election_open led i (sy_nodes s i) (sy_election s i)" by (simp add: ledger_inv_def)
  from step show ?thesis
  proof (cases rule: election_step.cases)
    case (start_election n)
    from inv have "led t = Some i \<Longrightarrow> t \<le> rn_term (sy_nodes s i)" for t by (auto simp: ledger_inv_def)
    with term_less_Suc [OF start_election(4)] have "led (rn_term (sy_nodes s i) + 1) \<noteq> Some i"
      by (meson leD)
    then have "election_open led i (sy_nodes s' i) (sy_election s' i)"
      by (simp add: start_election(1,5) vote_request_def BecomeCandidateLocked_def)
    then have "\<exists>h'. ledger_inv M s' h' H led"
      using inv reqs by (intro ledger_inv_keep [OF inv rs])
        (auto simp: ledger_inv_def start_election(1,5) BecomeCandidateLocked_def split: if_splits)
    then show ?thesis by blast
  next
    case (ask_vote r p ps v resp ns)
    note c = transport_RequestVote_calm [OF ask_vote(3)]
    have cn: "calm (sy_nodes s j) (sy_nodes s' j)" for j using c by (simp add: ask_vote(1))
    have "election_open led i (ns i) (EGot r p resp ps v)"
      using election_open_calm [of led i "sy_nodes s i" "EAsk r (p # ps) v" "ns i"] open_i c [of i] ask_vote(2)
      by (simp add: calm_def)
    moreover have "election_open led j (ns j) (sy_election s j)" if "j \<in> M" for j
      using inv that c [of j] by (auto simp: ledger_inv_def calm_def intro: election_open_calm)
    ultimately have "\<exists>h'. ledger_inv M s' h' H led"
      using inv reqs cn by (intro ledger_inv_keep [OF inv rs])
        (auto simp: ledger_inv_def calm_def no_new_leader_def ask_vote(1))
    then show ?thesis by blast
  next
    case (got_vote r p resp ps v n v' go_on)
    from election_response_calm [OF got_vote(3)] show ?thesis
    proof
      assume c: "calm (sy_nodes s i) n"
      have "election_open led i n (EAsk r ps v')"
        using election_open_calm [of led i "sy_nodes s i" "EAsk r ps v'" n] open_i c got_vote(2)
        by (simp add: calm_def)
      then have "\<exists>h'. ledger_inv M s' h' H led"
        using inv reqs c by (intro ledger_inv_keep [OF inv rs])
          (auto simp: ledger_inv_def calm_def no_new_leader_def got_vote(1) split: if_splits)
      then show ?thesis by blast
    next
      assume won: "rn_role (sy_nodes s i) = Candidate \<and> rn_term (sy_nodes s i) = rv_term r \<and>
        n = BecomeLeaderLocked (sy_nodes s i) \<and> \<not> go_on"
      with open_i got_vote(2) have "led (rv_term r) \<noteq> Some i" by simp
      with ledger_inv_elected [OF inv rs i] won got_vote(1) show ?thesis by fastforce
    qed
  next
    case (election_over r v)
    then have "\<exists>h'. ledger_inv M s' h' H led" using reqs by (intro ledger_inv_calm [OF inv rs]) auto
    then show ?thesis by blast
  next
    case election_exit
    then have "\<exists>h'. ledger_inv M s' h' H led" using reqs by (intro ledger_inv_calm [OF inv rs]) auto
    then show ?thesis by blast
  qed
qed

lemma heartbeat_step_ledger:
  assumes inv: "ledger_inv M s h H led" and small: "logs_small M s" and i: "i \<in> M"
    and step: "heartbeat_step i s s'"
  shows "\<exists>h'. ledger_inv M s' h' H led"
proof -
  have rs: "raft_step M s s'" using i step by (rule step_heartbeat)
  have elec: "sy_election s' = sy_election s" using heartbeat_step_nodes [OF step] by simp
  from step show ?thesis
  proof (cases rule: heartbeat_step.cases)
    case (heartbeat_build p ps pc)
    have "append_ok H req" if "heartbeat_request p (sy_nodes s i) = Some req" for req
      using that inv small i
      by (auto simp: heartbeat_request_def ledger_inv_def logs_small_def intro: Build_ok split: if_splits)
    then have "append_ok H req" if "req \<in> heartbeat_reqs pc" for req
      using that heartbeat_build(3) by (auto split: option.splits)
    moreover have "in_flight M s' \<subseteq> in_flight M s \<union> heartbeat_reqs pc"
      by (rule in_flight_heartbeat [of s' s i]) (simp_all add: heartbeat_build(1))
    ultimately show ?thesis by (intro ledger_inv_calm [OF inv rs]) (auto simp: elec heartbeat_build(1))
  next
    case (heartbeat_send p req ps resp ns)
    have "in_flight M s' \<subseteq> in_flight M s \<union> heartbeat_reqs (HGot p req resp ps)"
      by (rule in_flight_heartbeat [of s' s i]) (simp_all add: heartbeat_send(1))
    moreover have "req \<in> in_flight M s" using i heartbeat_send(2) by (auto intro: in_flightI)
    ultimately show ?thesis
      using heartbeat_send(3) by (intro ledger_inv_deliver [OF inv small rs _ _ elec]) (auto simp: heartbeat_send(1))
  next
    case (heartbeat_got p req resp ps go_on n)
    have "in_flight M s' \<subseteq> in_flight M s \<union> heartbeat_reqs (if go_on then HPeers ps else HIdle)"
      by (rule in_flight_heartbeat [of s' s i]) (simp_all add: heartbeat_got(1))
    with heartbeat_response_calm [OF heartbeat_got(3)] show ?thesis
      by (intro ledger_inv_calm [OF inv rs]) (auto simp: elec heartbeat_got(1) split: if_splits)
  qed (use in_flight_heartbeat [of s' s i] in \<open>intro ledger_inv_calm [OF inv rs]; fastforce simp: elec\<close>)+
qed

lemma apply_step_ledger:
  assumes inv: "ledger_inv M s h H led" and i: "i \<in> M" and step: "apply_step i s s'"
  shows "\<exists>h'. ledger_inv M s' h' H led"
proof -
  have "in_flight M s' = in_flight M s" "sy_election s' = sy_election s"
    using step by (cases rule: apply_step.cases; simp add: in_flight_def)+
  moreover have "calm (sy_nodes s j) (sy_nodes s' j)" for j
    using step by (cases rule: apply_step.cases) (auto intro: apply_take_calm)
  ultimately show ?thesis
    using i step by (intro ledger_inv_calm [OF inv]) (auto intro: step_apply)
qed

lemma propose_step_ledger:
  assumes inv: "ledger_inv M s h H led" and small: "logs_small M s" and i: "i \<in> M"
    and step: "propose_step i c s s'" and settled: "settled M s" "settled M s'"
  shows "\<exists>h'. ledger_inv M s' h' H led"
proof -
  have rs: "raft_step M s s'" using i step by (rule step_propose)
  have elec: "sy_election s' = sy_election s" using propose_step_nodes [OF step] by simp
  define pc where "pc = sy_propose s' i c"
  have pcs: "sy_propose s' = (sy_propose s)(i := (sy_propose s i)(c := pc))" "sy_heartbeat s' = sy_heartbeat s"
    unfolding pc_def using step by (cases rule: propose_step.cases; simp)+
  note fl = in_flight_propose [OF pcs, of M]
  have quiet: "\<exists>h'. ledger_inv M s' h' H led"
    if "calm (sy_nodes s i) (sy_nodes s' i)" "\<And>j. j \<noteq> i \<Longrightarrow> sy_nodes s' j = sy_nodes s j"
      "\<And>req. req \<in> propose_reqs pc \<Longrightarrow> req \<in> in_flight M s \<or> append_ok H req"
    using fl that by (intro ledger_inv_calm [OF inv rs]) (metis calm_refl, auto simp: elec)
  have old: "req \<in> in_flight M s" if "req \<in> propose_reqs (sy_propose s i c)" for req
    using i that by (rule in_flightI)
  from step show ?thesis
  proof (cases rule: propose_step.cases)
    case (propose_begin op key val e n)
    then have "sy_propose s' i c = PAppended e" by simp
    with settled(2) i show ?thesis unfolding settled_def by blast
  next
    case (propose_read e)
    with settled(1) i show ?thesis by (auto simp: settled_def)
  next
    case (propose_send req p ps acks resp ns)
    then have "pc = PGot req resp ps acks" by (simp add: pc_def)
    with fl old propose_send(2,3) show ?thesis
      by (intro ledger_inv_deliver [OF inv small rs _ _ elec]) (auto simp: propose_send(1))
  next
    case (propose_beat req p ps resp ns)
    then have "pc = PBeatGot req resp ps" by (simp add: pc_def)
    with fl old propose_beat(2,3) show ?thesis
      by (intro ledger_inv_deliver [OF inv small rs _ _ elec]) (auto simp: propose_beat(1))
  next
    case (propose_got req resp ps acks nx n pc')
    with old have "req' \<in> in_flight M s" if "req' \<in> propose_reqs pc'" for req'
      using that by (auto split: propose_next.splits)
    with propose_response_calm [OF propose_got(3)] show ?thesis
      by (intro quiet) (auto simp: propose_got(1) pc_def)
  next
    case propose_commit
    have "append_ok H (propose_heartbeat n)" for n by (simp add: append_ok_def propose_heartbeat_def)
    then show ?thesis by (intro quiet) (auto simp: propose_commit(1) pc_def)
  next
    case (propose_beat_got req resp ps go_on n)
    with old heartbeat_answer_calm [OF propose_beat_got(3)] show ?thesis
      by (intro quiet) (auto simp: pc_def split: if_splits)
  qed (intro quiet; fastforce simp: pc_def old split: if_splits)+
qed

lemma raft_step_ledger:
  assumes inv: "ledger_inv M s h H led" and small: "logs_small M s"
    and step: "raft_step M s s'" and settled: "settled M s" "settled M s'"
  shows "\<exists>h' H' led'. ledger_inv M s' h' H' led'"
  using step
proof (cases rule: raft_step.cases)
  case (step_election i)
  with election_step_ledger [OF inv] show ?thesis by blast
next
  case (step_heartbeat i)
  with heartbeat_step_ledger [OF inv small] show ?thesis by blast
next
  case (step_propose i c)
  with propose_step_ledger [OF inv small] settled show ?thesis by blast
next
  case (step_apply i)
  with apply_step_ledger [OF inv] show ?thesis by blast
next
  case (step_start i)
  have "heartbeat_reqs (sy_heartbeat s' j) \<subseteq> heartbeat_reqs (sy_heartbeat s j)" for j
    using raft_start_heartbeat [of i s j] by (auto simp: step_start(1))
  then have "in_flight M s' \<subseteq> in_flight M s" by (fastforce simp: in_flight_def step_start(1))
  then have "\<exists>h'. ledger_inv M s' h' H led"
    using raft_start_election [of i s] by (intro ledger_inv_calm [OF inv step]) (auto simp: step_start(1))
  then show ?thesis by blast
next
  case (step_register i)
  then have "\<exists>h'. ledger_inv M s' h' H led"
    by (intro ledger_inv_calm [OF inv step]) (auto simp: in_flight_def)
  then show ?thesis by blast
next
  case (step_unregister i)
  then have "\<exists>h'. ledger_inv M s' h' H led"
    by (intro ledger_inv_calm [OF inv step]) (auto simp: in_flight_def)
  then show ?thesis by blast
next
  case (step_stop i)
  then have "\<exists>h'. ledger_inv M s' h' H led"
    by (intro ledger_inv_calm [OF inv step]) (auto simp: in_flight_def)
  then show ?thesis by blast
qed

lemma orderly_ledger: "orderly M s \<Longrightarrow> \<exists>h H led. ledger_inv M s h H led"
proof (induction rule: orderly.induct)
  case (orderly_init s)
  define h where "h = (\<lambda>(v, t). if t = rn_term (sy_nodes s v) then rn_voted_for (sy_nodes s v) else None)"
  have "votes_inv (sy_nodes s) h" by (simp add: votes_inv_def h_def)
  with orderly_init ledger_inv_init show ?case by blast
next
  case (orderly_step s s')
  with raft_step_ledger orderly_small orderly_settled show ?case by blast
next
  case (orderly_propose s i c s1 e s2)
  from orderly_propose(3,4) obtain op key val n
    where b: "propose_append op key val (sy_nodes s i) = Some (e, n)"
      "s1 = upd_propose i c (PAppended e) (upd_node i n s)"
    by (rule propose_to_appended)
  have "sy_nodes s1 i = n" by (simp add: b(2))
  with propose_from_appended [OF orderly_propose(5,4)]
  have r: "s2 = upd_propose i c (PSend (propose_request e n) (rn_peers n) 1) s1" by simp
  obtain h H led where inv: "ledger_inv M s h H led" using orderly_propose.IH by blast
  have "raft_step M s s1" "raft_step M s1 s2" using orderly_propose(2,3,5) by (auto intro: step_propose)
  from ledger_inv_proposed [OF inv orderly_propose(2) b(1) this(1) b(2) this(2) r orderly_propose(6)]
  show ?case by blast
qed

text \<open>A node that stays leader of its term only appends, in every run.\<close>

lemma raft_step_leader_log:
  assumes "raft_step M s s'" and "rn_role (sy_nodes s i) = Leader" and "rn_role (sy_nodes s' i) = Leader"
    and "rn_term (sy_nodes s' i) = rn_term (sy_nodes s i)"
  shows "prefix (rn_log (sy_nodes s i)) (rn_log (sy_nodes s' i))"
  using assms(1)
proof (cases rule: raft_step.cases)
  case (step_election j)
  from step_election(2) show ?thesis
  proof (cases rule: election_step.cases)
    case (ask_vote r p ps v resp ns)
    then show ?thesis using transport_RequestVote_calm [of _ p r _ resp ns i] by (auto simp: calm_def)
  next
    case (got_vote r p resp ps v n v' go_on)
    then show ?thesis
      using election_response_calm [OF got_vote(3)] by (auto simp: calm_def BecomeLeaderLocked_def Let_def)
  qed (auto simp: BecomeCandidateLocked_def)
next
  case (step_heartbeat j)
  from step_heartbeat(2) show ?thesis
  proof (cases rule: heartbeat_step.cases)
    case (heartbeat_send p req ps resp ns)
    then show ?thesis using transport_AppendEntries_leader [of _ p req _ resp ns i] assms(3) by auto
  next
    case (heartbeat_got p req resp ps go_on n)
    then show ?thesis using heartbeat_response_calm [OF heartbeat_got(3)] by (auto simp: calm_def)
  qed auto
next
  case (step_propose j c)
  from step_propose(2) show ?thesis
  proof (cases rule: propose_step.cases)
    case (propose_begin op key val e n)
    then show ?thesis by (auto simp: propose_append_def Let_def split: if_splits)
  next
    case (propose_send req p ps acks resp ns)
    then show ?thesis using transport_AppendEntries_leader [of _ p req _ resp ns i] assms(3) by auto
  next
    case (propose_got req resp ps acks nx n pc)
    then show ?thesis using propose_response_calm [OF propose_got(3)] by (auto simp: calm_def)
  next
    case (propose_beat req p ps resp ns)
    then show ?thesis using transport_AppendEntries_leader [of _ p req _ resp ns i] assms(3) by auto
  next
    case (propose_beat_got req resp ps go_on n)
    then show ?thesis using heartbeat_answer_calm [OF propose_beat_got(3)] by (auto simp: calm_def)
  qed auto
next
  case (step_apply j)
  from step_apply(2) show ?thesis
    by (cases rule: apply_step.cases) (auto dest: apply_take_calm simp: calm_def)
qed auto

end
