(* ===== verification/Raft_Traces.thy ===== *)
theory Raft_Traces
  imports Raft_Exec Raft_Log_Matching
begin

text \<open>
  Runs of a cluster of three nodes, given as lists of actions and computed by the scheduler.
  They are the examples of the Raft properties, and they show that the faults of the
  replication code occur in runs of the cluster, not only in states made up for the purpose.
\<close>

definition three_nodes :: nodes where
  "three_nodes i = raft_new i (filter (\<lambda>p. p \<noteq> i) [0, 1, 2])"

definition three_sys :: raft_sys where
  "three_sys = \<lparr>sy_nodes = three_nodes, sy_reg = {}, sy_running = {}, sy_election = (\<lambda>_. EStopped),
     sy_heartbeat = (\<lambda>_. HStopped), sy_propose = (\<lambda>_ _. PIdle), sy_apply = (\<lambda>_. AStopped),
     sy_sm = (\<lambda>_. kv_new)\<rparr>"

lemma three_init: "raft_init {0, 1, 2} three_sys"
  by (auto simp: raft_init_def three_sys_def three_nodes_def threads_ended_def)

lemmas run_simps = exec_elect_def exec_beat_def exec_propose_def exec_next_def exec_apply_def
  raft_start_def threads_ended_def raft_stop_def transport_register_def transport_unregister_def
  transport_RequestVote_def transport_AppendEntries_def OnRequestVote_def OnAppendEntries_def
  BecomeFollowerLocked_def BecomeCandidateLocked_def BecomeLeaderLocked_def vote_request_def
  IsUpToDateLocked_def LastLogTermLocked_def LastLogIndexLocked_def TermAtLocked_def
  election_response_def needed_def heartbeat_request_def BuildAppendEntriesLocked_def
  heartbeat_response_def AdvanceCommitIndexLocked_def map_touch_def propose_append_def
  propose_request_def propose_response_def propose_heartbeat_def heartbeat_answer_def apply_take_def
  apply_entry_def ApplyPut_def ApplyDel_def word_le_nat_alt word_less_nat_alt Let_def
  three_sys_def three_nodes_def raft_new_def

text \<open>All nodes are registered and started, as the programs do; then node 0 is elected by node 1.\<close>

definition boot :: "raft_action list" where
  "boot = map Register [0, 1, 2] @ map StartNode [0, 1, 2]"

definition elect_0 :: "raft_action list" where
  "elect_0 = boot @ [Elect 0, Elect 0, Elect 0]"

lemmas trace_simps = run_simps elect_0_def boot_def

lemma trace_reachable:
  assumes "case raft_run acts three_sys of None \<Rightarrow> False | Some s \<Rightarrow> P s"
    and "list_all (\<lambda>a. action_node a \<in> {0, 1, 2}) acts"
  shows "\<exists>s. raft_reachable {0, 1, 2} s \<and> P s"
  using assms raft_run_reachable [OF reach_init [OF three_init]] by (auto split: option.splits)

lemma restart_trace_reachable:
  assumes "case raft_run acts three_sys of None \<Rightarrow> False | Some s \<Rightarrow> may_restart i s \<and>
      (case raft_run more_acts (raft_restart i s) of None \<Rightarrow> False | Some s' \<Rightarrow> P s')"
    and "list_all (\<lambda>a. action_node a \<in> {0, 1, 2}) (acts @ more_acts)" and "i \<in> {0, 1, 2}"
  shows "\<exists>s. restart_reachable {0, 1, 2} s \<and> P s"
proof -
  from assms(1) obtain s s' where s: "raft_run acts three_sys = Some s" "may_restart i s"
    "raft_run more_acts (raft_restart i s) = Some s'" "P s'" by (auto split: option.splits)
  have "restart_reachable {0, 1, 2} s"
    using raft_run_restart_reachable [OF restart_init [OF three_init] s(1)] assms(2) by simp
  then have "restart_reachable {0, 1, 2} (raft_restart i s)" using assms(3) s(2) by (rule restart_node)
  from raft_run_restart_reachable [OF this s(3)] assms(2) s(4) show ?thesis by auto
qed

lemma leader_reachable:
  "\<exists>s. raft_reachable {0, 1, 2} s \<and> rn_role (sy_nodes s 0) = Leader \<and> rn_term (sy_nodes s 0) = 1"
  by (rule trace_reachable [where acts = elect_0]) (simp_all add: trace_simps)

text \<open>
  A client's request for its entry is delayed; meanwhile a second client appends, the
  heartbeats replicate and commit both entries, and node 1 applies the first.
\<close>

definition late_request :: "raft_action list" where
  "late_request = elect_0 @
     [Propose 0 0 OpPut ''a'' ''1'', ProposeNext 0 0, Propose 0 1 OpPut ''b'' ''2''] @
     [Beat 0, Beat 0, Beat 0, Beat 0, Beat 0, Beat 0, Beat 0, Beat 0, Beat 0, Beat 0, Beat 0,
      Apply 1, Apply 1, ProposeNext 0 0, Apply 1]"

text \<open>
  Two clients append before the first one reads its index; node 1 gets the first entry
  twice, node 2 both; both indices are committed and applied.
\<close>

definition crossed_clients :: "raft_action list" where
  "crossed_clients = elect_0 @
     [Propose 0 0 OpPut ''a'' ''1'', Beat 0, Beat 0, Beat 0, Beat 0,
      Propose 0 1 OpPut ''b'' ''2'', ProposeNext 0 0, ProposeNext 0 0, Beat 0, Beat 0, Beat 0,
      ProposeNext 0 0, ProposeNext 0 0, ProposeNext 0 0,
      Apply 0, Apply 0, Apply 0, Apply 0, Apply 1, Apply 1, Apply 1, Apply 1]"

text \<open>Node 1, which voted for node 0, is stopped and taken out; after its restart node 2 runs.\<close>

definition stop_voter :: "raft_action list" where
  "stop_voter = elect_0 @ [StopNode 1, ElectExit 1, BeatExit 1, ApplyExit 1, Unregister 1]"

definition second_election :: "raft_action list" where
  "second_election = [Register 1, StartNode 1, Elect 2, Elect 2, Elect 2, Elect 2, Elect 2]"

text \<open>
  Two clients append; a heartbeat brings both entries to node 1, and before its answer is
  handled the first client's request arrives there.
\<close>

definition stale_answer :: "raft_action list" where
  "stale_answer = elect_0 @
     [Propose 0 0 OpPut ''a'' ''1'', ProposeNext 0 0, Propose 0 1 OpPut ''b'' ''2'',
      Beat 0, Beat 0, Beat 0, ProposeNext 0 0, Beat 0]"

lemmas fault_trace_defs = stale_answer_def late_request_def crossed_clients_def stop_voter_def second_election_def

subsection \<open>Orderly runs\<close>

text \<open>A scheduler that lets a client read its index right after it has appended its entry.\<close>

fun orderly_run :: "int set \<Rightarrow> raft_action list \<Rightarrow> raft_sys \<Rightarrow> raft_sys option" where
  "orderly_run M [] s = Some s"
| "orderly_run M (a # as) s =
     (case exec_action a s of
        None \<Rightarrow> None
      | Some s1 \<Rightarrow>
          (case a of
             Propose i c op k v \<Rightarrow>
               (case (sy_propose s1 i c, exec_next i c s1) of
                  (PAppended e, Some s2) \<Rightarrow> if logs_small M s2 then orderly_run M as s2 else None
                | _ \<Rightarrow> None)
           | _ \<Rightarrow> if logs_small M s1 then orderly_run M as s1 else None))"

lemma exec_settled:
  "settled M s \<Longrightarrow> exec_action a s = Some s' \<Longrightarrow> (\<forall>i c op k v. a \<noteq> Propose i c op k v) \<Longrightarrow> settled M s'"
  by (cases a)
    (auto simp: settled_def raft_start_stop_nodes exec_elect_def exec_beat_def exec_next_def exec_apply_def Let_def
      split: election_pc.splits heartbeat_pc.splits propose_pc.splits apply_pc.splits list.splits
        prod.splits apply_next.splits propose_next.splits if_splits)

lemma orderly_run_orderly:
  "orderly M s \<Longrightarrow> orderly_run M as s = Some s' \<Longrightarrow> list_all (\<lambda>a. action_node a \<in> M) as \<Longrightarrow> orderly M s'"
proof (induction as arbitrary: s)
  case (Cons a as)
  then obtain s1 where s1: "exec_action a s = Some s1" by (auto split: option.splits)
  note step = exec_action_step [OF s1, of M]
  show ?case
  proof (cases "\<exists>i c op k v. a = Propose i c op k v")
    case True
    then obtain i c op k v where a: "a = Propose i c op k v" by blast
    with Cons.prems(2) s1 obtain e s2 where s2: "sy_propose s1 i c = PAppended e" "exec_next i c s1 = Some s2"
      "logs_small M s2" "orderly_run M as s2 = Some s'"
      by (auto split: option.splits propose_pc.splits if_splits)
    have "propose_step i c s s1" using s1 by (auto simp: a intro: exec_propose_step)
    moreover have "propose_step i c s1 s2" using s2(2) by (rule exec_next_step)
    ultimately have "orderly M s2" using Cons.prems(1,3) s2 by (auto simp: a intro: orderly_propose)
    with Cons.IH s2(4) Cons.prems(3) show ?thesis by simp
  next
    case False
    with Cons.prems(2) s1 have s': "logs_small M s1" "orderly_run M as s1 = Some s'"
      by (auto split: raft_action.splits if_splits)
    have "settled M s1" using exec_settled [OF orderly_settled [OF Cons.prems(1)] s1] False by blast
    with Cons.prems(1,3) step s'(1) have "orderly M s1" by (auto intro: orderly_step)
    with Cons.IH s'(2) Cons.prems(3) show ?thesis by simp
  qed
qed simp

lemma orderly_trace:
  assumes "case orderly_run {0, 1, 2} acts three_sys of None \<Rightarrow> False | Some s \<Rightarrow> P s"
    and "list_all (\<lambda>a. action_node a \<in> {0, 1, 2}) acts"
  shows "\<exists>s. orderly {0, 1, 2} s \<and> P s"
  using assms orderly_run_orderly [OF orderly_init [OF three_init]] by (auto split: option.splits)

text \<open>Node 0 is elected, takes one entry and replicates it to node 1.\<close>

definition replicated_entry :: "raft_action list" where
  "replicated_entry = elect_0 @ [Propose 0 0 OpPut ''a'' ''1'', ProposeNext 0 0]"

lemma replicated_entry_orderly:
  "\<exists>s. orderly {0, 1, 2} s \<and> length (rn_log (sy_nodes s 0)) = 1 \<and> length (rn_log (sy_nodes s 1)) = 1 \<and>
     le_term (rn_log (sy_nodes s 0) ! 0) = 1 \<and> le_term (rn_log (sy_nodes s 1) ! 0) = 1"
  by (rule orderly_trace [where acts = replicated_entry])
    (simp_all add: replicated_entry_def trace_simps logs_small_def log_small_def)

end
