(* ===== verification/Raft_Props.thy ===== *)
theory Raft_Props
  imports Raft_Traces Kv_Api
begin

text \<open>The properties of the Raft node and of a cluster of them.\<close>

subsection \<open>Elections\<close>

lemma reachable_inv: "raft_reachable M s \<Longrightarrow> \<exists>h. raft_inv M s h"
proof (induction rule: raft_reachable.induct)
  case (reach_init s)
  define h where "h = (\<lambda>(v, t). if t = rn_term (sy_nodes s v) then rn_voted_for (sy_nodes s v) else None)"
  have "votes_inv (sy_nodes s) h" by (simp add: votes_inv_def h_def)
  with reach_init raft_inv_init show ?case by blast
next
  case (reach_step s s')
  then show ?case using raft_inv_step by blast
qed

text \<open>
  C2.  Election safety.  In every reachable state of a cluster, whatever the interleaving of
  election, heartbeat, apply and client threads and however nodes come and go at the
  transport, two nodes that are leaders in the same term are the same node.
\<close>

theorem election_safety:
  assumes "raft_reachable M s" and "i \<in> M" and "j \<in> M"
    and "rn_role (sy_nodes s i) = Leader" and "rn_role (sy_nodes s j) = Leader"
    and "rn_term (sy_nodes s i) = rn_term (sy_nodes s j)"
  shows "i = j"
proof -
  from reachable_inv [OF assms(1)] obtain h where inv: "raft_inv M s h" by blast
  let ?t = "rn_term (sy_nodes s i)"
  from inv assms(2,4) obtain V where V: "V \<subseteq> M" "card M < 2 * card V" "\<forall>x \<in> V. h (x, ?t) = Some i"
    by (auto simp: raft_inv_def leader_inv_def)
  from inv assms(3,5,6) obtain W where W: "W \<subseteq> M" "card M < 2 * card W" "\<forall>x \<in> W. h (x, ?t) = Some j"
    by (auto simp: raft_inv_def leader_inv_def)
  have "finite M" using inv by (simp add: raft_inv_def)
  from majorities_meet [OF this V(1) W(1) V(2) W(2)] obtain x where "x \<in> V" "x \<in> W" by blast
  with V(3) W(3) show ?thesis by fastforce
qed

theorem election_safety_witness:
  "\<exists>s. raft_reachable {0, 1, 2} s \<and> rn_role (sy_nodes s 0) = Leader \<and>
     \<not> (rn_role (sy_nodes s 1) = Leader \<and> rn_term (sy_nodes s 1) = rn_term (sy_nodes s 0)) \<and>
     \<not> (rn_role (sy_nodes s 2) = Leader \<and> rn_term (sy_nodes s 2) = rn_term (sy_nodes s 0))"
proof -
  obtain s where s: "raft_reachable {0, 1, 2} s" "rn_role (sy_nodes s 0) = Leader"
    using leader_reachable by blast
  then show ?thesis
    using election_safety [OF s(1), of 0 1] election_safety [OF s(1), of 0 2] by fastforce
qed

text \<open>
  One vote per term.  In every step of the cluster the term of no node decreases, and
  as long as a node stays in its term, a vote it has given is neither withdrawn nor changed.
\<close>

theorem one_vote_per_term:
  assumes "raft_step M s s'"
  shows "rn_term (sy_nodes s v) \<le> rn_term (sy_nodes s' v) \<and>
    (rn_term (sy_nodes s' v) = rn_term (sy_nodes s v) \<and> rn_voted_for (sy_nodes s v) = Some c \<longrightarrow>
     rn_voted_for (sy_nodes s' v) = Some c)"
  using raft_step_nodes [OF assms, of v] by (auto simp: node_step_def)

theorem one_vote_per_term_witness:
  "case raft_run boot three_sys of None \<Rightarrow> False
   | Some s \<Rightarrow> (case exec_action (Elect 0) s of None \<Rightarrow> False
     | Some s' \<Rightarrow> raft_step {0, 1, 2} s s' \<and> rn_voted_for (sy_nodes s' 0) = Some 0 \<and>
         rn_term (sy_nodes s 0) \<le> rn_term (sy_nodes s' 0))"
proof -
  have "case raft_run boot three_sys of None \<Rightarrow> False
    | Some s \<Rightarrow> (case exec_action (Elect 0) s of None \<Rightarrow> False
      | Some s' \<Rightarrow> rn_voted_for (sy_nodes s' 0) = Some 0)"
    by (simp add: trace_simps)
  then show ?thesis
    using exec_action_step [of "Elect 0" _ _ "{0, 1, 2}"] one_vote_per_term [of "{0, 1, 2}" _ _ 0]
    by (auto split: option.splits)
qed

subsection \<open>The commit index\<close>

lemma sorted_filter_ge:
  fixes xs :: "'a::linorder list"
  assumes "sorted xs" and "k < length xs"
  shows "length xs - k \<le> length (filter (\<lambda>v. xs ! k \<le> v) xs)"
proof -
  have "filter (\<lambda>v. xs ! k \<le> v) (drop k xs) = drop k xs"
    using assms by (auto simp: in_set_conv_nth sorted_iff_nth_mono intro!: filter_True)
  moreover have "filter (\<lambda>v. xs ! k \<le> v) xs =
      filter (\<lambda>v. xs ! k \<le> v) (take k xs) @ filter (\<lambda>v. xs ! k \<le> v) (drop k xs)"
    by (metis append_take_drop_id filter_append)
  ultimately show ?thesis by (metis length_append length_drop le_add2)
qed

lemma sorted_filter_gt:
  assumes "sorted (xs :: 'a :: linorder list)" and "k < length xs" and "xs ! k < w"
  shows "length (filter (\<lambda>v. w \<le> v) xs) < length xs - k"
proof -
  have "\<not> w \<le> v" if "v \<in> set (take (Suc k) xs)" for v
  proof -
    from that obtain m where "m \<le> k" "v = xs ! m" by (auto simp: in_set_conv_nth less_Suc_eq_le)
    then have "v \<le> xs ! k" using assms(1,2) by (simp add: sorted_nth_mono)
    with assms(3) show ?thesis by (simp add: not_le)
  qed
  then have none: "filter (\<lambda>v. w \<le> v) (take (Suc k) xs) = []" by (simp add: filter_empty_conv)
  have "filter (\<lambda>v. w \<le> v) xs = filter (\<lambda>v. w \<le> v) (take (Suc k) xs) @ filter (\<lambda>v. w \<le> v) (drop (Suc k) xs)"
    by (metis append_take_drop_id filter_append)
  with none length_filter_le [of "\<lambda>v. w \<le> v" "drop (Suc k) xs"] assms(2) show ?thesis by simp
qed

lemma filter_ge_mono:
  "(w :: 'a :: linorder) \<le> u \<Longrightarrow> length (filter (\<lambda>v. u \<le> v) xs) \<le> length (filter (\<lambda>v. w \<le> v) xs)"
  by (induction xs) auto

text \<open>The indices the leader goes by: its own last index, and what it has recorded for its peers.\<close>

definition recorded :: "RaftNode \<Rightarrow> u64 list" where
  "recorded n = LastLogIndexLocked n # map snd (rn_match n)"

definition majority_at :: "u64 \<Rightarrow> RaftNode \<Rightarrow> bool" where
  "majority_at w n \<longleftrightarrow> length (recorded n) < 2 * length (filter (\<lambda>v. w \<le> v) (recorded n))"

text \<open>
  C21.  The commit index follows the majority of the recorded indices, in clusters of odd size.  With an
  even number of peers in its table, \<^verbatim>\<open>AdvanceCommitIndexLocked\<close> determines the largest index that more
  than half of the recorded indices reach (its own last index, and the match indices that
  earlier answers of the peers have left in the table); it makes it the commit index exactly if it is larger than
  the old one and its entry is of the current term, and changes nothing else.
\<close>

theorem commit_majority:
  assumes "even (length (rn_match n))"
  shows "\<exists>v. (\<forall>w. majority_at w n \<longleftrightarrow> w \<le> v) \<and>
    AdvanceCommitIndexLocked n =
      (if rn_commit n < v \<and> TermAtLocked n v = rn_term n then n\<lparr>rn_commit := v\<rparr> else n)"
proof -
  define xs where "xs = recorded n"
  define k where "k = length xs div 2"
  have k: "k < length (sort xs)" by (simp add: k_def xs_def recorded_def)
  have odd: "length xs = 2 * k + 1" using assms by (auto simp: k_def xs_def recorded_def)
  have adv: "AdvanceCommitIndexLocked n = (if rn_commit n < sort xs ! k \<and> TermAtLocked n (sort xs ! k) = rn_term n
      then n\<lparr>rn_commit := sort xs ! k\<rparr> else n)"
    unfolding AdvanceCommitIndexLocked_def Let_def xs_def k_def recorded_def by simp
  have same: "length (filter P (sort xs)) = length (filter P xs)" for P :: "u64 \<Rightarrow> bool"
    by (metis mset_filter mset_sort size_mset)
  have "majority_at w n" if "w \<le> sort xs ! k" for w
  proof -
    have "length (filter (\<lambda>v. sort xs ! k \<le> v) xs) \<le> length (filter (\<lambda>v. w \<le> v) xs)"
      using that by (intro filter_ge_mono)
    with sorted_filter_ge [OF sorted_sort k] same odd show ?thesis
      by (simp add: majority_at_def xs_def [symmetric])
  qed
  moreover have "\<not> majority_at w n" if "\<not> w \<le> sort xs ! k" for w
    using sorted_filter_gt [OF sorted_sort k, of w] that same odd
    by (auto simp: majority_at_def xs_def [symmetric] not_le)
  ultimately show ?thesis using adv by (intro exI [of _ "sort xs ! k"]) blast
qed

definition entry_put :: "u64 \<Rightarrow> string \<Rightarrow> string \<Rightarrow> LogEntry" where
  "entry_put t k v = \<lparr>le_term = t, le_op = OpPut, le_key = k, le_value = v\<rparr>"

definition replicated_leader :: RaftNode where
  "replicated_leader = (raft_new 0 [1, 2])\<lparr>rn_role := Leader, rn_term := 1,
     rn_log := [entry_put 1 ''a'' ''1'', entry_put 1 ''b'' ''2''], rn_match := [(1, 1), (2, 0)]\<rparr>"

theorem commit_majority_witness: "rn_commit (AdvanceCommitIndexLocked replicated_leader) = 1"
proof -
  have rec: "recorded replicated_leader = [2, 1, 0]"
    by (simp add: recorded_def replicated_leader_def raft_new_def LastLogIndexLocked_def)
  have "even (length (rn_match replicated_leader))" by (simp add: replicated_leader_def)
  from commit_majority [OF this] obtain v where v: "\<forall>w. majority_at w replicated_leader \<longleftrightarrow> w \<le> v"
    "AdvanceCommitIndexLocked replicated_leader = (if rn_commit replicated_leader < v \<and>
       TermAtLocked replicated_leader v = rn_term replicated_leader
       then replicated_leader\<lparr>rn_commit := v\<rparr> else replicated_leader)" by blast
  have "1 \<le> v" "\<not> 2 \<le> v" using v(1) [rule_format, of 1] v(1) [rule_format, of 2]
    by (simp_all add: majority_at_def rec word_le_nat_alt)
  then have "v = 1" by (simp add: word_le_nat_alt word_unat_eq_iff)
  with v(2) show ?thesis
    by (simp add: replicated_leader_def raft_new_def TermAtLocked_def LastLogIndexLocked_def entry_put_def
        word_less_nat_alt)
qed

text \<open>
  A recorded index says what a peer had, not what it has.  There is a run in which the
  leader commits two entries while no other node has the second one: the peer that accepted both
  lost it to the first client's delayed request before the leader handled its answer.
\<close>

theorem commit_without_majority:
  "\<exists>s. raft_reachable {0, 1, 2} s \<and> rn_role (sy_nodes s 0) = Leader \<and> rn_commit (sy_nodes s 0) = 2 \<and>
     length (rn_log (sy_nodes s 0)) = 2 \<and> length (rn_log (sy_nodes s 1)) = 1 \<and> rn_log (sy_nodes s 2) = []"
  by (rule trace_reachable [where acts = stale_answer]) (simp_all add: fault_trace_defs trace_simps)

text \<open>
  In a cluster of two the leader commits alone: with one peer that has replicated
  nothing, advancing the commit index takes it to the end of the leader's own log.
\<close>

theorem commit_alone:
  "rn_commit (AdvanceCommitIndexLocked ((raft_new 0 [1])\<lparr>rn_role := Leader, rn_term := 1,
     rn_log := [entry_put 1 ''a'' ''1''], rn_match := [(1, 0)]\<rparr>)) = 1"
  by (simp add: AdvanceCommitIndexLocked_def raft_new_def LastLogIndexLocked_def TermAtLocked_def
      entry_put_def Let_def)

subsection \<open>Log replication\<close>

text \<open>
  C23.  \<^verbatim>\<open>AppendEntries\<close> at a node.  A request of an older term is refused and changes nothing.
  Otherwise the node is a follower in the request's term, and accepts exactly if its log
  reaches the previous index with the previous term there.  Accepting entries replaces everything
  after that index by them, and raises the commit index to the leader's, but not past the
  end of the log; refusing leaves log and commit index alone.
\<close>

theorem append_entries_spec:
  assumes "log_small n" and "OnAppendEntries req n = (resp, n')"
    and "matches = (ae_prev_log_index req \<le> LastLogIndexLocked n \<and>
      TermAtLocked n (ae_prev_log_index req) = ae_prev_log_term req)"
  shows "if ae_term req < rn_term n
    then n' = n \<and> resp = \<lparr>aer_term = rn_term n, aer_success = False\<rparr>
    else resp = \<lparr>aer_term = ae_term req, aer_success = matches\<rparr> \<and> rn_term n' = ae_term req \<and>
      rn_role n' = Follower \<and> rn_leader n' = Some (ae_leader_id req) \<and>
      rn_log n' = (if matches \<and> ae_entries req \<noteq> []
        then take (unat (ae_prev_log_index req)) (rn_log n) @ ae_entries req else rn_log n) \<and>
      rn_commit n' = (if matches \<and> rn_commit n < ae_leader_commit req
        then min (ae_leader_commit req) (LastLogIndexLocked n') else rn_commit n)"
  using assms by (rule OnAppendEntries_spec)

theorem append_entries_spec_witness:
  "rn_log (snd (OnAppendEntries \<lparr>ae_term = 2, ae_leader_id = 1, ae_prev_log_index = 1, ae_prev_log_term = 1,
      ae_entries = [entry_put 2 ''c'' ''3''], ae_leader_commit = 0\<rparr> replicated_leader)) =
   [entry_put 1 ''a'' ''1'', entry_put 2 ''c'' ''3'']"
proof -
  let ?req = "\<lparr>ae_term = 2, ae_leader_id = 1, ae_prev_log_index = 1, ae_prev_log_term = 1,
      ae_entries = [entry_put 2 ''c'' ''3''], ae_leader_commit = 0\<rparr>"
  obtain resp n' where o: "OnAppendEntries ?req replicated_leader = (resp, n')"
    by (cases "OnAppendEntries ?req replicated_leader")
  have "log_small replicated_leader" by (simp add: log_small_def replicated_leader_def raft_new_def)
  from append_entries_spec [OF this o refl] o show ?thesis
    by (simp add: replicated_leader_def raft_new_def LastLogIndexLocked_def TermAtLocked_def entry_put_def
        word_le_nat_alt word_less_nat_alt)
qed

lemma heartbeat_delivered:
  assumes "sy_heartbeat s i = HSend p req ps" and "heartbeat_step i s s'" and "sy_heartbeat s' i = HGot p req resp ps"
    and "aer_success resp"
  shows "OnAppendEntries req (sy_nodes s p) = (resp, sy_nodes s' p)" and "v \<noteq> p \<Longrightarrow> sy_nodes s' v = sy_nodes s v"
proof -
  from assms(2,1,3) obtain ns where ns: "transport_AppendEntries (sy_reg s) p req (sy_nodes s) = (resp, ns)"
    "sy_nodes s' = ns"
    by (cases rule: heartbeat_step.cases) auto
  from inproc.append_entries_call [OF ns(1)] assms(4)
  show "OnAppendEntries req (sy_nodes s p) = (resp, sy_nodes s' p)" and "v \<noteq> p \<Longrightarrow> sy_nodes s' v = sy_nodes s v"
    by (auto simp: ns(2))
qed

lemma heartbeat_recorded:
  assumes "sy_heartbeat t i = HGot p req resp ps" and "heartbeat_step i t t'"
    and "aer_success resp" and "ae_entries req \<noteq> []" and "aer_term resp \<le> rn_term (sy_nodes t i)"
  shows "map_of (rn_match (sy_nodes t' i)) p = Some (ae_prev_log_index req + of_nat (length (ae_entries req)))"
proof -
  from assms(2,1) obtain go_on n where n: "heartbeat_response p req resp (sy_nodes t i) = (go_on, n)"
    "sy_nodes t' i = n"
    by (cases rule: heartbeat_step.cases) auto
  let ?last = "ae_prev_log_index req + of_nat (length (ae_entries req))"
  have adv: "rn_match (AdvanceCommitIndexLocked m) = rn_match m" for m
    by (simp add: AdvanceCommitIndexLocked_def Let_def)
  have "\<not> rn_term (sy_nodes t i) < aer_term resp" using assms(5) by simp
  then have "rn_match (snd (heartbeat_response p req resp (sy_nodes t i))) =
      map_touch p (AList.update p ?last (rn_match (sy_nodes t i)))"
    using assms(3,4) by (simp add: heartbeat_response_def Let_def adv)
  with n show ?thesis by (simp add: map_touch_def update_conv)
qed

text \<open>
  C24.  A heartbeat replicates.  In an orderly run, the heartbeat thread of node \<open>i\<close> delivers a request
  with entries that it built some time ago for the peer \<open>p\<close>; node \<open>i\<close> is still leader of the request's
  term and may have appended more entries since.  If the peer accepts, its log is then a
  prefix of the leader's log, and it ends with the last entry sent.  In whatever later state the leader
  handles that answer, unless it is in an older term than the answer, the match index it records for
  the peer is the length the peer's log had when it accepted.
\<close>

theorem heartbeat_replicates:
  assumes "orderly M s" and "i \<in> M" and "p \<in> M"
    and "sy_heartbeat s i = HSend p req ps" and "ae_entries req \<noteq> []"
    and "rn_role (sy_nodes s i) = Leader" and "rn_term (sy_nodes s i) = ae_term req"
    and "heartbeat_step i s s'" and "sy_heartbeat s' i = HGot p req resp ps" and "aer_success resp"
  shows "prefix (rn_log (sy_nodes s' p)) (rn_log (sy_nodes s' i)) \<and>
    length (rn_log (sy_nodes s' p)) = unat (ae_prev_log_index req) + length (ae_entries req) \<and>
    (\<forall>t t'. sy_heartbeat t i = HGot p req resp ps \<and> heartbeat_step i t t' \<and>
        aer_term resp \<le> rn_term (sy_nodes t i) \<longrightarrow>
       map_of (rn_match (sy_nodes t' i)) p = Some (of_nat (length (rn_log (sy_nodes s' p)))))"
proof -
  obtain h H led where inv: "ledger_inv M s h H led" using orderly_ledger [OF assms(1)] by blast
  have small: "log_small (sy_nodes s p)" using orderly_small [OF assms(1)] assms(3) by (simp add: logs_small_def)
  have "req \<in> in_flight M s" by (rule in_flightI(1) [OF assms(2)]) (simp add: assms(4))
  with inv assms(2,3,6,7) have ok: "append_ok H req" "log_ok H (H (ae_term req))" "log_ok H (rn_log (sy_nodes s p))"
    and lead: "rn_log (sy_nodes s i) = H (ae_term req)"
    by (auto simp: ledger_inv_def)
  note call = heartbeat_delivered [OF assms(4,8,9,10)]
  note acc = accepted_log [OF ok small call(1) assms(10,5)]
  have "prefix (rn_log (sy_nodes s' p)) (rn_log (sy_nodes s' i))"
    using acc(1) lead call(2) [of i] by (cases "i = p") simp_all
  moreover have "map_of (rn_match (sy_nodes t' i)) p = Some (of_nat (length (rn_log (sy_nodes s' p))))"
    if "sy_heartbeat t i = HGot p req resp ps" "heartbeat_step i t t'" "aer_term resp \<le> rn_term (sy_nodes t i)" for t t'
    using heartbeat_recorded [OF that(1,2) assms(10,5) that(3)] by (simp add: acc(2))
  ultimately show ?thesis using acc(2) by blast
qed

text \<open>Instance: the leader appends a second entry after the heartbeat was built with the first.\<close>

definition old_beat :: "raft_action list" where
  "old_beat = elect_0 @ [Propose 0 0 OpPut ''a'' ''1'', Beat 0, Beat 0, Propose 0 1 OpPut ''b'' ''2'']"

theorem heartbeat_replicates_witness:
  "\<exists>s s'. orderly {0, 1, 2} s \<and> heartbeat_step 0 s s' \<and> length (rn_log (sy_nodes s' 0)) = 2 \<and>
     length (rn_log (sy_nodes s' 1)) = 1 \<and> prefix (rn_log (sy_nodes s' 1)) (rn_log (sy_nodes s' 0))"
proof -
  let ?P = "\<lambda>s req ps s' resp. sy_heartbeat s 0 = HSend 1 req ps \<and> ae_entries req \<noteq> [] \<and>
      rn_role (sy_nodes s 0) = Leader \<and> rn_term (sy_nodes s 0) = ae_term req \<and>
      sy_heartbeat s' 0 = HGot 1 req resp ps \<and> aer_success resp \<and>
      length (rn_log (sy_nodes s' 0)) = 2 \<and> unat (ae_prev_log_index req) + length (ae_entries req) = 1"
  have "\<exists>s. orderly {0, 1, 2} s \<and> (case exec_action (Beat 0) s of None \<Rightarrow> False
      | Some s' \<Rightarrow> \<exists>req ps resp. ?P s req ps s' resp)"
    by (rule orderly_trace [where acts = old_beat])
      (simp_all add: old_beat_def trace_simps logs_small_def log_small_def)
  then obtain s s' req ps resp where s: "orderly {0, 1, 2} s" "exec_action (Beat 0) s = Some s'" "?P s req ps s' resp"
    by (auto split: option.splits)
  from s(2) have "heartbeat_step 0 s s'" by (auto intro: exec_beat_step)
  with heartbeat_replicates [OF s(1), of 0 1 req ps s' resp] s(1,3) show ?thesis by auto
qed

text \<open>
  C3.  Log matching.  In an orderly run of a cluster, if the logs of two nodes have an entry of the same
  term at the same index, they agree in it and in everything before it.  A run is orderly
  if no step comes between the two locked sections in which a proposal appends its entry and
  reads its index; all other interleavings are allowed.
\<close>

theorem log_matching:
  assumes "orderly M s" and "i \<in> M" and "j \<in> M"
    and "k < length (rn_log (sy_nodes s i))" and "k < length (rn_log (sy_nodes s j))"
    and "le_term (rn_log (sy_nodes s i) ! k) = le_term (rn_log (sy_nodes s j) ! k)"
  shows "take (Suc k) (rn_log (sy_nodes s i)) = take (Suc k) (rn_log (sy_nodes s j))"
proof -
  obtain h H led where inv: "ledger_inv M s h H led" using orderly_ledger [OF assms(1)] by blast
  with assms(2,3) have "log_ok H (rn_log (sy_nodes s i))" "log_ok H (rn_log (sy_nodes s j))"
    by (simp_all add: ledger_inv_def)
  then show ?thesis using assms(4-6) by (rule log_ok_match)
qed

theorem log_matching_witness:
  "\<exists>s. orderly {0, 1, 2} s \<and> rn_log (sy_nodes s 0) \<noteq> [] \<and> rn_log (sy_nodes s 0) = rn_log (sy_nodes s 1)"
proof -
  obtain s where s: "orderly {0, 1, 2} s" "length (rn_log (sy_nodes s 0)) = 1" "length (rn_log (sy_nodes s 1)) = 1"
    "le_term (rn_log (sy_nodes s 0) ! 0) = 1" "le_term (rn_log (sy_nodes s 1) ! 0) = 1"
    using replicated_entry_orderly by blast
  with log_matching [OF s(1), of 0 1 0] have "rn_log (sy_nodes s 0) = rn_log (sy_nodes s 1)" by simp
  with s show ?thesis by force
qed

text \<open>
  C22.  A leader only appends.  In every step of the cluster, a node that is leader of the same term
  before and after keeps its log and can only add entries at the end.
\<close>

theorem leader_append_only:
  assumes "raft_step M s s'" and "rn_role (sy_nodes s i) = Leader" and "rn_role (sy_nodes s' i) = Leader"
    and "rn_term (sy_nodes s' i) = rn_term (sy_nodes s i)"
  shows "prefix (rn_log (sy_nodes s i)) (rn_log (sy_nodes s' i))"
  using assms raft_step_leader_log by blast

theorem leader_append_only_witness:
  "case raft_run elect_0 three_sys of None \<Rightarrow> False
   | Some s \<Rightarrow> (case exec_action (Propose 0 0 OpPut ''a'' ''1'') s of None \<Rightarrow> False
     | Some s' \<Rightarrow> prefix (rn_log (sy_nodes s 0)) (rn_log (sy_nodes s' 0)) \<and> length (rn_log (sy_nodes s' 0)) = 1)"
proof -
  have "case raft_run elect_0 three_sys of None \<Rightarrow> False
    | Some s \<Rightarrow> (case exec_action (Propose 0 0 OpPut ''a'' ''1'') s of None \<Rightarrow> False
      | Some s' \<Rightarrow> rn_role (sy_nodes s 0) = Leader \<and> rn_role (sy_nodes s' 0) = Leader \<and>
          rn_term (sy_nodes s' 0) = rn_term (sy_nodes s 0) \<and> length (rn_log (sy_nodes s' 0)) = 1)"
    by (simp add: trace_simps)
  then show ?thesis
    using exec_action_step [of "Propose 0 0 OpPut ''a'' ''1''" _ _ "{0, 1, 2}"]
      leader_append_only [of "{0, 1, 2}" _ _ 0]
    by (auto split: option.splits)
qed

text \<open>
  C35.  An old request cuts off committed entries.  There is a run in which a client's request for
  its entry reaches a follower only after the heartbeats have brought that entry and
  the next one there and both are committed.  The follower accepts the old request and drops the second
  entry, keeps its commit index, and its apply thread then reads past the end of the log.
\<close>

theorem append_truncates_committed:
  "\<exists>s. raft_reachable {0, 1, 2} s \<and> rn_commit (sy_nodes s 1) = 2 \<and>
     length (rn_log (sy_nodes s 1)) = 1 \<and> sy_apply s 1 = AUndefined"
  by (rule trace_reachable [where acts = late_request]) (simp_all add: fault_trace_defs trace_simps)

text \<open>
  C36.  Two concurrent proposals make the replicas diverge.  There is a run in which one leader, in one
  term, appends entries for two clients, the first client's thread reads the index of the second
  entry and sends the first entry under it, and a follower stores the first entry
  twice.  Leader and follower then apply two entries each and hold different
  stores: the leader's has the second client's key, the follower's never gets it.
\<close>

theorem propose_race:
  "\<exists>s. raft_reachable {0, 1, 2} s \<and> rn_applied (sy_nodes s 0) = 2 \<and> rn_applied (sy_nodes s 1) = 2 \<and>
     kv_get ''b'' (sy_sm s 0) = Some ''2'' \<and> kv_get ''b'' (sy_sm s 1) = None"
  by (rule trace_reachable [where acts = crossed_clients])
    (simp_all add: fault_trace_defs trace_simps kv_get_def kv_new_def)

text \<open>
  C37.  A restarted node votes again.  Term and vote are kept in memory only: when nodes may be
  stopped, replaced by a new object and started again, there is a run in which a node
  votes for two candidates in one term and both are leaders of it at the same time.
\<close>

theorem restart_two_leaders:
  "\<exists>s. restart_reachable {0, 1, 2} s \<and> rn_role (sy_nodes s 0) = Leader \<and>
     rn_role (sy_nodes s 2) = Leader \<and> rn_term (sy_nodes s 0) = rn_term (sy_nodes s 2)"
  by (rule restart_trace_reachable [where acts = stop_voter and i = 1 and more_acts = second_election])
    (simp_all add: fault_trace_defs trace_simps may_restart_def raft_restart_def)

subsection \<open>Applying\<close>

text \<open>Repeated rounds of the apply loop, as long as there is an entry.\<close>

fun apply_rounds :: "nat \<Rightarrow> RaftNode \<Rightarrow> kvstore \<Rightarrow> RaftNode \<times> kvstore" where
  "apply_rounds 0 n s = (n, s)"
| "apply_rounds (Suc k) n s =
     (case apply_take n of
        ApplyEntry e n' \<Rightarrow> apply_rounds k n' (apply_entry e s)
      | ApplyNothing \<Rightarrow> (n, s)
      | ApplyOutOfBounds \<Rightarrow> (n, s))"

lemma apply_rounds_spec:
  assumes "unat (rn_applied n) + k = unat (rn_commit n)" and "unat (rn_commit n) \<le> length (rn_log n)"
  shows "apply_rounds k n s = (n\<lparr>rn_applied := rn_commit n\<rparr>,
    fold apply_entry (take k (drop (unat (rn_applied n)) (rn_log n))) s)"
  using assms
proof (induction k arbitrary: n s)
  case 0
  then have "rn_applied n = rn_commit n" by (simp add: word_unat_eq_iff)
  then show ?case by simp
next
  case (Suc k)
  have lt: "rn_applied n < rn_commit n" using Suc.prems(1) by (simp add: word_less_nat_alt)
  have ne: "1 + rn_applied n \<noteq> 0"
  proof
    assume "1 + rn_applied n = 0"
    then have "rn_applied n = - 1" by (simp add: add_eq_0_iff minus_equation_iff)
    with lt show False using word_order.extremum_strict by metis
  qed
  have suc: "unat (rn_applied n + 1) = Suc (unat (rn_applied n))"
    using unatSuc [OF ne] by (simp add: add.commute)
  let ?i = "unat (rn_applied n)"
  have i: "?i < length (rn_log n)" using Suc.prems by linarith
  have "apply_take n = ApplyEntry (rn_log n ! ?i) (n\<lparr>rn_applied := rn_applied n + 1\<rparr>)"
    using lt i by (simp add: apply_take_def Let_def)
  moreover have "apply_rounds k (n\<lparr>rn_applied := rn_applied n + 1\<rparr>) (apply_entry (rn_log n ! ?i) s) =
      (n\<lparr>rn_applied := rn_commit n\<rparr>,
       fold apply_entry (take k (drop (Suc ?i) (rn_log n))) (apply_entry (rn_log n ! ?i) s))"
    using Suc.IH [of "n\<lparr>rn_applied := rn_applied n + 1\<rparr>"] Suc.prems suc by simp
  moreover have "drop ?i (rn_log n) = rn_log n ! ?i # drop (Suc ?i) (rn_log n)"
    using i by (rule Cons_nth_drop_Suc [symmetric])
  ultimately show ?case by simp
qed

text \<open>The abstract meaning of an entry on the state machine's map.\<close>

fun entry_upd :: "LogEntry \<Rightarrow> (string \<rightharpoonup> string) \<Rightarrow> (string \<rightharpoonup> string)" where
  "entry_upd e m = (if le_op e = OpPut then m(le_key e \<mapsto> le_value e) else m(le_key e := None))"

lemma fold_apply_entry: "sm_lookup (fold apply_entry es s) = fold entry_upd es (sm_lookup s)"
  by (induction es arbitrary: s) (auto simp: apply_entry_def sm.lookup_put sm.lookup_del)

text \<open>
  C25.  The apply loop catches up.  On a node whose commit index is within its log, as many rounds
  as there are committed entries not yet applied bring the applied index to the commit index;
  the entries reach the state machine once each and in log order, so its map
  becomes their effect, and a further round finds nothing to do.
\<close>

theorem apply_catches_up:
  assumes "rn_applied n \<le> rn_commit n" and "unat (rn_commit n) \<le> length (rn_log n)"
    and "k = unat (rn_commit n) - unat (rn_applied n)" and "apply_rounds k n s = (n', s')"
  shows "n' = n\<lparr>rn_applied := rn_commit n\<rparr> \<and> apply_take n' = ApplyNothing \<and>
    sm_lookup s' = fold entry_upd (take k (drop (unat (rn_applied n)) (rn_log n))) (sm_lookup s)"
proof -
  have "unat (rn_applied n) + k = unat (rn_commit n)" using assms(1,3) by (simp add: word_le_nat_alt)
  from apply_rounds_spec [OF this assms(2), of s] assms(4) show ?thesis
    by (auto simp: fold_apply_entry apply_take_def)
qed

theorem apply_catches_up_witness:
  "sm_lookup (snd (apply_rounds 2 (replicated_leader\<lparr>rn_commit := 2\<rparr>) kv_new)) = [''a'' \<mapsto> ''1'', ''b'' \<mapsto> ''2'']"
proof -
  let ?n = "replicated_leader\<lparr>rn_commit := 2\<rparr>"
  obtain n' s' where a: "apply_rounds 2 ?n kv_new = (n', s')" by (cases "apply_rounds 2 ?n kv_new")
  have n: "rn_applied ?n = 0" "rn_commit ?n = 2" "rn_log ?n = [entry_put 1 ''a'' ''1'', entry_put 1 ''b'' ''2'']"
    by (simp_all add: replicated_leader_def raft_new_def)
  have "rn_applied ?n \<le> rn_commit ?n" "unat (rn_commit ?n) \<le> length (rn_log ?n)"
    "2 = unat (rn_commit ?n) - unat (rn_applied ?n)"
    unfolding n by simp_all
  from apply_catches_up [OF this a]
  have "sm_lookup s' = fold entry_upd (take 2 (drop (unat (rn_applied ?n)) (rn_log ?n))) (sm_lookup kv_new)" by blast
  also have "\<dots> = [''a'' \<mapsto> ''1'', ''b'' \<mapsto> ''2'']"
    unfolding n by (simp add: entry_put_def sm_lookup_def kv_get_def kv_new_def fun_eq_iff)
  finally show ?thesis by (simp add: a)
qed

end
