(* ===== verification/Raft_Propose.thy ===== *)
theory Raft_Propose
  imports Raft_Traces
begin

text \<open>
  Proposals return.  A thread in \<^verbatim>\<open>ProposePut\<close> or \<^verbatim>\<open>ProposeDel\<close> asks each peer at most twice; it never waits for
  another thread, and the number of its own locked sections and calls is bounded by the
  number of peers, whatever the others do in between.
\<close>

fun propose_work :: "nat \<Rightarrow> propose_pc \<Rightarrow> nat" where
  "propose_work N PIdle = 0"
| "propose_work N (PAppended e) = 4 * N + 4"
| "propose_work N (PSend req ps acks) = 2 * length ps + 2 * N + 3"
| "propose_work N (PGot req resp ps acks) = 2 * length ps + 2 * N + 4"
| "propose_work N PCommit = 2 * N + 2"
| "propose_work N (PBeat req ps) = 2 * length ps + 1"
| "propose_work N (PBeatGot req resp ps) = 2 * length ps + 2"
| "propose_work N (PDone b) = 0"

lemma exec_next_enabled: "sy_propose s i c \<noteq> PIdle \<Longrightarrow> exec_next i c s \<noteq> None"
  by (auto simp: exec_next_def Let_def split: propose_pc.splits list.splits prod.splits)

lemma exec_next_work:
  assumes "exec_next i c s = Some s'" and "\<forall>b. sy_propose s i c \<noteq> PDone b"
    and "N = length (rn_peers (sy_nodes s i))"
  shows "sy_propose s' i c \<noteq> PIdle \<and>
    propose_work N (sy_propose s' i c) < propose_work N (sy_propose s i c)"
  using assms
  by (auto simp: exec_next_def Let_def split: propose_pc.splits list.splits prod.splits propose_next.splits if_splits)

lemma exec_action_other:
  assumes "exec_action a s = Some s'" and "a \<noteq> ProposeNext i c" and "sy_propose s i c \<noteq> PIdle"
  shows "sy_propose s' i c = sy_propose s i c"
proof (cases a)
  case (Propose j d op k v)
  with assms show ?thesis by (auto simp: exec_propose_def split: if_splits option.splits)
next
  case (ProposeNext j d)
  with assms(1,2) have "propose_step j d s s'" "\<not> (j = i \<and> d = c)" by (auto simp: exec_next_step)
  then show ?thesis by (cases rule: propose_step.cases) auto
next
  case (Elect j)
  with assms(1) have "election_step j s s'" by (simp add: exec_elect_step)
  then show ?thesis by (cases rule: election_step.cases) auto
next
  case (Beat j)
  with assms(1) have "heartbeat_step j s s'" by (simp add: exec_beat_step)
  then show ?thesis by (cases rule: heartbeat_step.cases) auto
next
  case (Apply j)
  with assms(1) have "apply_step j s s'" by (simp add: exec_apply_step)
  then show ?thesis by (cases rule: apply_step.cases) auto
qed (use assms(1) in \<open>auto split: if_splits\<close>)

lemma exec_action_peers: "exec_action a s = Some s' \<Longrightarrow> rn_peers (sy_nodes s' i) = rn_peers (sy_nodes s i)"
  using raft_step_nodes [OF exec_action_step [of a s s' UNIV]] by (simp add: node_step_def)

lemma propose_done:
  assumes "raft_run acts s = Some s'" and "N = length (rn_peers (sy_nodes s i))"
    and "sy_propose s i c \<noteq> PIdle" and "propose_work N (sy_propose s i c) \<le> count_list acts (ProposeNext i c)"
  shows "\<exists>k s1 b. k \<le> length acts \<and> raft_run (take k acts) s = Some s1 \<and> sy_propose s1 i c = PDone b"
  using assms
proof (induction acts arbitrary: s)
  case Nil
  then obtain b where "sy_propose s i c = PDone b" by (cases "sy_propose s i c") auto
  then show ?case by simp
next
  case (Cons a acts)
  show ?case
  proof (cases "\<exists>b. sy_propose s i c = PDone b")
    case True
    then show ?thesis by (intro exI [of _ 0]) auto
  next
    case False
    from Cons.prems(1) obtain s2 where s2: "exec_action a s = Some s2" "raft_run acts s2 = Some s'"
      by (auto split: option.splits)
    have N: "N = length (rn_peers (sy_nodes s2 i))" using exec_action_peers [OF s2(1)] Cons.prems(2) by simp
    have "sy_propose s2 i c \<noteq> PIdle \<and>
        propose_work N (sy_propose s2 i c) \<le> count_list acts (ProposeNext i c)"
    proof (cases "a = ProposeNext i c")
      case True
      with exec_next_work [of i c s s2 N] s2(1) False Cons.prems(2,4) show ?thesis by auto
    next
      case False
      with exec_action_other [OF s2(1) False Cons.prems(3)] Cons.prems(3,4) show ?thesis by auto
    qed
    with Cons.IH [OF s2(2) N] obtain k s1 b where
      "k \<le> length acts" "raft_run (take k acts) s2 = Some s1" "sy_propose s1 i c = PDone b" by blast
    with s2(1) show ?thesis by (intro exI [of _ "Suc k"]) auto
  qed
qed

text \<open>
  C9.  A proposal returns.  A call that has appended its entry can always take its next step; and in every
  run in which its thread takes four steps for each peer and four more, whatever all other threads do,
  the call has come to its end, with a result.
\<close>

theorem propose_terminates:
  assumes "sy_propose s i c = PAppended e" and "raft_run acts s = Some s'"
    and "4 * length (rn_peers (sy_nodes s i)) + 4 \<le> count_list acts (ProposeNext i c)"
  shows "(\<forall>t. sy_propose t i c \<noteq> PIdle \<longrightarrow> exec_action (ProposeNext i c) t \<noteq> None) \<and>
    (\<exists>k s1 b. k \<le> length acts \<and> raft_run (take k acts) s = Some s1 \<and> sy_propose s1 i c = PDone b)"
  using propose_done [OF assms(2) refl] assms(1,3) exec_next_enabled by auto

theorem propose_terminates_witness:
  "case raft_run (elect_0 @ [Propose 0 0 OpPut ''a'' ''1'']) three_sys of None \<Rightarrow> False
   | Some s \<Rightarrow> (\<exists>k s1 b. raft_run (take k (replicate 9 (ProposeNext 0 0) @ [ProposeNext 0 0] @
       [Propose 0 0 OpDel ''a'' [], ProposeNext 0 0, ProposeNext 0 0])) s = Some s1 \<and> sy_propose s1 0 0 = PDone b)"
proof -
  let ?acts = "replicate 9 (ProposeNext 0 0) @ [ProposeNext 0 0] @
    [Propose 0 0 OpDel ''a'' [], ProposeNext 0 0, ProposeNext 0 0]"
  have "case raft_run (elect_0 @ [Propose 0 0 OpPut ''a'' ''1'']) three_sys of None \<Rightarrow> False
    | Some s \<Rightarrow> (case sy_propose s 0 0 of PAppended e \<Rightarrow> True | _ \<Rightarrow> False) \<and>
        length (rn_peers (sy_nodes s 0)) = 2 \<and> raft_run ?acts s \<noteq> None"
    by code_simp
  moreover have "count_list ?acts (ProposeNext 0 0) = 12" by code_simp
  ultimately show ?thesis
    using propose_terminates [of _ 0 0 _ ?acts] by (fastforce split: option.splits propose_pc.splits)
qed

end
