(* ===== verification/Raft_Demo.thy ===== *)
theory Raft_Demo
  imports Raft_Exec Text_Numbers
begin

text \<open>
  The programs that set up a cluster of three nodes: the set-up of \<^verbatim>\<open>src/src/cluster_demo.cpp\<close> and
  the whole of \<^verbatim>\<open>src/src/raft_demo.cpp\<close>, which elects a leader, proposes a value, crashes the
  leader, proposes to the next one, and restarts the crashed node.  The cluster's threads run
  while the program does; a schedule says what they do before each call of the program and
  while it waits.  A program is a function of the state and the schedule; it has no
  result under a schedule the threads cannot follow.
\<close>

subsection \<open>The cluster\<close>

definition cluster_sys :: raft_sys where
  "cluster_sys = \<lparr>sy_nodes = (\<lambda>i. raft_new i (filter (\<lambda>p. p \<noteq> i) [1, 2, 3])), sy_reg = {}, sy_running = {},
     sy_election = (\<lambda>_. EStopped), sy_heartbeat = (\<lambda>_. HStopped), sy_propose = (\<lambda>_ _. PIdle),
     sy_apply = (\<lambda>_. AStopped), sy_sm = (\<lambda>_. kv_new)\<rparr>"

subsection \<open>Programs beside the cluster\<close>

type_synonym 'a demo = "raft_action list list \<times> raft_sys \<Rightarrow> ('a \<times> raft_action list list \<times> raft_sys) option"

definition demo_return :: "'a \<Rightarrow> 'a demo" where
  "demo_return x = (\<lambda>(sched, s). Some (x, sched, s))"

definition demo_bind :: "'a demo \<Rightarrow> ('a \<Rightarrow> 'b demo) \<Rightarrow> 'b demo" where
  "demo_bind m f = (\<lambda>st. case m st of None \<Rightarrow> None | Some (x, st) \<Rightarrow> f x st)"

text \<open>What the threads of the nodes may do by themselves.\<close>

fun thread_action :: "raft_action \<Rightarrow> bool" where
  "thread_action (Elect i) = (i \<in> {1, 2, 3})"
| "thread_action (ElectExit i) = (i \<in> {1, 2, 3})"
| "thread_action (Beat i) = (i \<in> {1, 2, 3})"
| "thread_action (BeatExit i) = (i \<in> {1, 2, 3})"
| "thread_action (Apply i) = (i \<in> {1, 2, 3})"
| "thread_action (ApplyExit i) = (i \<in> {1, 2, 3})"
| "thread_action _ = False"

text \<open>The threads run for a while; \<open>ok\<close> says which actions are possible, an exhausted schedule is quiet.\<close>

definition demo_run :: "(raft_action \<Rightarrow> bool) \<Rightarrow> unit demo" where
  "demo_run ok = (\<lambda>(sched, s). case sched of
       [] \<Rightarrow> Some ((), [], s)
     | acts # sched \<Rightarrow>
         if list_all ok acts
         then (case raft_run acts s of None \<Rightarrow> None | Some s \<Rightarrow> Some ((), sched, s)) else None)"

definition demo_sleep :: "unit demo" where
  "demo_sleep = demo_run thread_action"

definition demo_do :: "raft_action \<Rightarrow> unit demo" where
  "demo_do a = (\<lambda>(sched, s). case exec_action a s of None \<Rightarrow> None | Some s \<Rightarrow> Some ((), sched, s))"

text \<open>A call of the program that is one step: the threads may have moved since the last one.\<close>

definition demo_act :: "raft_action \<Rightarrow> unit demo" where
  "demo_act a = demo_bind demo_sleep (\<lambda>_. demo_do a)"

definition demo_look :: "(raft_sys \<Rightarrow> 'a) \<Rightarrow> 'a demo" where
  "demo_look f = (\<lambda>(sched, s). Some (f s, sched, s))"

text \<open>One read of a node or a store.\<close>

definition demo_read :: "(raft_sys \<Rightarrow> 'a) \<Rightarrow> 'a demo" where
  "demo_read f = demo_bind demo_sleep (\<lambda>_. demo_look f)"

definition demo_role :: "int \<Rightarrow> RaftRole demo" where
  "demo_role i = demo_read (\<lambda>s. rn_role (sy_nodes s i))"

definition demo_term :: "int \<Rightarrow> u64 demo" where
  "demo_term i = demo_read (\<lambda>s. rn_term (sy_nodes s i))"

definition demo_get :: "int \<Rightarrow> string \<Rightarrow> string demo" where
  "demo_get i k = demo_read (\<lambda>s. case kv_get k (sy_sm s i) of None \<Rightarrow> ''(nil)'' | Some v \<Rightarrow> v)"

text \<open>
  A call of \<^verbatim>\<open>ProposePut\<close>: the calling thread and the cluster's threads run until it is done.  A
  call of \<^verbatim>\<open>Stop\<close> on a running node: the flag is cleared, and the threads run until those of the node have ended.
\<close>

definition demo_propose :: "int \<Rightarrow> string \<Rightarrow> string \<Rightarrow> bool demo" where
  "demo_propose i k v =
     demo_bind (demo_act (Propose i 0 OpPut k v)) (\<lambda>_.
     demo_bind (demo_run (\<lambda>a. thread_action a \<or> a = ProposeNext i 0)) (\<lambda>_.
     demo_bind (demo_look (\<lambda>s. sy_propose s i 0)) (\<lambda>pc.
     case pc of PDone b \<Rightarrow> demo_bind (demo_do (ProposeNext i 0)) (\<lambda>_. demo_return b) | _ \<Rightarrow> (\<lambda>_. None))))"

definition demo_stop :: "int \<Rightarrow> unit demo" where
  "demo_stop i =
     demo_bind (demo_look (\<lambda>s. i \<in> sy_running s)) (\<lambda>running.
     if \<not> running then demo_return ()
     else
       demo_bind (demo_act (StopNode i)) (\<lambda>_.
       demo_bind demo_sleep (\<lambda>_.
       demo_bind (demo_look (threads_ended i)) (\<lambda>ended.
       if ended then demo_return () else (\<lambda>_. None)))))"

text \<open>
  The nodes are registered and started, before a program does anything else.  A crashed node is replaced
  by a new object, registered and started.
\<close>

fun demo_acts :: "raft_action list \<Rightarrow> unit demo" where
  "demo_acts [] = demo_return ()"
| "demo_acts (a # as) = demo_bind (demo_act a) (\<lambda>_. demo_acts as)"

definition cluster_boot :: "unit demo" where
  "cluster_boot = demo_acts (map Register [1, 2, 3] @ map StartNode [1, 2, 3])"

definition demo_restart :: "int \<Rightarrow> unit demo" where
  "demo_restart i =
     demo_bind demo_sleep (\<lambda>_.
     demo_bind (\<lambda>(sched, s). Some ((), sched, raft_restart i s)) (\<lambda>_.
     demo_acts [Register i, StartNode i]))"

subsection \<open>\<^verbatim>\<open>raft_demo.cpp\<close>\<close>

fun role_name :: "RaftRole \<Rightarrow> string" where
  "role_name Follower = ''F''"
| "role_name Candidate = ''C''"
| "role_name Leader = ''L''"

fun status_nodes :: "int list \<Rightarrow> string demo" where
  "status_nodes [] = demo_return []"
| "status_nodes (i # is) =
     demo_bind (demo_role i) (\<lambda>r.
     demo_bind (demo_term i) (\<lambda>t.
     demo_bind (status_nodes is) (\<lambda>rest.
     demo_return (''n'' @ show_nat (nat i) @ ''('' @ role_name r @ '',t='' @ show_word t @ '')'' @
       (if is = [] then [] else '' '') @ rest))))"

text \<open>The first node of a list found to be leader.\<close>

fun find_leader :: "int list \<Rightarrow> int option demo" where
  "find_leader [] = demo_return None"
| "find_leader (i # is) =
     demo_bind (demo_role i) (\<lambda>r. if r = Leader then demo_return (Some i) else find_leader is)"

text \<open>
  At most \<open>k\<close> rounds of waiting for a leader among \<open>is\<close>; each round prints the state of all nodes
  behind the text \<open>pre\<close>.  Outputs are lists of lines.
\<close>

fun wait_leader :: "nat \<Rightarrow> string \<Rightarrow> int list \<Rightarrow> (string list \<times> int option) demo" where
  "wait_leader 0 pre is = demo_return ([], None)"
| "wait_leader (Suc k) pre is =
     demo_bind demo_sleep (\<lambda>_.
     demo_bind (find_leader is) (\<lambda>leader.
     demo_bind (status_nodes [1, 2, 3]) (\<lambda>line.
     case leader of
       Some l \<Rightarrow> demo_return ([pre @ line], Some l)
     | None \<Rightarrow>
         demo_bind (wait_leader k pre is) (\<lambda>(lines, leader).
         demo_return ((pre @ line) # lines, leader)))))"

fun print_gets :: "string \<Rightarrow> int list \<Rightarrow> string list demo" where
  "print_gets k [] = demo_return []"
| "print_gets k (i # is) =
     demo_bind (demo_get i k) (\<lambda>v.
     demo_bind (print_gets k is) (\<lambda>lines.
     demo_return ((''s'' @ show_nat (nat i) @ ''.get('' @ k @ '')='' @ v) # lines)))"

fun stop_all :: "int list \<Rightarrow> unit demo" where
  "stop_all [] = demo_return ()"
| "stop_all (i # is) = demo_bind (demo_stop i) (\<lambda>_. stop_all is)"

definition show_bool :: "bool \<Rightarrow> string" where
  "show_bool b = (if b then ''true'' else ''false'')"

text \<open>
  The three parts of \<^verbatim>\<open>main\<close>, each with the output so far; the result is the exit code, the lines
  of the output and those the program writes to the error stream itself.
\<close>

type_synonym demo_end = "int \<times> string list \<times> string list"

definition raft_demo_restart :: "string list \<Rightarrow> int \<Rightarrow> demo_end demo" where
  "raft_demo_restart out leader =
     demo_bind (demo_restart leader) (\<lambda>_.
     demo_bind demo_sleep (\<lambda>_.
     demo_bind (print_gets ''b'' [1, 2, 3]) (\<lambda>gets.
     demo_bind (stop_all [1, 2, 3]) (\<lambda>_.
     demo_return (0, out @ [[], ''=== Restarting crashed node ==='', ''after restart:''] @ gets, [])))))"

definition raft_demo_crash :: "string list \<Rightarrow> int \<Rightarrow> demo_end demo" where
  "raft_demo_crash out leader =
     demo_bind (demo_stop leader) (\<lambda>_.
     demo_bind (demo_act (Unregister leader)) (\<lambda>_.
     demo_bind (wait_leader 50 ''after crash: '' (filter (\<lambda>i. i \<noteq> leader) [1, 2, 3])) (\<lambda>(lines, new_leader).
     let out = out @ [[], ''=== Simulating leader crash ===''] @ lines in
     case new_leader of
       None \<Rightarrow>
         demo_bind (stop_all [1, 2, 3]) (\<lambda>_.
         demo_return (1, out, [''No new leader elected after crash'']))
     | Some l \<Rightarrow>
         demo_bind (demo_propose l ''b'' ''200'') (\<lambda>ok2.
         demo_bind demo_sleep (\<lambda>_.
         demo_bind (print_gets ''b'' [1, 2, 3]) (\<lambda>gets.
         raft_demo_restart
           (out @ [''New leader is node '' @ show_nat (nat l), ''ProposePut(b=200) -> '' @ show_bool ok2] @ gets)
           leader))))))"

definition raft_demo :: "demo_end demo" where
  "raft_demo =
     demo_bind (wait_leader 40 [] [1, 2, 3]) (\<lambda>(lines, leader).
     case leader of
       None \<Rightarrow>
         demo_bind (stop_all [1, 2, 3]) (\<lambda>_. demo_return (1, lines, [''No leader elected'']))
     | Some l \<Rightarrow>
         demo_bind (demo_propose l ''a'' ''100'') (\<lambda>ok1.
         demo_bind demo_sleep (\<lambda>_.
         demo_bind (print_gets ''a'' [1, 2, 3]) (\<lambda>gets.
         raft_demo_crash
           (lines @ [''Leader is node '' @ show_nat (nat l), ''ProposePut(a=100) -> '' @ show_bool ok1] @ gets)
           l))))"

text \<open>The program from its start, under a schedule.\<close>

definition raft_demo_main :: "raft_action list list \<Rightarrow> (demo_end \<times> raft_action list list \<times> raft_sys) option" where
  "raft_demo_main sched = demo_bind cluster_boot (\<lambda>_. raft_demo) (sched, cluster_sys)"

end
