(* ===== verification/Raft_Validity.thy ===== *)
theory Raft_Validity
  imports Raft_Traces Kv_Api
begin

text \<open>
  Validity: the cluster invents nothing.  In every run, whatever its interleaving and however the
  replicas may diverge, an entry of a log and a value of a replica's store was proposed by
  a client.
\<close>

type_synonym proposal = "OpType \<times> string \<times> string"

definition entry_proposal :: "LogEntry \<Rightarrow> proposal" where
  "entry_proposal e = (le_op e, le_key e, le_value e)"

fun action_proposals :: "raft_action \<Rightarrow> proposal set" where
  "action_proposals (Propose i c op k v) = {(op, k, v)}"
| "action_proposals _ = {}"

text \<open>The entries a thread holds.\<close>

fun heartbeat_held :: "heartbeat_pc \<Rightarrow> LogEntry set" where
  "heartbeat_held (HSend p req ps) = set (ae_entries req)"
| "heartbeat_held _ = {}"

fun propose_held :: "propose_pc \<Rightarrow> LogEntry set" where
  "propose_held (PAppended e) = {e}"
| "propose_held (PSend req ps acks) = set (ae_entries req)"
| "propose_held (PGot req resp ps acks) = set (ae_entries req)"
| "propose_held (PBeat req ps) = set (ae_entries req)"
| "propose_held (PBeatGot req resp ps) = set (ae_entries req)"
| "propose_held _ = {}"

fun apply_held :: "apply_pc \<Rightarrow> LogEntry set" where
  "apply_held (AGot e) = {e}"
| "apply_held _ = {}"

definition held :: "raft_sys \<Rightarrow> LogEntry set" where
  "held s = (\<Union>i. set (rn_log (sy_nodes s i)) \<union> heartbeat_held (sy_heartbeat s i) \<union>
     (\<Union>c. propose_held (sy_propose s i c)) \<union> apply_held (sy_apply s i))"

definition stored :: "raft_sys \<Rightarrow> proposal set" where
  "stored s = {(OpPut, k, v) | i k v. sm_lookup (sy_sm s i) k = Some v}"

definition only_from :: "proposal set \<Rightarrow> raft_sys \<Rightarrow> bool" where
  "only_from C s \<longleftrightarrow> entry_proposal ` held s \<subseteq> C \<and> stored s \<subseteq> C"

lemma heldI:
  "e \<in> set (rn_log (sy_nodes s i)) \<Longrightarrow> e \<in> held s"
  "e \<in> heartbeat_held (sy_heartbeat s i) \<Longrightarrow> e \<in> held s"
  "e \<in> propose_held (sy_propose s i c) \<Longrightarrow> e \<in> held s"
  "e \<in> apply_held (sy_apply s i) \<Longrightarrow> e \<in> held s"
  by (auto simp: held_def)

text \<open>A step that holds nothing new.\<close>

lemma held_mono:
  assumes "\<And>i. set (rn_log (sy_nodes s' i)) \<subseteq> E \<union> held s"
    and "\<And>i. heartbeat_held (sy_heartbeat s' i) \<subseteq> E \<union> held s"
    and "\<And>i c. propose_held (sy_propose s' i c) \<subseteq> E \<union> held s"
    and "\<And>i. apply_held (sy_apply s' i) \<subseteq> E \<union> held s"
  shows "held s' \<subseteq> E \<union> held s"
  using assms unfolding held_def [of s'] by blast

lemma OnAppendEntries_log: "OnAppendEntries req n = (resp, n') \<Longrightarrow> set (rn_log n') \<subseteq> set (rn_log n) \<union> set (ae_entries req)"
  by (auto simp: OnAppendEntries_def BecomeFollowerLocked_def Let_def split: if_splits dest: in_set_takeD)

lemma Build_entries: "set (ae_entries (BuildAppendEntriesLocked p n)) \<subseteq> set (rn_log n)"
  by (auto simp: BuildAppendEntriesLocked_def Let_def dest: in_set_dropD)

lemma calm_log: "calm n n' \<Longrightarrow> rn_log n' = rn_log n"
  by (simp add: calm_def)

lemma transport_AppendEntries_log:
  "transport_AppendEntries reg p req ns = (resp, ns') \<Longrightarrow>
   set (rn_log (ns' i)) \<subseteq> set (rn_log (ns i)) \<union> set (ae_entries req)"
  using inproc.append_entries_call [of reg p req ns resp ns']
  by (cases "i = p") (auto dest: OnAppendEntries_log [THEN subsetD])

lemma election_response_log: "election_response t v resp n = (n', v', b) \<Longrightarrow> rn_log n' = rn_log n"
  using election_response_calm [of t v resp n n' v' b] by (auto simp: calm_def BecomeLeaderLocked_def Let_def)

lemma election_step_held:
  assumes "election_step i s s'"
  shows "held s' = held s" and "sy_sm s' = sy_sm s"
proof -
  have "rn_log (sy_nodes s' j) = rn_log (sy_nodes s j)" for j
    using assms
  proof (cases rule: election_step.cases)
    case (ask_vote r p ps v resp ns)
    then show ?thesis using transport_RequestVote_calm [OF ask_vote(3), of j] by (simp add: calm_log)
  next
    case (got_vote r p resp ps v n v' go_on)
    then show ?thesis using election_response_log [OF got_vote(3)] by simp
  qed (auto simp: BecomeCandidateLocked_def)
  moreover have "sy_heartbeat s' = sy_heartbeat s" "sy_propose s' = sy_propose s" "sy_apply s' = sy_apply s"
    "sy_sm s' = sy_sm s"
    using assms by (cases rule: election_step.cases; simp)+
  ultimately show "held s' = held s" "sy_sm s' = sy_sm s" by (simp_all add: held_def)
qed

lemma heartbeat_step_held:
  assumes "heartbeat_step i s s'"
  shows "held s' \<subseteq> held s" and "sy_sm s' = sy_sm s"
proof -
  have same: "sy_propose s' = sy_propose s" "sy_apply s' = sy_apply s" "sy_sm s' = sy_sm s"
    using assms by (cases rule: heartbeat_step.cases; simp)+
  then show "sy_sm s' = sy_sm s" by simp
  have log: "set (rn_log (sy_nodes s' j)) \<subseteq> held s" for j
    using assms
  proof (cases rule: heartbeat_step.cases)
    case (heartbeat_send p req ps resp ns)
    then show ?thesis
      using transport_AppendEntries_log [OF heartbeat_send(3), of j] heldI(2) [of _ s i] heldI(1) [of _ s j] by auto
  next
    case (heartbeat_got p req resp ps go_on n)
    then show ?thesis using heartbeat_response_calm [OF heartbeat_got(3)] by (auto simp: calm_log intro: heldI)
  qed (auto intro: heldI)
  have hb: "heartbeat_held (sy_heartbeat s' j) \<subseteq> held s" for j
  proof (cases "j = i")
    case True
    from assms show ?thesis
    proof (cases rule: heartbeat_step.cases)
      case (heartbeat_build p ps pc)
      then show ?thesis
        using True Build_entries [of p "sy_nodes s i"] heldI(1) [of _ s i]
        by (auto simp: heartbeat_request_def split: option.splits if_splits)
    qed (auto simp: True)
  next
    case False
    with assms have "sy_heartbeat s' j = sy_heartbeat s j" by (cases rule: heartbeat_step.cases) auto
    then show ?thesis by (auto intro: heldI)
  qed
  show "held s' \<subseteq> held s"
    using held_mono [of s' "{}" s] log hb by (auto simp: same intro: heldI)
qed

lemma apply_take_entry: "apply_take n = ApplyEntry e n' \<Longrightarrow> e \<in> set (rn_log n)"
  by (auto simp: apply_take_def Let_def split: if_splits)

lemma apply_step_held:
  assumes "apply_step i s s'"
  shows "held s' \<subseteq> held s" and "stored s' \<subseteq> stored s \<union> entry_proposal ` held s"
proof -
  have same: "sy_propose s' = sy_propose s" "sy_heartbeat s' = sy_heartbeat s"
    using assms by (cases rule: apply_step.cases; simp)+
  have log: "rn_log (sy_nodes s' j) = rn_log (sy_nodes s j)" for j
    using assms by (cases rule: apply_step.cases) (auto dest!: apply_take_calm simp: calm_log)
  have "apply_held (sy_apply s' i) \<subseteq> held s"
    using assms by (cases rule: apply_step.cases) (auto dest!: apply_take_entry intro: heldI)
  moreover have "apply_held (sy_apply s' j) \<subseteq> held s" if "j \<noteq> i" for j
    using assms that by (cases rule: apply_step.cases) (auto intro: heldI)
  ultimately have "apply_held (sy_apply s' j) \<subseteq> held s" for j by (cases "j = i") auto
  with log show "held s' \<subseteq> held s" using held_mono [of s' "{}" s] by (auto simp: same intro: heldI)
  show "stored s' \<subseteq> stored s \<union> entry_proposal ` held s"
    using assms
  proof (cases rule: apply_step.cases)
    case (apply_to_sm e)
    then have "e \<in> held s" using heldI(4) [of e s i] by simp
    moreover have "sm_lookup (sy_sm s j) k = Some v \<or> entry_proposal e = (OpPut, k, v)"
      if "sm_lookup (sy_sm s' j) k = Some v" for j k v
      using that apply_to_sm(1)
      by (auto simp: apply_entry_def sm.lookup_put sm.lookup_del entry_proposal_def split: if_splits)
    ultimately show ?thesis unfolding stored_def by (force simp: image_iff)
  qed (auto simp: stored_def)
qed

lemma propose_step_held:
  assumes "propose_step i c s s'"
  shows "held s' \<subseteq> propose_held (sy_propose s' i c) \<union> held s" and "sy_sm s' = sy_sm s"
    and "propose_held (sy_propose s' i c) \<subseteq> held s \<or> sy_propose s i c = PIdle"
proof -
  have same: "sy_heartbeat s' = sy_heartbeat s" "sy_apply s' = sy_apply s" "sy_sm s' = sy_sm s"
    using assms by (cases rule: propose_step.cases; simp)+
  then show "sy_sm s' = sy_sm s" by simp
  have log: "set (rn_log (sy_nodes s' j)) \<subseteq> propose_held (sy_propose s' i c) \<union> held s" for j
    using assms
  proof (cases rule: propose_step.cases)
    case (propose_begin op key val e n)
    then show ?thesis by (auto simp: propose_append_def Let_def split: if_splits intro: heldI)
  next
    case (propose_send req p ps acks resp ns)
    then show ?thesis
      using transport_AppendEntries_log [OF propose_send(3), of j] heldI(3) [of _ s i c] heldI(1) [of _ s j] by auto
  next
    case (propose_beat req p ps resp ns)
    then show ?thesis
      using transport_AppendEntries_log [OF propose_beat(3), of j] heldI(3) [of _ s i c] heldI(1) [of _ s j] by auto
  next
    case (propose_got req resp ps acks nx n pc)
    then show ?thesis using propose_response_calm [OF propose_got(3)] by (auto simp: calm_log intro: heldI)
  next
    case (propose_beat_got req resp ps go_on n)
    then show ?thesis using heartbeat_answer_calm [OF propose_beat_got(3)] by (auto simp: calm_log intro: heldI)
  qed (auto intro: heldI)
  have "sy_propose s' j d = sy_propose s j d" if "\<not> (j = i \<and> d = c)" for j d
    using assms that by (cases rule: propose_step.cases) auto
  then have "propose_held (sy_propose s' j d) \<subseteq> propose_held (sy_propose s' i c) \<union> held s" for j d
    using heldI(3) [of _ s j d] by (cases "j = i \<and> d = c") auto
  with log show "held s' \<subseteq> propose_held (sy_propose s' i c) \<union> held s"
    using held_mono [of s' "propose_held (sy_propose s' i c)" s] by (auto simp: same intro: heldI)
  show "propose_held (sy_propose s' i c) \<subseteq> held s \<or> sy_propose s i c = PIdle"
    using assms heldI(3) [of _ s i c]
    by (cases rule: propose_step.cases)
      (auto simp: propose_request_def propose_heartbeat_def Let_def split: propose_next.splits if_splits)
qed

lemma only_fromI: "held s' \<subseteq> held s \<Longrightarrow> sy_sm s' = sy_sm s \<Longrightarrow> only_from C s \<Longrightarrow> only_from C s'"
  by (auto simp: only_from_def stored_def)

lemma only_from_add:
  assumes "held s' \<subseteq> E \<union> held s" and "sy_sm s' = sy_sm s" and "only_from C s" and "entry_proposal ` E \<subseteq> C"
  shows "only_from C s'"
proof -
  have "entry_proposal x \<in> C" if "x \<in> held s'" for x
    using assms(1,3,4) that unfolding only_from_def image_subset_iff by (meson Un_iff subset_iff)
  then show ?thesis using assms(2,3) by (auto simp: only_from_def stored_def)
qed

lemma exec_action_only_from:
  assumes "exec_action a s = Some s'" and "only_from C s" and "action_proposals a \<subseteq> C"
  shows "only_from C s'"
proof (cases a)
  case (Propose i c op k v)
  then have step: "propose_step i c s s'" using assms(1) by (simp add: exec_propose_step)
  have new: "entry_proposal ` propose_held (sy_propose s' i c) \<subseteq> C"
    using assms(1,3)
    by (auto simp: Propose exec_propose_def propose_append_def entry_proposal_def Let_def
        split: if_splits option.splits)
  show ?thesis by (rule only_from_add [OF propose_step_held(1,2) [OF step] assms(2) new])
next
  case (ProposeNext i c)
  then have "propose_step i c s s'" "sy_propose s i c \<noteq> PIdle"
    using assms(1) by (auto simp: exec_next_def intro: exec_next_step)
  with propose_step_held [of i c s s'] assms(2) show ?thesis by (intro only_fromI [of s']) auto
next
  case (Apply i)
  then have "apply_step i s s'" using assms(1) by (simp add: exec_apply_step)
  from apply_step_held [OF this] assms(2) show ?thesis unfolding only_from_def by blast
next
  case (Elect i)
  then have "election_step i s s'" using assms(1) by (simp add: exec_elect_step)
  from election_step_held [OF this] assms(2) show ?thesis by (intro only_fromI [of s']) auto
next
  case (Beat i)
  then have "heartbeat_step i s s'" using assms(1) by (simp add: exec_beat_step)
  from heartbeat_step_held [OF this] assms(2) show ?thesis by (intro only_fromI [of s']) auto
next
  case (StartNode i)
  have "held (raft_start i s) \<subseteq> held s"
    by (rule held_mono [of _ "{}", simplified]) (auto simp: raft_start_def intro: heldI split: if_splits)
  moreover have "sy_sm (raft_start i s) = sy_sm s" by (simp add: raft_start_def)
  ultimately show ?thesis using assms StartNode by (intro only_fromI [of s']) (auto split: if_splits)
qed (rule only_fromI [OF _ _ assms(2)]; use assms(1) in \<open>auto split: if_splits simp: raft_stop_def held_def\<close>)+

lemma raft_run_only_from:
  "raft_run as s = Some s' \<Longrightarrow> only_from C s \<Longrightarrow> (\<Union>a \<in> set as. action_proposals a) \<subseteq> C \<Longrightarrow> only_from C s'"
proof (induction as arbitrary: s)
  case (Cons a as)
  then obtain s1 where s1: "exec_action a s = Some s1" "raft_run as s1 = Some s'" by (auto split: option.splits)
  have "only_from C s1" by (rule exec_action_only_from [OF s1(1)]) (use Cons.prems in auto)
  with Cons.IH s1(2) Cons.prems(3) show ?case by simp
qed simp

lemma raft_restart_only_from: "only_from C s \<Longrightarrow> only_from C (raft_restart i s)"
proof (rule only_fromI [of _ s])
  show "held (raft_restart i s) \<subseteq> held s"
    by (rule held_mono [of _ "{}", simplified]) (auto simp: raft_restart_def raft_new_def intro: heldI split: if_splits)
qed (simp add: raft_restart_def)

text \<open>A cluster before anything was proposed.\<close>

definition blank :: "raft_sys \<Rightarrow> bool" where
  "blank s \<longleftrightarrow> (\<forall>i. rn_log (sy_nodes s i) = [] \<and> kv_map (sy_sm s i) = [] \<and> threads_ended i s \<and>
     (\<forall>c. sy_propose s i c = PIdle))"

lemma blank_only_from: "blank s \<Longrightarrow> only_from C s"
  by (auto simp: blank_def threads_ended_def only_from_def held_def stored_def sm_lookup_def kv_get_def)

text \<open>
  C8.  Validity.  In every run of a cluster that starts blank, however its threads are interleaved, each
  entry of a log and each value of a replica's store was proposed by a client of the run.
\<close>

theorem raft_validity:
  assumes "blank s0" and "raft_run acts s0 = Some s"
  shows "(e \<in> set (rn_log (sy_nodes s i)) \<longrightarrow>
      (\<exists>j c. Propose j c (le_op e) (le_key e) (le_value e) \<in> set acts)) \<and>
    (kv_get k (sy_sm s i) = Some v \<longrightarrow> (\<exists>j c. Propose j c OpPut k v \<in> set acts))"
proof -
  let ?C = "\<Union>a \<in> set acts. action_proposals a"
  have C: "\<exists>j c. Propose j c op k v \<in> set acts" if pr: "(op, k, v) \<in> ?C" for op k v
  proof -
    from pr obtain a where a: "a \<in> set acts" "(op, k, v) \<in> action_proposals a" by blast
    from a(2) have "\<exists>j c. a = Propose j c op k v" by (cases a) auto
    with a(1) show ?thesis by blast
  qed
  have o: "only_from ?C s"
    using assms by (intro raft_run_only_from [OF assms(2) blank_only_from]) auto
  have "(le_op e, le_key e, le_value e) \<in> ?C" if "e \<in> set (rn_log (sy_nodes s i))"
    using o heldI(1) [OF that] by (auto simp: only_from_def entry_proposal_def image_subset_iff)
  moreover have "(OpPut, k, v) \<in> ?C" if "kv_get k (sy_sm s i) = Some v"
  proof -
    have "(OpPut, k, v) \<in> stored s" using that by (auto simp: stored_def sm_lookup_def)
    with o show ?thesis unfolding only_from_def by blast
  qed
  ultimately show ?thesis using C by blast
qed

theorem raft_validity_witness:
  "case raft_run (elect_0 @ [Propose 0 0 OpPut ''a'' ''1'']) three_sys of None \<Rightarrow> False
   | Some s \<Rightarrow> length (rn_log (sy_nodes s 0)) = 1 \<and> (\<exists>j c. Propose j c (le_op (rn_log (sy_nodes s 0) ! 0))
       (le_key (rn_log (sy_nodes s 0) ! 0)) (le_value (rn_log (sy_nodes s 0) ! 0)) \<in>
       set (elect_0 @ [Propose 0 0 OpPut ''a'' ''1'']))"
proof -
  let ?acts = "elect_0 @ [Propose 0 0 OpPut ''a'' ''1'']"
  have "case raft_run ?acts three_sys of None \<Rightarrow> False | Some s \<Rightarrow> length (rn_log (sy_nodes s 0)) = 1"
    by (simp add: trace_simps)
  then obtain s where s: "raft_run ?acts three_sys = Some s" "length (rn_log (sy_nodes s 0)) = 1"
    by (auto split: option.splits)
  have "blank three_sys" by (simp add: blank_def three_sys_def three_nodes_def raft_new_def threads_ended_def kv_new_def)
  from raft_validity [OF this s(1), of "rn_log (sy_nodes s 0) ! 0" 0] s show ?thesis by (simp del: set_append)
qed

end
