(* ===== verification/Raft_Demo_Props.thy ===== *)
theory Raft_Demo_Props
  imports Raft_Demo Raft_Validity
begin

text \<open>
  What the demonstration of the cluster can print.  A program that runs beside the cluster keeps
  every property of the cluster's state that the threads and its own calls keep; the
  locale says this once for all programs.
\<close>

definition line_head :: "char \<Rightarrow> string \<Rightarrow> bool" where
  "line_head c line \<longleftrightarrow> line \<noteq> [] \<and> hd line = c"

text \<open>The lines that report what a store returned.\<close>

definition get_lines :: "string \<Rightarrow> string set \<Rightarrow> string set" where
  "get_lines k vs = {''s'' @ show_nat (nat i) @ ''.get('' @ k @ '')='' @ v | i v. i \<in> {1, 2, 3} \<and> v \<in> vs}"

definition honest :: "string list \<Rightarrow> bool" where
  "honest out \<longleftrightarrow> (\<forall>line \<in> set out. line_head (CHR ''s'') line \<longrightarrow>
     line \<in> get_lines ''a'' {''(nil)'', ''100''} \<union> get_lines ''b'' {''(nil)'', ''200''})"

lemma honest_append [simp]: "honest (xs @ ys) \<longleftrightarrow> honest xs \<and> honest ys"
  by (auto simp: honest_def)

lemma honest_other: "\<forall>line \<in> set out. line_head c line \<Longrightarrow> c \<noteq> CHR ''s'' \<Longrightarrow> honest out"
  by (auto simp: honest_def line_head_def)

lemma honest_gets:
  "set out \<subseteq> get_lines ''a'' {''(nil)'', ''100''} \<Longrightarrow> honest out"
  "set out \<subseteq> get_lines ''b'' {''(nil)'', ''200''} \<Longrightarrow> honest out"
  by (auto simp: honest_def)

lemma honest_Cons: "honest (line # out) \<longleftrightarrow> honest [line] \<and> honest out"
  by (simp add: honest_def)

lemma honest_line: "\<not> line_head (CHR ''s'') line \<Longrightarrow> honest [line]"
  by (simp add: honest_def)

text \<open>How the program can end.\<close>

definition demo_outcome :: "demo_end \<Rightarrow> bool" where
  "demo_outcome = (\<lambda>(code, out, err). honest out \<and>
     (code = 1 \<and> (err = [''No leader elected''] \<or> err = [''No new leader elected after crash'']) \<or>
      code = 0 \<and> err = [] \<and> (\<exists>l \<in> {1, 2, 3}. \<exists>l' \<in> {1, 2, 3} - {l}.
        ''Leader is node '' @ show_nat (nat l) \<in> set out \<and> ''New leader is node '' @ show_nat (nat l') \<in> set out)))"

lemma demo_outcome_done:
  "honest out \<Longrightarrow> l \<in> {1, 2, 3} \<Longrightarrow> l' \<in> {1, 2, 3} - {l} \<Longrightarrow>
   ''Leader is node '' @ show_nat (nat l) \<in> set out \<Longrightarrow> ''New leader is node '' @ show_nat (nat l') \<in> set out \<Longrightarrow>
   demo_outcome (0, out, [])"
  unfolding demo_outcome_def by blast

lemma demo_outcome_fail:
  "honest out \<Longrightarrow> err = [''No leader elected''] \<or> err = [''No new leader elected after crash''] \<Longrightarrow>
   demo_outcome (1, out, err)"
  unfolding demo_outcome_def by blast

locale demo_invariant =
  fixes I :: "raft_sys \<Rightarrow> bool" and allowed :: "raft_action \<Rightarrow> bool"
  assumes step: "exec_action a s = Some s' \<Longrightarrow> allowed a \<Longrightarrow> I s \<Longrightarrow> I s'"
    and restart: "I s \<Longrightarrow> I (raft_restart i s)"
    and threads: "thread_action a \<Longrightarrow> allowed a"
    and calls: "allowed (ProposeNext i c)" "allowed (StopNode i)" "allowed (StartNode i)"
      "allowed (Register i)" "allowed (Unregister i)"
begin

definition keeps :: "'a demo \<Rightarrow> ('a \<Rightarrow> bool) \<Rightarrow> bool" where
  "keeps m Q \<longleftrightarrow> (\<forall>sched s x sched' s'. I s \<longrightarrow> m (sched, s) = Some (x, sched', s') \<longrightarrow> I s' \<and> Q x)"

lemma keeps_return: "Q x \<Longrightarrow> keeps (demo_return x) Q"
  by (simp add: keeps_def demo_return_def)

lemma keeps_none: "keeps (\<lambda>_. None) Q"
  by (simp add: keeps_def)

lemma keeps_bind:
  assumes "keeps m Q" and "\<And>x. Q x \<Longrightarrow> keeps (f x) R"
  shows "keeps (demo_bind m f) R"
  unfolding keeps_def
proof (intro allI impI)
  fix sched s y sched' s'
  assume "I s" and "demo_bind m f (sched, s) = Some (y, sched', s')"
  then obtain x sched1 s1 where m: "m (sched, s) = Some (x, sched1, s1)" "f x (sched1, s1) = Some (y, sched', s')"
    by (auto simp: demo_bind_def split: option.splits)
  with assms(1) \<open>I s\<close> have "I s1" "Q x" unfolding keeps_def by blast+
  with assms(2) m(2) show "I s' \<and> R y" unfolding keeps_def by blast
qed

lemma keeps_weaken: "keeps m Q \<Longrightarrow> (\<And>x. Q x \<Longrightarrow> R x) \<Longrightarrow> keeps m R"
  unfolding keeps_def by blast

lemma run_keeps: "I s \<Longrightarrow> raft_run as s = Some s' \<Longrightarrow> list_all allowed as \<Longrightarrow> I s'"
proof (induction as arbitrary: s)
  case (Cons a as)
  then obtain s1 where s1: "exec_action a s = Some s1" "raft_run as s1 = Some s'" by (auto split: option.splits)
  with Cons.prems step [OF s1(1)] have "I s1" by simp
  with Cons s1 show ?case by simp
qed simp

lemma keeps_run:
  assumes "\<And>a. ok a \<Longrightarrow> allowed a"
  shows "keeps (demo_run ok) (\<lambda>_. True)"
proof -
  have "list_all ok as \<Longrightarrow> list_all allowed as" for as using assms by (auto simp: list_all_iff)
  then show ?thesis using run_keeps
    by (auto simp: keeps_def demo_run_def split: list.splits if_splits option.splits)
qed

lemma keeps_sleep: "keeps demo_sleep (\<lambda>_. True)"
  unfolding demo_sleep_def using threads by (rule keeps_run)

lemma keeps_do: "allowed a \<Longrightarrow> keeps (demo_do a) (\<lambda>_. True)"
  using step by (auto simp: keeps_def demo_do_def split: option.splits)

lemma keeps_act: "allowed a \<Longrightarrow> keeps (demo_act a) (\<lambda>_. True)"
  unfolding demo_act_def by (intro keeps_bind [OF keeps_sleep] keeps_do)

lemma keeps_acts: "list_all allowed as \<Longrightarrow> keeps (demo_acts as) (\<lambda>_. True)"
  by (induction as) (auto intro: keeps_bind keeps_return keeps_act)

lemma keeps_look: "(\<And>s. I s \<Longrightarrow> Q (f s)) \<Longrightarrow> keeps (demo_look f) Q"
  by (auto simp: keeps_def demo_look_def)

lemma keeps_read: "(\<And>s. I s \<Longrightarrow> Q (f s)) \<Longrightarrow> keeps (demo_read f) Q"
  unfolding demo_read_def by (intro keeps_bind [OF keeps_sleep] keeps_look)

lemma keeps_propose: "allowed (Propose i 0 OpPut k v) \<Longrightarrow> keeps (demo_propose i k v) (\<lambda>_. True)"
  unfolding demo_propose_def
  by (rule keeps_bind [OF keeps_act] keeps_bind [OF keeps_run] keeps_bind [OF keeps_look [where Q = "\<lambda>_. True"]]
      | auto intro: threads calls keeps_none keeps_return keeps_bind [OF keeps_do] split: propose_pc.split)+

lemma keeps_stop: "keeps (demo_stop i) (\<lambda>_. True)"
  unfolding demo_stop_def
  by (rule keeps_bind [OF keeps_look [where Q = "\<lambda>_. True"]])
    (auto intro!: keeps_return keeps_none calls keeps_bind [OF keeps_act] keeps_bind [OF keeps_sleep]
      keeps_bind [OF keeps_look [where Q = "\<lambda>_. True"]])

lemma keeps_stop_all: "keeps (stop_all is) (\<lambda>_. True)"
  by (induction "is") (auto intro: keeps_return keeps_bind [OF keeps_stop])

lemma keeps_restart: "keeps (demo_restart i) (\<lambda>_. True)"
proof -
  have "keeps (\<lambda>(sched, s). Some ((), sched, raft_restart i s)) (\<lambda>_. True)"
    using restart by (auto simp: keeps_def)
  then show ?thesis
    unfolding demo_restart_def using calls
    by (intro keeps_bind [OF keeps_sleep] keeps_bind [where Q = "\<lambda>_. True"] keeps_acts) auto
qed

lemma keeps_boot: "keeps cluster_boot (\<lambda>_. True)"
  unfolding cluster_boot_def by (intro keeps_acts) (simp add: calls)

lemma keeps_role: "keeps (demo_role i) (\<lambda>_. True)"
  unfolding demo_role_def by (rule keeps_read) simp

lemma keeps_term: "keeps (demo_term i) (\<lambda>_. True)"
  unfolding demo_term_def by (rule keeps_read) simp

lemma keeps_status: "keeps (status_nodes is) (\<lambda>line. is \<noteq> [] \<longrightarrow> line_head (CHR ''n'') line)"
proof (induction "is")
  case (Cons i "is")
  show ?case
    unfolding status_nodes.simps
    by (rule keeps_bind [OF keeps_role] keeps_bind [OF keeps_term] keeps_bind [OF Cons] keeps_return)+
      (simp add: line_head_def)
qed (simp add: keeps_return)

lemma keeps_find: "set is \<subseteq> A \<Longrightarrow> keeps (find_leader is) (\<lambda>l. \<forall>i. l = Some i \<longrightarrow> i \<in> A)"
  by (induction "is") (auto intro!: keeps_bind [OF keeps_role] keeps_return)

lemma keeps_wait:
  assumes "c = hd (pre @ ''n'')"
  shows "keeps (wait_leader k pre is) (\<lambda>(lines, l). (\<forall>line \<in> set lines. line_head c line) \<and>
    (\<forall>i. l = Some i \<longrightarrow> i \<in> set is))"
proof (induction k)
  case (Suc k)
  have line: "line_head (CHR ''n'') line \<Longrightarrow> line_head c (pre @ line)" for line
    using assms by (cases pre) (auto simp: line_head_def)
  show ?case
    unfolding wait_leader.simps
    by (rule keeps_bind [OF keeps_sleep] keeps_bind [OF keeps_find [OF order_refl]] keeps_bind [OF keeps_status])+
      (auto split: option.split intro!: keeps_return keeps_bind [OF Suc] simp: line)
qed (simp add: keeps_return)

lemma keeps_gets:
  assumes "\<And>s i v. I s \<Longrightarrow> kv_get k (sy_sm s i) = Some v \<Longrightarrow> v = w" and "set is \<subseteq> {1, 2, 3}"
  shows "keeps (print_gets k is) (\<lambda>lines. set lines \<subseteq> get_lines k {''(nil)'', w})"
  using assms(2)
proof (induction "is")
  case (Cons i "is")
  then have IH: "keeps (print_gets k is) (\<lambda>lines. set lines \<subseteq> get_lines k {''(nil)'', w})" by simp
  have get: "keeps (demo_get i k) (\<lambda>v. v \<in> {''(nil)'', w})"
    unfolding demo_get_def using assms(1) by (intro keeps_read) (auto split: option.split)
  have line: "''s'' @ show_nat (nat i) @ ''.get('' @ k @ '')='' @ v \<in> get_lines k {''(nil)'', w}"
    if "v \<in> {''(nil)'', w}" for v
    using that Cons.prems unfolding get_lines_def by auto
  show ?case
    unfolding print_gets.simps
    by (rule keeps_bind [OF get] keeps_bind [OF IH] keeps_return)+ (use line in auto)
qed (simp add: keeps_return)

lemma keeps_demo_restart:
  assumes "\<And>s i v. I s \<Longrightarrow> kv_get ''b'' (sy_sm s i) = Some v \<Longrightarrow> v = ''200''"
    and "honest out" and "l \<in> {1, 2, 3}" and "l' \<in> {1, 2, 3} - {l}"
    and "''Leader is node '' @ show_nat (nat l) \<in> set out" and "''New leader is node '' @ show_nat (nat l') \<in> set out"
  shows "keeps (raft_demo_restart out l) demo_outcome"
proof -
  have head: "honest [[], ''=== Restarting crashed node ==='', ''after restart:'']"
    by (simp add: honest_def line_head_def)
  have gets: "keeps (print_gets ''b'' [1, 2, 3]) (\<lambda>lines. set lines \<subseteq> get_lines ''b'' {''(nil)'', ''200''})"
    using assms(1) by (rule keeps_gets) auto
  have post: "demo_outcome (0, out @ [[], ''=== Restarting crashed node ==='', ''after restart:''] @ gets, [])"
    if "set gets \<subseteq> get_lines ''b'' {''(nil)'', ''200''}" for gets
  proof (rule demo_outcome_done [OF _ assms(3,4)])
    show "honest (out @ [[], ''=== Restarting crashed node ==='', ''after restart:''] @ gets)"
      using assms(2) head honest_gets(2) [OF that] by (simp only: honest_append)
  qed (use assms(5,6) in simp_all)
  show ?thesis
    unfolding raft_demo_restart_def
    by (rule keeps_bind [OF keeps_restart] keeps_bind [OF keeps_sleep] keeps_bind [OF gets] keeps_bind [OF keeps_stop_all]
        keeps_return post)+
qed

lemma keeps_demo_crash:
  assumes "\<And>s i v. I s \<Longrightarrow> kv_get ''b'' (sy_sm s i) = Some v \<Longrightarrow> v = ''200''"
    and "\<And>i. allowed (Propose i 0 OpPut ''b'' ''200'')"
    and "honest out" and "l \<in> {1, 2, 3}" and "''Leader is node '' @ show_nat (nat l) \<in> set out"
  shows "keeps (raft_demo_crash out l) demo_outcome"
proof -
  have gets: "keeps (print_gets ''b'' [1, 2, 3]) (\<lambda>lines. set lines \<subseteq> get_lines ''b'' {''(nil)'', ''200''})"
    using assms(1) by (rule keeps_gets) auto
  have wait: "keeps (wait_leader 50 ''after crash: '' (filter (\<lambda>i. i \<noteq> l) [1, 2, 3]))
      (\<lambda>(lines, l'). honest lines \<and> (\<forall>i. l' = Some i \<longrightarrow> i \<in> {1, 2, 3} - {l}))"
    by (rule keeps_weaken [OF keeps_wait [OF refl]]) (auto intro: honest_other split: if_splits)
  have head: "honest [[], ''=== Simulating leader crash ===''] "
    "honest [''New leader is node '' @ x, ''ProposePut(b=200) -> '' @ y]" for x y
    by (simp_all add: honest_def line_head_def)
  have none: "demo_outcome (1, out @ [[], ''=== Simulating leader crash ===''] @ lines, [''No new leader elected after crash''])"
    if "honest lines" for lines
    by (rule demo_outcome_fail) (use assms(3) head(1) that in \<open>simp_all only: honest_append\<close>, simp)
  have rest: "keeps (raft_demo_restart ((out @ [[], ''=== Simulating leader crash ===''] @ lines) @
      [''New leader is node '' @ show_nat (nat l'), ''ProposePut(b=200) -> '' @ show_bool ok] @ gets) l) demo_outcome"
    if "honest lines" "l' \<in> {1, 2, 3} - {l}" "set gets \<subseteq> get_lines ''b'' {''(nil)'', ''200''}" for lines l' ok gets
  proof (rule keeps_demo_restart [OF assms(1) _ assms(4) that(2)])
    show "honest ((out @ [[], ''=== Simulating leader crash ===''] @ lines) @
      [''New leader is node '' @ show_nat (nat l'), ''ProposePut(b=200) -> '' @ show_bool ok] @ gets)"
      using assms(3) that(1) honest_gets(2) [OF that(3)] head by (simp only: honest_append)
  qed (use assms(5) in simp_all)
  have found: "keeps (case l' of
      None \<Rightarrow> demo_bind (stop_all [1, 2, 3]) (\<lambda>_. demo_return
        (1, out @ [[], ''=== Simulating leader crash ===''] @ lines, [''No new leader elected after crash'']))
    | Some l' \<Rightarrow> demo_bind (demo_propose l' ''b'' ''200'') (\<lambda>ok2. demo_bind demo_sleep (\<lambda>_.
        demo_bind (print_gets ''b'' [1, 2, 3]) (\<lambda>gets. raft_demo_restart
          ((out @ [[], ''=== Simulating leader crash ===''] @ lines) @ [''New leader is node '' @ show_nat (nat l'),
            ''ProposePut(b=200) -> '' @ show_bool ok2] @ gets) l)))) demo_outcome"
    if "honest lines" "\<forall>i. l' = Some i \<longrightarrow> i \<in> {1, 2, 3} - {l}" for lines l'
  proof (cases l')
    case None
    show ?thesis
      unfolding None option.case by (rule keeps_bind [OF keeps_stop_all] keeps_return none [OF that(1)])+
  next
    case (Some i)
    with that have i: "i \<in> {1, 2, 3} - {l}" by simp
    show ?thesis
      unfolding Some option.case
      by (rule keeps_bind [OF keeps_propose [OF assms(2)]] keeps_bind [OF keeps_sleep] keeps_bind [OF gets]
          rest [OF that(1) i])+
  qed
  show ?thesis
    unfolding raft_demo_crash_def Let_def
    by ((rule keeps_bind [OF keeps_stop] keeps_bind [OF keeps_act [OF calls(5)]] keeps_bind [OF wait])+,
        simp only: split_paired_all prod.case) (rule found; blast)
qed

lemma keeps_raft_demo:
  assumes "\<And>s i v. I s \<Longrightarrow> kv_get ''a'' (sy_sm s i) = Some v \<Longrightarrow> v = ''100''"
    and "\<And>s i v. I s \<Longrightarrow> kv_get ''b'' (sy_sm s i) = Some v \<Longrightarrow> v = ''200''"
    and "\<And>i. allowed (Propose i 0 OpPut ''a'' ''100'')" and "\<And>i. allowed (Propose i 0 OpPut ''b'' ''200'')"
  shows "keeps raft_demo demo_outcome"
proof -
  have gets: "keeps (print_gets ''a'' [1, 2, 3]) (\<lambda>lines. set lines \<subseteq> get_lines ''a'' {''(nil)'', ''100''})"
    using assms(1) by (rule keeps_gets) auto
  have wait: "keeps (wait_leader 40 [] [1, 2, 3]) (\<lambda>(lines, l). honest lines \<and> (\<forall>i. l = Some i \<longrightarrow> i \<in> {1, 2, 3}))"
    by (rule keeps_weaken [OF keeps_wait [OF refl]]) (auto intro: honest_other)
  have head: "honest [''Leader is node '' @ x, ''ProposePut(a=100) -> '' @ y]" for x y
    by (simp add: honest_def line_head_def)
  have rest: "keeps (raft_demo_crash (lines @ [''Leader is node '' @ show_nat (nat l),
      ''ProposePut(a=100) -> '' @ show_bool ok] @ gets) l) demo_outcome"
    if "honest lines" "l \<in> {1, 2, 3}" "set gets \<subseteq> get_lines ''a'' {''(nil)'', ''100''}" for lines l ok gets
  proof (rule keeps_demo_crash [OF assms(2,4) _ that(2)])
    show "honest (lines @ [''Leader is node '' @ show_nat (nat l), ''ProposePut(a=100) -> '' @ show_bool ok] @ gets)"
      using that(1) honest_gets(1) [OF that(3)] head by (simp only: honest_append)
  qed simp_all
  have found: "keeps (case l of
      None \<Rightarrow> demo_bind (stop_all [1, 2, 3]) (\<lambda>_. demo_return (1, lines, [''No leader elected'']))
    | Some l \<Rightarrow> demo_bind (demo_propose l ''a'' ''100'') (\<lambda>ok1. demo_bind demo_sleep (\<lambda>_.
        demo_bind (print_gets ''a'' [1, 2, 3]) (\<lambda>gets. raft_demo_crash
          (lines @ [''Leader is node '' @ show_nat (nat l), ''ProposePut(a=100) -> '' @ show_bool ok1] @ gets) l)))) demo_outcome"
    if "honest lines" "\<forall>i. l = Some i \<longrightarrow> i \<in> {1, 2, 3}" for lines l
  proof (cases l)
    case None
    have "demo_outcome (1, lines, [''No leader elected''])" using that(1) by (simp add: demo_outcome_fail)
    then show ?thesis unfolding None option.case by (intro keeps_bind [OF keeps_stop_all] keeps_return)
  next
    case (Some i)
    with that have i: "i \<in> {1, 2, 3}" by simp
    show ?thesis
      unfolding Some option.case
      by (rule keeps_bind [OF keeps_propose [OF assms(3)]] keeps_bind [OF keeps_sleep] keeps_bind [OF gets]
          rest [OF that(1) i])+
  qed
  show ?thesis
    unfolding raft_demo_def
    by (rule keeps_bind [OF wait], simp only: split_paired_all prod.case) (rule found; blast)
qed

end

text \<open>What the two proposals of the program allow.\<close>

definition demo_proposals :: "proposal set" where
  "demo_proposals = {(OpPut, ''a'', ''100''), (OpPut, ''b'', ''200'')}"

interpretation demo_values: demo_invariant "only_from demo_proposals" "\<lambda>a. action_proposals a \<subseteq> demo_proposals"
proof unfold_locales
  show "action_proposals a \<subseteq> demo_proposals" if "thread_action a" for a
    using that by (cases a) auto
qed (auto intro: exec_action_only_from raft_restart_only_from)

lemma stored_value:
  "only_from demo_proposals s \<Longrightarrow> kv_get k (sy_sm s i) = Some v \<Longrightarrow> (OpPut, k, v) \<in> demo_proposals"
  unfolding only_from_def stored_def sm_lookup_def by blast

text \<open>
  C27.  What the demonstration of the cluster shows.  Under every schedule of the cluster's threads under
  which the program ends, it reports that there was no leader and exits with 1, or it has printed
  two different nodes as the first and the second leader and exits with 0; and every value it reports
  from a store is the one that was proposed for the key, or none.
\<close>

theorem raft_demo_outcome:
  assumes "raft_demo_main sched = Some (result, sched', s)"
  shows "demo_outcome result"
proof -
  have "blank cluster_sys"
    by (simp add: blank_def cluster_sys_def raft_new_def threads_ended_def kv_new_def)
  then have start: "only_from demo_proposals cluster_sys" by (rule blank_only_from)
  have "demo_values.keeps raft_demo demo_outcome"
    by (rule demo_values.keeps_raft_demo) (use stored_value in \<open>fastforce simp: demo_proposals_def\<close>)+
  then have "demo_values.keeps (demo_bind cluster_boot (\<lambda>_. raft_demo)) demo_outcome"
    by (intro demo_values.keeps_bind [OF demo_values.keeps_boot])
  with start assms show ?thesis unfolding demo_values.keeps_def raft_demo_main_def by blast
qed

text \<open>A schedule for the whole program: node 1 is elected, replicates and crashes, then node 2.\<close>

definition quiet :: "nat \<Rightarrow> raft_action list list" where
  "quiet n = replicate n []"

definition exits :: "int \<Rightarrow> raft_action list list" where
  "exits i = [[], [ElectExit i, BeatExit i, ApplyExit i]]"

definition demo_schedule :: "raft_action list list" where
  "demo_schedule =
     quiet 6 @ [replicate 3 (Elect 1)] @ quiet 8 @ [replicate 9 (ProposeNext 1 0)] @
     [replicate 8 (Beat 1) @ replicate 2 (Apply 1) @ replicate 2 (Apply 3)] @ quiet 3 @ exits 1 @ quiet 1 @
     [replicate 5 (Elect 2)] @ quiet 8 @ [replicate 11 (ProposeNext 2 0)] @ quiet 11 @
     exits 1 @ exits 2 @ exits 3"

theorem raft_demo_outcome_witness:
  "case raft_demo_main demo_schedule of None \<Rightarrow> False
   | Some ((code, out, err), sched, s) \<Rightarrow> code = 0 \<and> ''s1.get(a)=100'' \<in> set out \<and>
       ''ProposePut(b=200) -> true'' \<in> set out \<and> demo_outcome (code, out, err)"
proof -
  have "case raft_demo_main demo_schedule of None \<Rightarrow> False
    | Some ((code, out, err), sched, s) \<Rightarrow> code = 0 \<and> ''s1.get(a)=100'' \<in> set out \<and>
       ''ProposePut(b=200) -> true'' \<in> set out"
    by code_simp
  then show ?thesis
    using raft_demo_outcome [of demo_schedule] by (auto split: option.splits)
qed

end
