(* ===== verification/Server.thy ===== *)
theory Server
  imports Raft Text_Numbers Framing
begin

text \<open>
  The programs around the engine: the line protocol of \<^verbatim>\<open>src/src/server_main.cpp\<close> and
  \<^verbatim>\<open>src/src/cluster_demo.cpp\<close>, the client's redirect in \<^verbatim>\<open>src/src/kv_client.cpp\<close>, and the
  command line of \<^verbatim>\<open>src/src/main.cpp\<close>.  Sockets are the bytes that arrive; the results of
  \<^verbatim>\<open>ProposePut\<close> and \<^verbatim>\<open>ProposeDel\<close>, which run concurrently with the cluster, are arguments.
\<close>

subsection \<open>Words and numbers of a line\<close>

text \<open>\<^verbatim>\<open>iss >> word\<close> on an empty string variable: it stays empty when no word is left.\<close>

definition next_word :: "string \<Rightarrow> string \<times> string" where
  "next_word s = (case extract_word s of None \<Rightarrow> ([], []) | Some (w, rest) \<Rightarrow> (w, rest))"

text \<open>
  \<^verbatim>\<open>iss >> n\<close> for an \<^verbatim>\<open>int\<close>: None leaves the variable unchanged (nothing left to read); text
  that is no number gives 0, a number out of range the nearest limit.
\<close>

definition extract_int :: "string \<Rightarrow> int option" where
  "extract_int s =
     (if dropWhile is_space s = [] then None
      else Some (case scan_number s of
             None \<Rightarrow> 0
           | Some (neg, n) \<Rightarrow> max (- (2 ^ 31)) (min (2 ^ 31 - 1) (if neg then - int n else int n))))"

subsection \<open>Lines of a connection\<close>

text \<open>One line at the front of the pending bytes: \<^verbatim>\<open>pending.find('\n', pos)\<close> and \<^verbatim>\<open>substr\<close>.\<close>

definition next_line :: "string \<Rightarrow> (string \<times> string) option" where
  "next_line pending =
     (if NL \<in> set pending
      then Some (takeWhile (\<lambda>c. c \<noteq> NL) pending, drop 1 (dropWhile (\<lambda>c. c \<noteq> NL) pending))
      else None)"

definition strip_cr :: "string \<Rightarrow> string" where
  "strip_cr line = (if line \<noteq> [] \<and> last line = CHR 0x0D then butlast line else line)"

text \<open>
  The loops over the reads of one connection: after each read, every complete line is
  handled in order, with its reply written back; the rest stays pending.  \<open>h\<close> is the handler
  of a line, which has a state of its own; the connection ends with the last read.
\<close>

fun handle_lines :: "(string \<Rightarrow> 's \<Rightarrow> string \<times> 's) \<Rightarrow> string list \<Rightarrow> 's \<Rightarrow> string list \<times> 's" where
  "handle_lines h [] s = ([], s)"
| "handle_lines h (line # lines) s =
     (let (resp, s) = h (strip_cr line) s;
          (resps, s) = handle_lines h lines s
      in (resp # resps, s))"

fun serve_conn ::
    "(string \<Rightarrow> 's \<Rightarrow> string \<times> 's) \<Rightarrow> string \<Rightarrow> string list \<Rightarrow> 's \<Rightarrow> string list \<times> string \<times> 's" where
  "serve_conn h pending [] s = ([], pending, s)"
| "serve_conn h pending (buffer # bufs) s =
     (let (lines, pending) = decode_all next_line (pending @ buffer);
          (resps, s) = handle_lines h lines s;
          (resps', pending, s) = serve_conn h pending bufs s
      in (resps @ resps', pending, s))"

text \<open>One connection after the other: \<^verbatim>\<open>accept\<close> is called again when a connection is closed.\<close>

fun serve_all :: "(string \<Rightarrow> 's \<Rightarrow> string \<times> 's) \<Rightarrow> string list list \<Rightarrow> 's \<Rightarrow> string list list \<times> 's" where
  "serve_all h [] s = ([], s)"
| "serve_all h (bufs # conns) s =
     (let (resps, pending, s) = serve_conn h [] bufs s;
          (all, s) = serve_all h conns s
      in (resps # all, s))"

subsection \<open>\<^verbatim>\<open>handle_command\<close> of the server\<close>

text \<open>\<open>raft\<close> is the node's pointer; \<open>prop op k v\<close> is what a proposal to it returns.\<close>

definition server_command ::
    "io \<Rightarrow> RaftNode option \<Rightarrow> (OpType \<Rightarrow> string \<Rightarrow> string \<Rightarrow> bool) \<Rightarrow> string \<Rightarrow> sys \<Rightarrow> string \<times> sys" where
  "server_command io raft prop line sd =
     (let is_leader = (case raft of None \<Rightarrow> False | Some n \<Rightarrow> rn_role n = Leader);
          (cmd, s0) = next_word line
      in if cmd = ''PUT'' then
           (if \<not> is_leader then (''NOT_LEADER'' @ [NL], sd)
            else let (k, s1) = next_word s0; (v, s2) = next_word s1
                 in if k = [] \<or> v = [] then (''ERR usage: PUT key value'' @ [NL], sd)
                    else (if prop OpPut k v then ''OK'' @ [NL] else ''FAIL'' @ [NL], sd))
         else if cmd = ''GET'' then
           (let (k, s1) = next_word s0
            in if k = [] then (''ERR usage: GET key'' @ [NL], sd)
               else (case kv_get k (fst sd) of
                       Some v \<Rightarrow> (''VALUE '' @ v @ [NL], sd)
                     | None \<Rightarrow> (''NOT_FOUND'' @ [NL], sd)))
         else if cmd = ''DEL'' then
           (if \<not> is_leader then (''NOT_LEADER'' @ [NL], sd)
            else let (k, s1) = next_word s0
                 in if k = [] then (''ERR usage: DEL key'' @ [NL], sd)
                    else (if prop OpDel k [] then ''OK'' @ [NL] else ''NOT_FOUND'' @ [NL], sd))
         else if cmd = ''SIZE'' then (''SIZE '' @ show_nat (kv_size (fst sd)) @ [NL], sd)
         else if cmd = ''FLUSH'' then
           (let (ok, sd) = flush_wal io sd
            in (if ok then ''FLUSH_OK'' @ [NL] else ''FLUSH_FAIL'' @ [NL], sd))
         else if cmd = ''PING'' then (''PONG'' @ [NL], sd)
         else if cmd = ''STATUS'' then
           (case raft of
              None \<Rightarrow> (''ROLE UNKNOWN'' @ [NL], sd)
            | Some n \<Rightarrow> (if is_leader then ''ROLE LEADER'' @ [NL] else ''ROLE FOLLOWER'' @ [NL], sd))
         else (''ERR unknown command'' @ [NL], sd))"

subsection \<open>\<^verbatim>\<open>handle_command\<close> of the cluster\<close>

definition port_for_node :: "int \<Rightarrow> int" where
  "port_for_node node_id =
     (if node_id = 1 then 9101 else if node_id = 2 then 9102 else if node_id = 3 then 9103 else - 1)"

definition show_int :: "int \<Rightarrow> string" where
  "show_int i = (if i < 0 then ''-'' @ show_nat (nat (- i)) else show_nat (nat i))"

definition not_leader_reply :: "RaftNode option \<Rightarrow> string" where
  "not_leader_reply raft =
     (let leader_port = (case raft of
            None \<Rightarrow> - 1
          | Some n \<Rightarrow> (case rn_leader n of None \<Rightarrow> - 1 | Some l \<Rightarrow> port_for_node l))
      in if 0 < leader_port then ''NOT_LEADER '' @ show_int leader_port @ [NL]
         else ''NOT_LEADER UNKNOWN'' @ [NL])"

text \<open>The reply, and whether the node was told to stop.\<close>

definition cluster_command ::
    "RaftNode option \<Rightarrow> (OpType \<Rightarrow> string \<Rightarrow> string \<Rightarrow> bool) \<Rightarrow> string \<Rightarrow> kvstore \<Rightarrow> string \<times> bool" where
  "cluster_command raft prop line s =
     (let (cmd, s0) = next_word line;
          is_leader = (case raft of None \<Rightarrow> False | Some n \<Rightarrow> rn_role n = Leader)
      in if cmd = ''PUT'' then
           (let (k, s1) = next_word s0; (v, s2) = next_word s1
            in if k = [] \<or> v = [] then (''ERR usage: PUT key value'' @ [NL], False)
               else if \<not> is_leader then (not_leader_reply raft, False)
               else (if prop OpPut k v then ''OK'' @ [NL] else ''FAIL'' @ [NL], False))
         else if cmd = ''GET'' then
           (let (k, s1) = next_word s0
            in if k = [] then (''ERR usage: GET key'' @ [NL], False)
               else (case kv_get k s of
                       Some v \<Rightarrow> (''VALUE '' @ v @ [NL], False)
                     | None \<Rightarrow> (''NOT_FOUND'' @ [NL], False)))
         else if cmd = ''DEL'' then
           (let (k, s1) = next_word s0
            in if k = [] then (''ERR usage: DEL key'' @ [NL], False)
               else if \<not> is_leader then (not_leader_reply raft, False)
               else (if prop OpDel k [] then ''OK'' @ [NL] else ''NOT_FOUND'' @ [NL], False))
         else if cmd = ''SIZE'' then (''SIZE '' @ show_nat (kv_size s) @ [NL], False)
         else if cmd = ''STATUS'' then
           (case raft of
              None \<Rightarrow> (''ROLE UNKNOWN'' @ [NL], False)
            | Some n \<Rightarrow> (if is_leader then ''ROLE LEADER'' @ [NL] else ''ROLE FOLLOWER'' @ [NL], False))
         else if cmd = ''PING'' then (''PONG'' @ [NL], False)
         else if cmd = ''KILL'' then
           (case raft of None \<Rightarrow> (''ERR no raft'' @ [NL], False) | Some n \<Rightarrow> (''STOPPED'' @ [NL], True))
         else (''ERR unknown command'' @ [NL], False))"

subsection \<open>The client's redirect\<close>

text \<open>The port the client sends its command to again, if any.\<close>

definition client_redirect :: "string \<Rightarrow> int option" where
  "client_redirect resp =
     (if starts_with ''NOT_LEADER '' resp then
        let (tag, s) = next_word resp;
            leader_port = (case extract_int s of None \<Rightarrow> - 1 | Some n \<Rightarrow> n)
        in if 0 < leader_port then Some leader_port else None
      else None)"

subsection \<open>The command line\<close>

text \<open>
  One line of the loop in \<^verbatim>\<open>main\<close>: the output, whether the loop ends, and the state.  \<open>uninit\<close> is
  the value of the variable that \<^verbatim>\<open>SETBATCH\<close> reads without initialising it, \<open>report\<close> the text of
  the measurement.
\<close>

definition bench_puts :: "(nat \<Rightarrow> io) \<Rightarrow> string \<Rightarrow> nat \<Rightarrow> sys \<Rightarrow> sys" where
  "bench_puts ios name n sd = fold (\<lambda>i. kv_put (ios i) (name @ show_nat i) ''v'') [0..<n] sd"

definition cli_line ::
    "(nat \<Rightarrow> io) \<Rightarrow> (kvmap \<Rightarrow> kvmap) \<Rightarrow> int \<Rightarrow> (int \<Rightarrow> string) \<Rightarrow> string \<Rightarrow> sys \<Rightarrow> string \<times> bool \<times> sys" where
  "cli_line ios ord uninit report line sd =
     (let (cmd, s0) = next_word line
      in if cmd = ''PUT'' then
           (let (k, s1) = next_word s0; (v, s2) = next_word s1
            in (''OK'' @ [NL], False, kv_put (ios 0) k v sd))
         else if cmd = ''BENCH'' then
           (let n = (case extract_int s0 of None \<Rightarrow> 100000 | Some n \<Rightarrow> n);
                sd = bench_puts ios ''warm'' 1000 sd;
                sd = snd (flush_wal (ios 1000) sd);
                sd = bench_puts (\<lambda>i. ios (1001 + i)) ''k'' (nat n) sd;
                sd = snd (flush_wal (ios (1001 + nat n)) sd)
            in (report n, False, sd))
         else if cmd = ''SETBATCH'' then
           (let n = (case extract_int s0 of None \<Rightarrow> uninit | Some n \<Rightarrow> n)
            in (''OK batch='' @ show_int n @ [NL], False, (set_group_commit_every n (fst sd), snd sd)))
         else if cmd = ''GET'' then
           (let (k, s1) = next_word s0
            in ((case kv_get k (fst sd) of Some v \<Rightarrow> v | None \<Rightarrow> ''(nil)'') @ [NL], False, sd))
         else if cmd = ''EXIT'' then (''bye'' @ [NL], True, sd)
         else if cmd = ''SNAP'' then
           (let (ok, sd) = checkpoint (ios 0) ord kv_snapshot ''/tmp/kv.wal'' sd
            in (if ok then ''SNAP OK'' @ [NL] else ''SNAP FAIL'' @ [NL], False, sd))
         else if cmd = ''FLUSH'' then
           (let (ok, sd) = flush_wal (ios 0) sd
            in (if ok then ''FLUSH OK'' @ [NL] else ''FLUSH FAIL'' @ [NL], False, sd))
         else (''Unknown'' @ [NL], False, sd))"

text \<open>
  The loop over the input lines, up to \<^verbatim>\<open>EXIT\<close> or the end of the input; \<open>ios k\<close> are the outcomes
  of the system calls for the \<open>k\<close>-th line.
\<close>

fun cli_loop ::
    "(nat \<Rightarrow> nat \<Rightarrow> io) \<Rightarrow> (kvmap \<Rightarrow> kvmap) \<Rightarrow> int \<Rightarrow> (int \<Rightarrow> string) \<Rightarrow> string list \<Rightarrow> sys \<Rightarrow> string list \<times> sys" where
  "cli_loop ios ord uninit report [] sd = ([], sd)"
| "cli_loop ios ord uninit report (line # lines) sd =
     (let (out, stop, sd) = cli_line (ios 0) ord uninit report line sd
      in if stop then ([out], sd)
         else (let (outs, sd) = cli_loop (\<lambda>k. ios (Suc k)) ord uninit report lines sd in (out # outs, sd)))"

end
