(* ===== verification/Network.thy ===== *)
theory Network
  imports Server
begin

text \<open>
  The programs around a socket: \<^verbatim>\<open>main\<close> of \<^verbatim>\<open>src/src/server_main.cpp\<close>, \<^verbatim>\<open>run_server\<close> of
  \<^verbatim>\<open>src/src/cluster_demo.cpp\<close>, and the client of \<^verbatim>\<open>src/src/kv_client.cpp\<close>.  What the operating system
  answers is an argument: whether the socket could be set up, the connections accepted so far with
  the bytes of each read, and for the client what comes back for the bytes it sent.
\<close>

subsection \<open>Numbers on the command line\<close>

text \<open>
  \<^verbatim>\<open>std::atoi\<close> of the GNU library: \<^verbatim>\<open>strtol\<close>, which stops at the limits of a 64-bit \<^verbatim>\<open>long\<close>,
  converted to \<^verbatim>\<open>int\<close>.  A port is converted to 16 bits.
\<close>

definition atoi :: "string \<Rightarrow> int" where
  "atoi s =
     (case scan_number s of
        None \<Rightarrow> 0
      | Some (neg, n) \<Rightarrow>
          signed_take_bit 31 (max (- (2 ^ 63)) (min (2 ^ 63 - 1) (if neg then - int n else int n))))"

definition port_bits :: "int \<Rightarrow> int" where
  "port_bits port = take_bit 16 port"

subsection \<open>The client\<close>

text \<open>
  One exchange as the client sees it; \<^verbatim>\<open>Received bs\<close> are the bytes that are there when it reads,
  none if the peer has closed the connection.
\<close>

datatype exchange = NoSocket | NoConnection | ReadError | Received string

definition send_command :: "(int \<Rightarrow> string \<Rightarrow> exchange) \<Rightarrow> int \<Rightarrow> string \<Rightarrow> string" where
  "send_command net port cmd =
     (case net (port_bits port) (cmd @ [NL]) of
        NoSocket \<Rightarrow> ''ERR socket'' @ [NL]
      | NoConnection \<Rightarrow> ''ERR connect'' @ [NL]
      | ReadError \<Rightarrow> ''ERR read'' @ [NL]
      | Received bs \<Rightarrow>
          let buf = take (4096 - 1) bs
          in if buf = [] then ''ERR read'' @ [NL] else takeWhile (\<lambda>c. c \<noteq> CHR 0x00) buf)"

text \<open>
  The arguments are those after the program's name; \<open>net 0\<close> and \<open>net 1\<close> are the network at the
  first and at the second exchange.  The result is the exit code and the two outputs.
\<close>

definition client_main ::
    "(nat \<Rightarrow> int \<Rightarrow> string \<Rightarrow> exchange) \<Rightarrow> string list \<Rightarrow> int \<times> string \<times> string" where
  "client_main net args =
     (case args of
        a # cmd # _ \<Rightarrow>
          let resp = send_command (net 0) (atoi a) cmd;
              out = ''response: '' @ resp
          in (case client_redirect resp of
                None \<Rightarrow> (0, out, [])
              | Some leader_port \<Rightarrow>
                  (0, out @ ''redirecting to '' @ show_int leader_port @ [NL] @
                      ''response: '' @ send_command (net 1) leader_port cmd, []))
      | _ \<Rightarrow> (1, [], ''usage: kv_client <port> '' @ [CHR 0x22] @ ''COMMAND'' @ [CHR 0x22, NL]))"

subsection \<open>The server\<close>

record net_setup =
  ns_socket :: bool
  ns_bind :: bool
  ns_listen :: bool

definition setup_error :: "net_setup \<Rightarrow> string option" where
  "setup_error su =
     (if \<not> ns_socket su then Some ''socket() failed''
      else if \<not> ns_bind su then Some ''bind() failed''
      else if \<not> ns_listen su then Some ''listen() failed''
      else None)"

text \<open>
  The left result is an exit with its code and message, the right one the output and the replies
  on the connections accepted so far: the loop over connections has no end.  There is no
  Raft node, so the outcome of a proposal is never asked for.  The state of the loop counts the
  lines, for the outcomes \<open>ios k\<close> of the system calls that the \<open>k\<close>-th line makes.
\<close>

definition server_handler :: "(nat \<Rightarrow> io) \<Rightarrow> string \<Rightarrow> nat \<times> sys \<Rightarrow> string \<times> nat \<times> sys" where
  "server_handler ios line ksd =
     (case ksd of (k, sd) \<Rightarrow>
       let (r, sd) = server_command (ios k) None (\<lambda>_ _ _. False) line sd in (r, (Suc k, sd)))"

definition server_main ::
    "(nat \<Rightarrow> io) \<Rightarrow> net_setup \<Rightarrow> string list \<Rightarrow> string list list \<Rightarrow> disk \<Rightarrow>
     (int \<times> string + string \<times> string list list) \<times> sys" where
  "server_main ios su args conns d =
     (let port = (case args of [] \<Rightarrow> 9000 | a # _ \<Rightarrow> atoi a);
          (opened, sd) = kv_open (ios 0) ''/tmp/kv_server.wal'' (kv_new, d)
      in if \<not> opened then (Inl (1, ''failed to open WAL'' @ [NL]), sd)
         else (case setup_error su of
                 Some msg \<Rightarrow> (Inl (1, msg @ [NL]), sd)
               | None \<Rightarrow>
                   let (resps, k, sd) = serve_all (server_handler ios) conns (1, sd)
                   in (Inr (''kv_server listening on port '' @ show_int port @ [NL], resps), sd)))"

subsection \<open>The server of a cluster node\<close>

text \<open>
  The cluster runs while a node's server handles its lines.  \<open>env k\<close> is what the handler finds
  when it handles the \<open>k\<close>-th line: the node, the outcome of a proposal made then, and the store.
  The state of the loop counts the lines and remembers a \<^verbatim>\<open>KILL\<close>.
\<close>

record moment =
  mo_raft :: "RaftNode option"
  mo_prop :: "OpType \<Rightarrow> string \<Rightarrow> string \<Rightarrow> bool"
  mo_store :: kvstore

definition cluster_handler ::
    "(nat \<Rightarrow> moment) \<Rightarrow> string \<Rightarrow> nat \<times> bool \<Rightarrow> string \<times> nat \<times> bool" where
  "cluster_handler env line = (\<lambda>(k, killed).
     let (resp, stop) = cluster_command (mo_raft (env k)) (mo_prop (env k)) line (mo_store (env k))
     in (resp, Suc k, killed \<or> stop))"

definition run_server ::
    "net_setup \<Rightarrow> int \<Rightarrow> (nat \<Rightarrow> moment) \<Rightarrow> string list list \<Rightarrow>
     string + string \<times> string list list \<times> bool" where
  "run_server su port env conns =
     (case setup_error su of
        Some msg \<Rightarrow> Inl (msg @ '' on port '' @ show_int port @ [NL])
      | None \<Rightarrow>
          let (resps, k, killed) = serve_all (cluster_handler env) conns (0, False)
          in Inr (''server listening on port '' @ show_int port @ [NL], resps, killed))"

text \<open>The three servers of the cluster's program, each in a thread of its own beside its node.\<close>

definition cluster_servers ::
    "(int \<Rightarrow> net_setup) \<Rightarrow> (int \<Rightarrow> nat \<Rightarrow> moment) \<Rightarrow> (int \<Rightarrow> string list list) \<Rightarrow>
     (string + string \<times> string list list \<times> bool) list" where
  "cluster_servers su env conns =
     map (\<lambda>(port, i). run_server (su port) port (env i) (conns port)) [(9101, 1), (9102, 2), (9103, 3)]"

end
