(* ===== verification/Server_Props.thy ===== *)
theory Server_Props
  imports Server Kv_Api
begin

text \<open>The properties of the line protocol, the redirect and the command line.\<close>

subsection \<open>Lines\<close>

definition line_image :: "string \<Rightarrow> string" where
  "line_image l = l @ [NL]"

lemma takeWhile_line: "NL \<notin> set l \<Longrightarrow> takeWhile (\<lambda>c. c \<noteq> NL) (l @ NL # r) = l"
  by (auto simp: takeWhile_append)

lemma dropWhile_line: "NL \<notin> set l \<Longrightarrow> dropWhile (\<lambda>c. c \<noteq> NL) (l @ NL # r) = NL # r"
  by (auto simp: dropWhile_append)

lemma next_line_Some:
  assumes "next_line bs = Some (l, rest)"
  shows "bs = line_image l @ rest" and "NL \<notin> set l"
proof -
  from assms have nl: "NL \<in> set bs" and l: "l = takeWhile (\<lambda>c. c \<noteq> NL) bs"
    and rest: "rest = drop 1 (dropWhile (\<lambda>c. c \<noteq> NL) bs)"
    by (auto simp: next_line_def split: if_splits)
  show "NL \<notin> set l" unfolding l by (auto dest: set_takeWhileD)
  from nl have "dropWhile (\<lambda>c. c \<noteq> NL) bs = NL # rest"
    unfolding rest by (cases "dropWhile (\<lambda>c. c \<noteq> NL) bs") (auto dest: hd_dropWhile [of _ bs] simp: dropWhile_eq_Nil_conv,
        metis (full_types) dropWhile_eq_Cons_conv)
  then show "bs = line_image l @ rest"
    using takeWhile_dropWhile_id [of "\<lambda>c. c \<noteq> NL" bs] by (simp add: l line_image_def)
qed

interpretation line_frames: framing line_image next_line "\<lambda>l. NL \<notin> set l"
proof unfold_locales
  show "next_line (line_image r @ rest) = Some (r, rest)" if "NL \<notin> set r" for r rest
    using that by (simp add: next_line_def line_image_def takeWhile_line dropWhile_line)
  show "next_line p = None" if "NL \<notin> set r" "strict_prefix p (line_image r)" for r p
  proof -
    from that(2) have "prefix p r" by (auto simp: line_image_def strict_prefix_def prefix_snoc)
    with that(1) have "NL \<notin> set p" by (auto simp: prefix_def)
    then show ?thesis by (simp add: next_line_def)
  qed
  show "length rest < length bs" if "next_line bs = Some (r, rest)" for bs r rest
    using next_line_Some [OF that] by (simp add: line_image_def)
qed

lemma decode_lines:
  "decode_all next_line bs = (ls, rest) \<Longrightarrow>
   bs = concat (map line_image ls) @ rest \<and> (\<forall>l \<in> set ls. NL \<notin> set l) \<and> NL \<notin> set rest"
proof (induction "length bs" arbitrary: bs ls rest rule: less_induct)
  case less
  show ?case
  proof (cases "next_line bs")
    case None
    with less.prems show ?thesis
      by (simp add: decode_all_None) (simp add: next_line_def split: if_splits)
  next
    case (Some p)
    then obtain l r where l: "next_line bs = Some (l, r)" by (cases p) auto
    obtain ls' where ls: "ls = l # ls'" "decode_all next_line r = (ls', rest)"
      using less.prems line_frames.decode_all_step [OF l] by (cases "decode_all next_line r") auto
    from less.hyps [OF line_frames.dec_consumes [OF l] ls(2)] next_line_Some [OF l] ls(1)
    show ?thesis by simp
  qed
qed

lemma decode_lines_append:
  assumes "decode_all next_line x = (ls, rest)"
  shows "decode_all next_line (x @ y) =
    (ls @ fst (decode_all next_line (rest @ y)), snd (decode_all next_line (rest @ y)))"
  using decode_lines [OF assms] line_frames.decode_all_append [of ls "rest @ y"] by simp

lemma handle_lines_append:
  "handle_lines h (ls @ ls') s =
     (let (rs, s) = handle_lines h ls s; (rs', s) = handle_lines h ls' s in (rs @ rs', s))"
  by (induction ls arbitrary: s) (auto simp: Let_def split: prod.splits)

lemma serve_conn_chunking:
  assumes "NL \<notin> set pending"
  shows "serve_conn h pending bufs s =
    (let (lines, left) = decode_all next_line (pending @ concat bufs);
         (resps, s) = handle_lines h lines s
     in (resps, left, s))"
  using assms
proof (induction bufs arbitrary: pending s)
  case Nil
  then have "next_line pending = None" by (simp add: next_line_def)
  then show ?case by (simp add: decode_all_None)
next
  case (Cons b bufs)
  obtain ls rest where d: "decode_all next_line (pending @ b) = (ls, rest)"
    by (cases "decode_all next_line (pending @ b)")
  from decode_lines [OF d] have "NL \<notin> set rest" by simp
  from Cons.IH [OF this] decode_lines_append [OF d, of "concat bufs"] d show ?case
    by (simp add: handle_lines_append Let_def split: prod.splits)
qed

text \<open>
  C30.  What a server does on a connection does not depend on how the network cuts the stream.  For
  any sequence of reads, the replies and the final state are those of handling the complete
  lines of all the bytes received, in order, each without its line end, and the bytes
  after the last line end stay pending.
\<close>

theorem serve_reads_chunking:
  assumes "NL \<notin> set pending"
  shows "serve_conn h pending bufs s =
    (let (lines, left) = decode_all next_line (pending @ concat bufs);
         (resps, s) = handle_lines h lines s
     in (resps, left, s))"
  using assms by (rule serve_conn_chunking)

theorem serve_reads_chunking_witness:
  "serve_conn (\<lambda>line n. (line, Suc n)) [] [''PI'', ''NG'' @ [CHR 0x0D], [NL] @ ''SIZE'' @ [NL] @ ''G''] 0 =
   ([''PING'', ''SIZE''], ''G'', 2)"
proof -
  have "decode_all next_line (''PING'' @ [CHR 0x0D, NL] @ ''SIZE'' @ [NL] @ ''G'') = ([''PING'' @ [CHR 0x0D], ''SIZE''], ''G'')"
    by (simp add: decode_all.simps next_line_def)
  with serve_reads_chunking [of "[]" "\<lambda>line n. (line, Suc n)" "[''PI'', ''NG'' @ [CHR 0x0D], [NL] @ ''SIZE'' @ [NL] @ ''G'']" 0]
  show ?thesis by (simp add: strip_cr_def)
qed

subsection \<open>Commands\<close>

lemma extract_word_last: "is_word w \<Longrightarrow> extract_word w = Some (w, [])"
  by (cases w) (auto simp: is_word_def extract_word_def list_all_iff takeWhile_eq_all_conv dropWhile_eq_Nil_conv)

lemma next_word_word: "is_word w \<Longrightarrow> is_space c \<Longrightarrow> next_word (w @ c # s) = (w, c # s)"
  by (simp add: next_word_def extract_word_word)

lemma next_word_blank: "is_space b \<Longrightarrow> next_word (b # s) = next_word s"
  by (simp add: next_word_def)

lemma next_word_last: "is_word w \<Longrightarrow> next_word w = (w, [])"
  by (simp add: next_word_def extract_word_last)

lemma is_word_lits: "is_word ''PUT''" "is_word ''GET''" "is_word ''NOT_LEADER''" "is_word ''DEL''"
  by (simp_all add: is_word_def is_space_def)

lemma next_word_PUT: "next_word (CHR ''P'' # CHR ''U'' # CHR ''T'' # CHR '' '' # s) = (''PUT'', CHR '' '' # s)"
  using next_word_word [OF is_word_lits(1), of "CHR '' ''" s] by simp

lemma next_word_GET: "next_word (CHR ''G'' # CHR ''E'' # CHR ''T'' # CHR '' '' # s) = (''GET'', CHR '' '' # s)"
  using next_word_word [OF is_word_lits(2), of "CHR '' ''" s] by simp

lemma next_word_Nil: "next_word [] = ([], [])"
  by (simp add: next_word_def)

lemma is_word_nonempty: "is_word w \<Longrightarrow> w \<noteq> []"
  by (simp add: is_word_def)

lemmas line_words = next_word_PUT next_word_GET next_word_Nil next_word_blank next_word_word
  next_word_last is_word_nonempty

lemma scan_number_field:
  assumes "is_space b" and "\<not> is_digit c"
  shows "scan_number (b # show_nat n @ c # s) = Some (False, n)"
proof -
  obtain d ds where sn: "show_nat n = d # ds" using show_nat_nonempty by (metis neq_Nil_conv)
  then have d: "is_digit d" using show_nat_digits [of n] by simp
  have tw: "takeWhile is_digit (show_nat n @ c # s) = show_nat n"
    using show_nat_digits [of n] assms(2) by (auto simp: list_all_iff takeWhile_append)
  have dw: "dropWhile is_space (b # show_nat n @ c # s) = show_nat n @ c # s"
    using assms(1) is_digit_char(1) [OF d] by (simp add: sn)
  have hd: "hd (show_nat n @ c # s) = d" by (simp add: sn)
  show ?thesis
    unfolding scan_number_def Let_def dw hd using is_digit_char [OF d] tw by simp
qed

lemma redirect_port:
  assumes "0 < p" and "p < 2 ^ 31"
  shows "client_redirect (''NOT_LEADER '' @ show_int p @ [NL]) = Some p"
proof -
  let ?rest = "CHR '' '' # show_nat (nat p) @ [NL]"
  have resp: "''NOT_LEADER '' @ show_int p @ [NL] = ''NOT_LEADER'' @ ?rest"
    using assms(1) by (simp add: show_int_def)
  have "scan_number ?rest = Some (False, nat p)"
    by (rule scan_number_field) (simp_all add: is_digit_def)
  moreover have "dropWhile is_space ?rest \<noteq> []"
    using show_nat_nonempty [of "nat p"] show_nat_digits [of "nat p"] is_digit_char(1)
    by (cases "show_nat (nat p)") auto
  ultimately have "extract_int ?rest = Some p"
    using assms unfolding extract_int_def by simp
  moreover have "next_word (''NOT_LEADER'' @ ?rest) = (''NOT_LEADER'', ?rest)"
    by (rule next_word_word) (simp_all add: is_word_lits)
  moreover have "starts_with ''NOT_LEADER '' (''NOT_LEADER'' @ ?rest)" by (simp add: starts_with_def)
  ultimately show ?thesis unfolding resp client_redirect_def using assms(1) by simp
qed

text \<open>
  Redirects reach the leader.  When a client sends a \<^verbatim>\<open>PUT\<close> of two words to a cluster node
  that is not the leader, the client sends the command again to the port of the leader
  that node knows, and to none if it knows no leader of the cluster.
\<close>

theorem redirect_to_leader:
  assumes "is_word k" and "is_word v" and "rn_role n \<noteq> Leader"
  shows "client_redirect (fst (cluster_command (Some n) prop (''PUT '' @ k @ '' '' @ v) s)) =
    (case rn_leader n of None \<Rightarrow> None | Some l \<Rightarrow> if l \<in> {1, 2, 3} then Some (9100 + l) else None)"
proof -
  have line: "''PUT '' @ k @ '' '' @ v = ''PUT'' @ CHR '' '' # k @ CHR '' '' # v" by simp
  have "fst (cluster_command (Some n) prop (''PUT '' @ k @ '' '' @ v) s) = not_leader_reply (Some n)"
    unfolding line cluster_command_def
    using assms by (simp add: line_words Let_def)
  moreover have "client_redirect (''NOT_LEADER UNKNOWN'' @ [NL]) = None"
    by (simp add: client_redirect_def starts_with_def next_word_def extract_word_def is_space_def extract_int_def
        scan_number_def is_digit_def Let_def)
  ultimately show ?thesis
    by (auto simp: not_leader_reply_def port_for_node_def redirect_port [simplified] split: option.split)
qed

theorem redirect_to_leader_witness:
  "client_redirect (fst (cluster_command (Some ((raft_new 1 [2, 3])\<lparr>rn_leader := Some 3\<rparr>)) (\<lambda>_ _ _. True)
     (''PUT '' @ ''a'' @ '' '' @ ''1'') kv_new)) = Some 9103"
  using redirect_to_leader [of "''a''" "''1''" "(raft_new 1 [2, 3])\<lparr>rn_leader := Some 3\<rparr>" "\<lambda>_ _ _. True" kv_new]
  by (simp add: is_word_def is_space_def raft_new_def)

text \<open>
  The command line reads back what it wrote: on an open store, after \<^verbatim>\<open>PUT k v\<close> with two
  words, whatever its flush did, \<^verbatim>\<open>GET k\<close> prints the value; a \<^verbatim>\<open>PUT\<close> without a value stores the
  empty string.
\<close>

theorem cli_put_get:
  assumes "kv_ready sd" and "is_word k" and "is_word v"
  shows "fst (cli_line ios ord u rep (''GET '' @ k) (snd (snd (cli_line ios ord u rep (''PUT '' @ k @ '' '' @ v) sd)))) = v @ [NL] \<and>
    fst (cli_line ios ord u rep (''GET '' @ k) (snd (snd (cli_line ios ord u rep (''PUT '' @ k) sd)))) = [NL]"
proof -
  have put: "snd (snd (cli_line ios ord u rep (''PUT'' @ CHR '' '' # k @ CHR '' '' # v) sd)) = kv_put (ios 0) k v sd"
    "snd (snd (cli_line ios ord u rep (''PUT'' @ CHR '' '' # k) sd)) = kv_put (ios 0) k [] sd"
    using assms(2,3) unfolding cli_line_def
    by (simp_all add: line_words Let_def)
  have "fst (cli_line ios ord u rep (''GET'' @ CHR '' '' # k) sd') =
      (case kv_lookup sd' k of Some v \<Rightarrow> v | None \<Rightarrow> ''(nil)'') @ [NL]" for sd'
    using assms(2) unfolding cli_line_def
    by (simp add: line_words kv_lookup_def Let_def)
  with put kv.lookup_put [OF assms(1)] show ?thesis by simp
qed

theorem cli_put_get_witness:
  "fst (cli_line (\<lambda>_. io_ok) id 0 (\<lambda>_. []) (''GET '' @ ''a'') (snd (snd (cli_line (\<lambda>_. io_ok) id 0 (\<lambda>_. []) (''PUT '' @ ''a'' @ '' '' @ ''1'')
     (kv_new\<lparr>kv_opened := True, kv_wal := wal_new\<lparr>wal_fd := Some (''w'', 0)\<rparr>\<rparr>, Map.empty))))) = ''1'' @ [NL]"
proof -
  let ?sd = "(kv_new\<lparr>kv_opened := True, kv_wal := wal_new\<lparr>wal_fd := Some (''w'', 0)\<rparr>\<rparr>, Map.empty)"
  have "kv_ready ?sd" "is_word ''a''" "is_word ''1''"
    by (simp_all add: kv_ready_def is_word_def is_space_def)
  from cli_put_get [OF this, of "\<lambda>_. io_ok" id 0 "\<lambda>_. []"] show ?thesis by blast
qed

end
