(* ===== verification/Network_Props.thy ===== *)
theory Network_Props
  imports Network Server_Props Kv_Recovery
begin

text \<open>
  Whole connections: the contract of a line handler and what it gives for everything a server
  accepts, and a client's exchange with the servers of a cluster.
\<close>

subsection \<open>The contract of a line handler\<close>

text \<open>
  \<open>keeps\<close> is a property of the handler's state that every line leaves, \<open>answers\<close> relates a line
  to its reply.
\<close>

locale line_service =
  fixes h :: "string \<Rightarrow> 's \<Rightarrow> string \<times> 's"
    and keeps :: "'s \<Rightarrow> bool"
    and answers :: "string \<Rightarrow> string \<Rightarrow> bool"
  assumes step_keeps: "keeps s \<Longrightarrow> keeps (snd (h line s))"
    and step_answers: "keeps s \<Longrightarrow> answers line (fst (h line s))"
begin

lemma lines_answered:
  "keeps s \<Longrightarrow> handle_lines h ls s = (rs, s') \<Longrightarrow>
   keeps s' \<and> list_all2 (\<lambda>l r. answers (strip_cr l) r) ls rs"
proof (induction ls arbitrary: s rs)
  case (Cons l ls)
  then show ?case
    using step_keeps [OF Cons.prems(1), of "strip_cr l"] step_answers [OF Cons.prems(1), of "strip_cr l"]
    by (fastforce split: prod.splits)
qed simp

lemma conn_answered:
  assumes "keeps s" and "serve_conn h [] bufs s = (rs, left, s')"
  shows "keeps s' \<and> list_all2 (\<lambda>l r. answers (strip_cr l) r) (fst (decode_all next_line (concat bufs))) rs"
proof -
  obtain ls rest where d: "decode_all next_line (concat bufs) = (ls, rest)"
    by (cases "decode_all next_line (concat bufs)")
  obtain rs' t where hl: "handle_lines h ls s = (rs', t)" by (cases "handle_lines h ls s")
  from assms(2) serve_conn_chunking [of "[]" h bufs s] d hl have "rs' = rs" "t = s'" by auto
  with lines_answered [OF assms(1) hl] d show ?thesis by simp
qed

lemma all_answered:
  "keeps s \<Longrightarrow> serve_all h conns s = (rss, s') \<Longrightarrow>
   keeps s' \<and> list_all2 (\<lambda>bufs rs. list_all2 (\<lambda>l r. answers (strip_cr l) r)
     (fst (decode_all next_line (concat bufs))) rs) conns rss"
proof (induction conns arbitrary: s rss s')
  case (Cons bufs conns)
  obtain rs left t where c: "serve_conn h [] bufs s = (rs, left, t)" by (metis prod_cases3)
  obtain rss' u where a: "serve_all h conns t = (rss', u)" by (cases "serve_all h conns t")
  from Cons.prems(2) c a have "rss = rs # rss'" "s' = u" by auto
  with Cons.IH [OF conjunct1 [OF conn_answered [OF Cons.prems(1) c]] a] conn_answered [OF Cons.prems(1) c]
  show ?case by simp
qed simp

end

text \<open>The handler of the single-node server keeps the map; what it answers to writes.\<close>

definition server_answer :: "string \<Rightarrow> string \<Rightarrow> bool" where
  "server_answer line r \<longleftrightarrow> r \<noteq> [] \<and> last r = NL \<and>
     (fst (next_word line) = ''PUT'' \<or> fst (next_word line) = ''DEL'' \<longrightarrow> r = ''NOT_LEADER'' @ [NL])"

lemma server_command_line:
  shows "kv_map (fst (snd (server_command io None pr line sd))) = kv_map (fst sd)"
    and "server_answer line (fst (server_command io None pr line sd))"
proof -
  show "kv_map (fst (snd (server_command io None pr line sd))) = kv_map (fst sd)"
    using flush_wal_frame(3) [of io sd] by (auto simp: server_command_def Let_def split: prod.split option.split)
  show "server_answer line (fst (server_command io None pr line sd))"
    by (auto simp: server_answer_def server_command_def Let_def split: prod.split option.split)
qed

interpretation server_lines: line_service "server_handler ios" "\<lambda>ksd. kv_map (fst (snd ksd)) = m" server_answer
  for ios m
  by unfold_locales (simp_all add: server_handler_def server_command_line case_prod_beta Let_def)

lemma cluster_reply_line: "fst (cluster_command raft prop line s) \<noteq> [] \<and> last (fst (cluster_command raft prop line s)) = NL"
  by (simp add: cluster_command_def not_leader_reply_def Let_def split: prod.split option.split)

interpretation cluster_lines: line_service "cluster_handler env" "\<lambda>_. True" "\<lambda>_ r. r \<noteq> [] \<and> last r = NL"
  for env
proof unfold_locales
  fix s :: "nat \<times> bool" and line
  obtain k killed where s: "s = (k, killed)" by (cases s)
  have "fst (cluster_handler env line s) =
      fst (cluster_command (mo_raft (env k)) (mo_prop (env k)) line (mo_store (env k)))"
    by (simp add: s cluster_handler_def split: prod.split)
  with cluster_reply_line show "fst (cluster_handler env line s) \<noteq> [] \<and> last (fst (cluster_handler env line s)) = NL"
    by simp
qed simp

subsection \<open>The single-node server\<close>

text \<open>
  C39.  The single-node server never writes.  Whatever arrives on its connections and however the
  network cuts it, each complete line gets exactly one reply, which ends a line; every \<^verbatim>\<open>PUT\<close> and
  every \<^verbatim>\<open>DEL\<close> is answered \<^verbatim>\<open>NOT_LEADER\<close>; and the store still has the map it was opened with.
\<close>

theorem server_never_writes:
  assumes "server_main ios su args conns d = (Inr (banner, replies), sd)"
  shows "kv_map (fst sd) = kv_map (fst (snd (kv_open (ios 0) ''/tmp/kv_server.wal'' (kv_new, d)))) \<and>
    list_all2 (\<lambda>bufs rs. list_all2 (\<lambda>line r. server_answer (strip_cr line) r)
      (fst (decode_all next_line (concat bufs))) rs) conns replies"
proof -
  obtain sd0 k where o: "kv_open (ios 0) ''/tmp/kv_server.wal'' (kv_new, d) = (True, sd0)"
    and a: "serve_all (server_handler ios) conns (1, sd0) = (replies, (k, sd))"
    using assms by (auto simp: server_main_def Let_def split: prod.splits if_splits option.splits)
  have "kv_map (fst (snd (1 :: nat, sd0))) = kv_map (fst sd0)" by simp
  from server_lines.all_answered [OF this a] o show ?thesis by simp
qed

lemma server_main_serves:
  assumes "kv_open (ios 0) ''/tmp/kv_server.wal'' (kv_new, d) = (True, sd0)" and "setup_error su = None"
    and "serve_all (server_handler ios) conns (1, sd0) = (replies, (k, sd))"
  shows "server_main ios su args conns d =
    (Inr (''kv_server listening on port '' @ show_int (case args of [] \<Rightarrow> 9000 | a # _ \<Rightarrow> atoi a) @ [NL], replies), sd)"
  using assms by (simp add: server_main_def Let_def)

theorem server_never_writes_witness:
  "\<exists>banner replies sd. server_main (\<lambda>_. io_ok) \<lparr>ns_socket = True, ns_bind = True, ns_listen = True\<rparr> []
     [[''PUT a'', '' 1'' @ [NL]]] Map.empty = (Inr (banner, replies), sd) \<and>
     replies = [[''NOT_LEADER'' @ [NL]]] \<and> kv_map (fst sd) = []"
proof -
  let ?su = "\<lparr>ns_socket = True, ns_bind = True, ns_listen = True\<rparr>"
  let ?conns = "[[''PUT a'', '' 1'' @ [NL]]]"
  obtain sd0 where o: "kv_open io_ok ''/tmp/kv_server.wal'' (kv_new, Map.empty) = (True, sd0)" "kv_map (fst sd0) = []"
    using kv_open_create [of "''/tmp/kv_server.wal''" Map.empty]
      kv_open_ok [of "[''/tmp/kv_server.wal'' \<mapsto> empty_file]" "''/tmp/kv_server.wal''" empty_file]
    by (simp add: snap_map_def decode_all_None read_record_def)
  obtain replies k sd where a: "serve_all (server_handler (\<lambda>_. io_ok)) ?conns (1, sd0) = (replies, (k, sd))"
    by (cases "serve_all (server_handler (\<lambda>_. io_ok)) ?conns (1, sd0)") auto
  have m: "server_main (\<lambda>_. io_ok) ?su [] ?conns Map.empty =
      (Inr (''kv_server listening on port '' @ show_int 9000 @ [NL], replies), sd)"
    using server_main_serves [of "\<lambda>_. io_ok", OF o(1) _ a, of ?su "[]"] by (simp add: setup_error_def)
  have "decode_all next_line (''PUT a 1'' @ [NL]) = ([''PUT a 1''], [])"
    by (simp add: decode_all.simps next_line_def)
  with server_never_writes [OF m] o
  have "kv_map (fst sd) = []" "list_all2 (\<lambda>line r. server_answer (strip_cr line) r) [''PUT a 1''] (hd replies)"
    "length replies = 1"
    by (auto simp: list_all2_Cons1)
  then have "replies = [[''NOT_LEADER'' @ [NL]]]"
    by (auto simp: list_all2_Cons1 length_Suc_conv server_answer_def strip_cr_def next_word_def extract_word_def is_space_def)
  with m \<open>kv_map (fst sd) = []\<close> show ?thesis by blast
qed

text \<open>
  Every server of the cluster answers line by line: on each connection that node's server has
  accepted, each complete line gets exactly one reply, which ends a line, whatever the state of
  the cluster is when the line is handled and however the network cuts the bytes.
\<close>

theorem cluster_answers:
  assumes "run_server su port env conns = Inr (banner, replies, killed)"
  shows "list_all2 (\<lambda>bufs rs. list_all2 (\<lambda>line r. r \<noteq> [] \<and> last r = NL)
    (fst (decode_all next_line (concat bufs))) rs) conns replies"
proof -
  obtain k where "serve_all (cluster_handler env) conns (0, False) = (replies, k, killed)"
    using assms by (auto simp: run_server_def Let_def split: option.splits prod.splits)
  from cluster_lines.all_answered [OF TrueI this] show ?thesis by simp
qed

subsection \<open>A client and the cluster\<close>

text \<open>
  What a stream socket promises: the server at \<open>port\<close> reads the bytes that were sent, in any
  pieces, and one read of the client returns some bytes from the start of what the server
  writes, at least one if there are any, but perhaps not all.  \<open>serve\<close> is what the server writes for
  a sequence of reads.
\<close>

definition tcp_serves :: "(string list \<Rightarrow> string list) \<Rightarrow> int \<Rightarrow> (int \<Rightarrow> string \<Rightarrow> exchange) \<Rightarrow> bool" where
  "tcp_serves serve port net \<longleftrightarrow>
     (\<forall>msg. \<exists>bufs got. concat bufs = msg \<and> net port msg = Received got \<and>
        prefix got (concat (serve bufs)) \<and> (got = [] \<longrightarrow> concat (serve bufs) = []))"

text \<open>The client's read returned the end of a line.\<close>

definition line_read :: "(int \<Rightarrow> string \<Rightarrow> exchange) \<Rightarrow> int \<Rightarrow> string \<Rightarrow> bool" where
  "line_read net port cmd = (case net port (cmd @ [NL]) of Received bs \<Rightarrow> NL \<in> set bs | _ \<Rightarrow> False)"

definition node_serves :: "(nat \<Rightarrow> moment) \<Rightarrow> string list \<Rightarrow> string list" where
  "node_serves env bufs = fst (serve_conn (cluster_handler env) [] bufs (0, False))"

lemma atoi_show: "0 \<le> p \<Longrightarrow> p < 2 ^ 31 \<Longrightarrow> atoi (show_int p) = p"
  by (simp add: atoi_def show_int_def scan_number_show signed_take_bit_int_eq_self)

lemma port_bits_small: "0 \<le> p \<Longrightarrow> p < 65536 \<Longrightarrow> port_bits p = p"
  by (simp add: port_bits_def take_bit_int_eq_self)

lemma node_serves_line:
  assumes "concat bufs = line @ [NL]" and "NL \<notin> set line" and "strip_cr line = line"
  shows "node_serves env bufs =
    [fst (cluster_command (mo_raft (env 0)) (mo_prop (env 0)) line (mo_store (env 0)))]"
proof -
  have "decode_all next_line (concat bufs) = ([line], [])"
    using line_frames.decode_all_append [of "[line]" "[]"] assms(1,2)
    by (simp add: line_image_def decode_all_None next_line_def)
  then show ?thesis
    using serve_conn_chunking [of "[]" "cluster_handler env" bufs "(0, False)"] assms(3)
    by (simp add: node_serves_def cluster_handler_def split: prod.split)
qed

text \<open>What the client gets for one line: the start of the reply, cut by the read, by its buffer or by a zero byte.\<close>

lemma send_to_node:
  assumes "tcp_serves (node_serves env) (port_bits port) net" and "NL \<notin> set line" and "strip_cr line = line"
    and "r = fst (cluster_command (mo_raft (env 0)) (mo_prop (env 0)) line (mo_store (env 0)))"
  obtains got where "net (port_bits port) (line @ [NL]) = Received got" and "prefix got r" and "got \<noteq> []"
    and "send_command net port line = takeWhile (\<lambda>c. c \<noteq> CHR 0x00) (take 4095 got)"
proof -
  from assms(1) obtain bufs got where b: "concat bufs = line @ [NL]"
    "net (port_bits port) (line @ [NL]) = Received got" "prefix got (concat (node_serves env bufs))"
    "got = [] \<longrightarrow> concat (node_serves env bufs) = []"
    unfolding tcp_serves_def by blast
  from node_serves_line [OF b(1) assms(2,3)] assms(4) have "concat (node_serves env bufs) = r" by simp
  moreover have "r \<noteq> []" by (simp add: assms(4) cluster_reply_line)
  ultimately show ?thesis using b by (intro that) (auto simp: send_command_def)
qed

lemma put_cmd_line:
  assumes "is_word k" and "is_word v"
  shows "NL \<notin> set (''PUT '' @ k @ '' '' @ v)" and "strip_cr (''PUT '' @ k @ '' '' @ v) = ''PUT '' @ k @ '' '' @ v"
proof -
  have "\<not> is_space c" if "c \<in> set k \<union> set v" for c
    using assms that by (auto simp: is_word_def list_all_iff)
  moreover have "is_space NL" "is_space (CHR 0x0D)" by (simp_all add: is_space_def)
  ultimately have "NL \<notin> set k \<union> set v" "CHR 0x0D \<notin> set k \<union> set v" by blast+
  then show "NL \<notin> set (''PUT '' @ k @ '' '' @ v)" by auto
  have "last (''PUT '' @ k @ '' '' @ v) \<in> set v" using assms(2) by (auto simp: is_word_def)
  then show "strip_cr (''PUT '' @ k @ '' '' @ v) = ''PUT '' @ k @ '' '' @ v"
    using \<open>CHR 0x0D \<notin> set k \<union> set v\<close> by (auto simp: strip_cr_def)
qed

text \<open>The reply of a cluster node to a \<^verbatim>\<open>PUT\<close> of two words.\<close>

definition put_reply :: "moment \<Rightarrow> string \<Rightarrow> string \<Rightarrow> string" where
  "put_reply m k v =
     (case mo_raft m of
        Some n \<Rightarrow> if rn_role n = Leader then (if mo_prop m OpPut k v then ''OK'' @ [NL] else ''FAIL'' @ [NL])
                  else not_leader_reply (Some n)
      | None \<Rightarrow> not_leader_reply None)"

lemma cluster_put:
  assumes "is_word k" and "is_word v"
  shows "fst (cluster_command (mo_raft m) (mo_prop m) (''PUT '' @ k @ '' '' @ v) s) = put_reply m k v"
proof -
  have line: "''PUT '' @ k @ '' '' @ v = ''PUT'' @ CHR '' '' # k @ CHR '' '' # v" by simp
  show ?thesis unfolding line cluster_command_def using assms
    by (auto simp: line_words Let_def put_reply_def split: option.split)
qed

lemma put_reply_short: "takeWhile (\<lambda>c. c \<noteq> CHR 0x00) (take 4095 (put_reply m k v)) = put_reply m k v"
  by (auto simp: put_reply_def not_leader_reply_def port_for_node_def show_int_def show_nat_def show_base.simps digit_char_def char_of_eq_iff
      split: option.split)

lemma put_reply_line: "\<exists>l. put_reply m k v = l @ [NL] \<and> NL \<notin> set l"
proof -
  have "\<not> is_digit NL" by (simp add: is_digit_def)
  then have "NL \<notin> set (show_nat m)" for m using show_nat_digits [of m] by (auto simp: list_all_iff)
  then have "NL \<notin> set (show_int p)" for p by (simp add: show_int_def)
  then show ?thesis by (auto simp: put_reply_def not_leader_reply_def Let_def split: option.split)
qed

lemma line_whole: "prefix got (l @ [NL]) \<Longrightarrow> NL \<in> set got \<Longrightarrow> NL \<notin> set l \<Longrightarrow> got = l @ [NL]"
  by (metis prefix_snoc set_mono_prefix subsetD)

lemma send_put:
  assumes "tcp_serves (node_serves env) (port_for_node i) net" and "i \<in> {1, 2, 3}" and "is_word k" and "is_word v"
    and "line_read net (port_for_node i) (''PUT '' @ k @ '' '' @ v)"
  shows "send_command net (port_for_node i) (''PUT '' @ k @ '' '' @ v) = put_reply (env 0) k v"
proof -
  let ?cmd = "''PUT '' @ k @ '' '' @ v"
  have port: "port_bits (port_for_node i) = port_for_node i"
    using assms(2) by (intro port_bits_small) (auto simp: port_for_node_def)
  have tcp: "tcp_serves (node_serves env) (port_bits (port_for_node i)) net" using assms(1) port by simp
  from tcp put_cmd_line [OF assms(3,4)] cluster_put [OF assms(3,4), symmetric]
  obtain got where "net (port_bits (port_for_node i)) (?cmd @ [NL]) = Received got"
    "prefix got (put_reply (env 0) k v)" "got \<noteq> []"
    "send_command net (port_for_node i) ?cmd = takeWhile (\<lambda>c. c \<noteq> CHR 0x00) (take 4095 got)"
    by (rule send_to_node)
  note got = this(1,2,4) [unfolded port]
  have "NL \<in> set got" using assms(5) got(1) by (simp add: line_read_def)
  with got(2) put_reply_line [of "env 0" k v] line_whole have "got = put_reply (env 0) k v" by metis
  then show ?thesis using got(3) put_reply_short by simp
qed

text \<open>
  C26.  A \<^verbatim>\<open>PUT\<close> sent to a follower reaches the leader.  When the client is run with the port of a
  cluster node that is not leader and knows the node \<open>l\<close> as leader, and each of its two reads returns
  the reply to the end of the line, it prints the redirect, sends
  the command to the port of \<open>l\<close>, and prints that node's reply: \<^verbatim>\<open>OK\<close> or \<^verbatim>\<open>FAIL\<close> as its proposal turns out, or
  where it sends the client if it is leader no longer, which the client does not follow.  The server may
  read the command in any pieces.
\<close>

theorem client_put_redirected:
  assumes "i \<in> {1, 2, 3}" and "l \<in> {1, 2, 3}" and "is_word k" and "is_word v"
    and "tcp_serves (node_serves env) (port_for_node i) (net 0)"
    and "tcp_serves (node_serves env') (port_for_node l) (net 1)"
    and "mo_raft (env 0) = Some n" and "rn_role n \<noteq> Leader" and "rn_leader n = Some l"
    and "mo_raft (env' 0) = Some n'"
    and "line_read (net 0) (port_for_node i) (''PUT '' @ k @ '' '' @ v)"
    and "line_read (net 1) (port_for_node l) (''PUT '' @ k @ '' '' @ v)"
  shows "client_main net [show_int (port_for_node i), ''PUT '' @ k @ '' '' @ v] =
    (0, ''response: NOT_LEADER '' @ show_int (port_for_node l) @ [NL] @
        ''redirecting to '' @ show_int (port_for_node l) @ [NL] @
        ''response: '' @
          (if rn_role n' = Leader
           then (if mo_prop (env' 0) OpPut k v then ''OK'' else ''FAIL'') @ [NL]
           else not_leader_reply (Some n')), [])"
proof -
  let ?cmd = "''PUT '' @ k @ '' '' @ v"
  have port: "0 < port_for_node j \<and> port_for_node j < 2 ^ 31" if "j \<in> {1, 2, 3}" for j
    using that by (auto simp: port_for_node_def)
  have "put_reply (env 0) k v = ''NOT_LEADER '' @ show_int (port_for_node l) @ [NL]"
    using assms(7-9) port [OF assms(2)] by (simp add: put_reply_def not_leader_reply_def)
  then have first: "send_command (net 0) (port_for_node i) ?cmd = ''NOT_LEADER '' @ show_int (port_for_node l) @ [NL]"
    using send_put [OF assms(5,1,3,4,11)] by simp
  have second: "send_command (net 1) (port_for_node l) ?cmd =
      (if rn_role n' = Leader then (if mo_prop (env' 0) OpPut k v then ''OK'' else ''FAIL'') @ [NL]
       else not_leader_reply (Some n'))"
    using send_put [OF assms(6,2,3,4,12)] assms(10) by (simp add: put_reply_def)
  have "atoi (show_int (port_for_node i)) = port_for_node i"
    using port [OF assms(1)] by (intro atoi_show) auto
  with first second redirect_port port [OF assms(2)] show ?thesis
    by (simp add: client_main_def Let_def)
qed

text \<open>A network in which every message is read in one piece.\<close>

definition one_piece :: "(int \<Rightarrow> nat \<Rightarrow> moment) \<Rightarrow> int \<Rightarrow> string \<Rightarrow> exchange" where
  "one_piece envs port msg = Received (concat (node_serves (envs (port - 9100)) [msg]))"

lemma one_piece_serves: "i \<in> {1, 2, 3} \<Longrightarrow> tcp_serves (node_serves (envs i)) (port_for_node i) (one_piece envs)"
  unfolding tcp_serves_def one_piece_def by (auto simp: port_for_node_def intro!: exI [of _ "[_]"])

lemma one_piece_line:
  assumes "i \<in> {1, 2, 3}" and "NL \<notin> set cmd" and "strip_cr cmd = cmd"
  shows "line_read (one_piece envs) (port_for_node i) cmd"
proof -
  let ?r = "fst (cluster_command (mo_raft (envs i 0)) (mo_prop (envs i 0)) cmd (mo_store (envs i 0)))"
  have "node_serves (envs i) [cmd @ [NL]] = [?r]" using assms by (intro node_serves_line) simp_all
  moreover have "NL \<in> set ?r" using cluster_reply_line by (metis last_in_set)
  ultimately show ?thesis using assms(1) by (auto simp: line_read_def one_piece_def port_for_node_def)
qed

definition sample_env :: "int \<Rightarrow> nat \<Rightarrow> moment" where
  "sample_env i k = \<lparr>mo_raft = Some ((raft_new i (filter (\<lambda>p. p \<noteq> i) [1, 2, 3]))
       \<lparr>rn_role := if i = 3 then Leader else Follower, rn_leader := Some 3\<rparr>),
     mo_prop = (\<lambda>_ _ _. True), mo_store = kv_new\<lparr>kv_map := [(''a'', ''1'')]\<rparr>\<rparr>"

theorem client_put_redirected_witness:
  "client_main (\<lambda>_. one_piece sample_env) [show_int (port_for_node 1), ''PUT '' @ ''a'' @ '' '' @ ''2''] =
   (0, ''response: NOT_LEADER '' @ show_int (port_for_node 3) @ [NL] @
       ''redirecting to '' @ show_int (port_for_node 3) @ [NL] @ ''response: '' @ ''OK'' @ [NL], [])"
  using client_put_redirected [of 1 3 "''a''" "''2''" "sample_env 1" "\<lambda>_. one_piece sample_env" "sample_env 3"]
    one_piece_serves [of 1 sample_env] one_piece_serves [of 3 sample_env]
    one_piece_line [of 1 _ sample_env] one_piece_line [of 3 _ sample_env] put_cmd_line [of "''a''" "''2''"]
  by (simp add: sample_env_def is_word_def is_space_def raft_new_def)

text \<open>
  With a shorter read the client follows a wrong port.  A network that keeps the promises of a
  stream socket may return only the first 13 bytes of the follower's reply, and the
  client then connects to port 91.
\<close>

definition short_net :: "int \<Rightarrow> string \<Rightarrow> exchange" where
  "short_net port msg = (if port = 9101 then Received (take 13 (concat (node_serves (sample_env 1) [msg]))) else NoConnection)"

theorem client_short_read:
  "tcp_serves (node_serves (sample_env 1)) (port_for_node 1) short_net \<and>
   client_main (\<lambda>_. short_net) [show_int (port_for_node 1), ''PUT '' @ ''a'' @ '' '' @ ''2''] =
     (0, ''response: NOT_LEADER 91'' @ ''redirecting to 91'' @ [NL] @ ''response: ERR connect'' @ [NL], [])"
proof -
  have tcp: "tcp_serves (node_serves (sample_env 1)) (port_for_node 1) short_net"
    unfolding tcp_serves_def short_net_def
    by (auto simp: port_for_node_def take_is_prefix intro!: exI [of _ "[_]"])
  let ?cmd = "''PUT '' @ ''a'' @ '' '' @ ''2''"
  have w: "is_word ''a''" "is_word ''2''" by (simp_all add: is_word_def is_space_def)
  have "node_serves (sample_env 1) [?cmd @ [NL]] = [put_reply (sample_env 1 0) ''a'' ''2'']"
    using put_cmd_line [OF w] cluster_put [OF w] by (subst node_serves_line) simp_all
  moreover have "put_reply (sample_env 1 0) ''a'' ''2'' = ''NOT_LEADER 9103'' @ [NL]"
    by (simp add: put_reply_def sample_env_def not_leader_reply_def port_for_node_def show_int_def show_nat_def
        show_base.simps digit_char_def char_of_eq_iff)
  ultimately have "send_command short_net 9101 ?cmd = ''NOT_LEADER 91''"
    by (simp add: send_command_def short_net_def port_bits_small)
  moreover have "client_redirect ''NOT_LEADER 91'' = Some 91" by code_simp
  moreover have "send_command short_net 91 ?cmd = ''ERR connect'' @ [NL]"
    by (simp add: send_command_def short_net_def port_bits_small)
  moreover have "atoi (show_int (port_for_node 1)) = 9101" by (simp add: port_for_node_def atoi_show)
  moreover have "show_int 91 = ''91''"
    by (simp add: show_int_def show_nat_def show_base.simps digit_char_def char_of_eq_iff)
  ultimately show ?thesis using tcp by (simp add: client_main_def)
qed

lemma get_cmd_line:
  assumes "is_word k"
  shows "NL \<notin> set (''GET '' @ k)" and "strip_cr (''GET '' @ k) = ''GET '' @ k"
proof -
  have "\<not> is_space c" if "c \<in> set k" for c using assms that by (auto simp: is_word_def list_all_iff)
  moreover have "is_space NL" "is_space (CHR 0x0D)" by (simp_all add: is_space_def)
  ultimately have k: "NL \<notin> set k" "CHR 0x0D \<notin> set k" by blast+
  then show "NL \<notin> set (''GET '' @ k)" by auto
  have "last (''GET '' @ k) \<in> set k" using assms by (auto simp: is_word_def)
  then show "strip_cr (''GET '' @ k) = ''GET '' @ k" using k by (auto simp: strip_cr_def)
qed

lemma cluster_get:
  assumes "is_word k" and "kv_get k s = Some v"
  shows "fst (cluster_command raft pr (''GET '' @ k) s) = ''VALUE '' @ v @ [NL]"
proof -
  have line: "''GET '' @ k = ''GET'' @ CHR '' '' # k" by simp
  show ?thesis unfolding line cluster_command_def using assms by (simp add: line_words Let_def)
qed

lemma client_main_answered:
  "send_command (net 0) (atoi a) cmd = resp \<Longrightarrow> client_redirect resp = None \<Longrightarrow>
   client_main net [a, cmd] = (0, ''response: '' @ resp, [])"
  by (simp add: client_main_def Let_def)

lemma takeWhile_take_id: "takeWhile P (take n xs) = xs \<longleftrightarrow> length xs \<le> n \<and> list_all P xs"
proof
  assume id: "takeWhile P (take n xs) = xs"
  then have "length xs \<le> n" by (metis length_takeWhile_le length_take min.bounded_iff)
  with id show "length xs \<le> n \<and> list_all P xs" by (auto simp: list_all_iff dest: set_takeWhileD)
qed (simp add: list_all_iff)

text \<open>
  C31.  How much of a value the client can show.  It prints what one read returns, up to the 4095 bytes
  it asks for and up to a zero byte: the answer to a \<^verbatim>\<open>GET\<close> of a stored value is printed in
  full exactly if that read finds the whole reply, the value has at most 4088 bytes and none of
  them is zero.
\<close>

theorem client_get_limit:
  assumes "i \<in> {1, 2, 3}" and "is_word k" and "tcp_serves (node_serves env) (port_for_node i) (net 0)"
    and "kv_get k (mo_store (env 0)) = Some v"
  shows "client_main net [show_int (port_for_node i), ''GET '' @ k] = (0, ''response: VALUE '' @ v @ [NL], []) \<longleftrightarrow>
    net 0 (port_for_node i) (''GET '' @ k @ [NL]) = Received (''VALUE '' @ v @ [NL]) \<and>
    length v \<le> 4088 \<and> CHR 0x00 \<notin> set v"
proof -
  let ?r = "''VALUE '' @ v @ [NL]"
  have port: "0 < port_for_node i \<and> port_for_node i < 65536" using assms(1) by (auto simp: port_for_node_def)
  then have pb: "port_bits (port_for_node i) = port_for_node i" by (intro port_bits_small) auto
  have tcp: "tcp_serves (node_serves env) (port_bits (port_for_node i)) (net 0)" using assms(3) pb by simp
  from tcp get_cmd_line [OF assms(2)] cluster_get [OF assms(2,4), symmetric]
  obtain got where "net 0 (port_bits (port_for_node i)) ((''GET '' @ k) @ [NL]) = Received got"
    "prefix got ?r" "got \<noteq> []"
    "send_command (net 0) (port_for_node i) (''GET '' @ k) = takeWhile (\<lambda>c. c \<noteq> CHR 0x00) (take 4095 got)"
    by (rule send_to_node)
  note got = this(1,2,4) [unfolded pb]
  let ?resp = "takeWhile (\<lambda>c. c \<noteq> CHR 0x00) (take 4095 got)"
  have pre: "prefix ?resp got" by (metis prefix_order.trans take_is_prefix takeWhile_is_prefix)
  then have "prefix ?resp ?r" using got(2) prefix_order.trans by blast
  then have "client_redirect ?resp = None"
    by (cases ?resp) (auto simp: client_redirect_def starts_with_def)
  moreover have "atoi (show_int (port_for_node i)) = port_for_node i" using port by (intro atoi_show) auto
  ultimately have "client_main net [show_int (port_for_node i), ''GET '' @ k] = (0, ''response: '' @ ?resp, [])"
    using got(3) by (intro client_main_answered) simp_all
  moreover have "?resp = ?r \<longleftrightarrow> got = ?r \<and> length v \<le> 4088 \<and> CHR 0x00 \<notin> set v"
  proof -
    have "?resp = ?r \<longleftrightarrow> got = ?r \<and> takeWhile (\<lambda>c. c \<noteq> CHR 0x00) (take 4095 ?r) = ?r"
      using pre got(2) prefix_order.antisym by metis
    then show ?thesis unfolding takeWhile_take_id by (auto simp: list_all_iff)
  qed
  ultimately show ?thesis using got(1) by simp
qed

theorem client_get_limit_witness:
  "client_main (\<lambda>_. one_piece sample_env) [show_int (port_for_node 1), ''GET '' @ ''a''] =
   (0, ''response: VALUE '' @ ''1'' @ [NL], [])"
proof -
  have w: "is_word ''a''" by (simp add: is_word_def is_space_def)
  have "node_serves (sample_env 1) [''GET '' @ ''a'' @ [NL]] = [''VALUE '' @ ''1'' @ [NL]]"
    using get_cmd_line [OF w] cluster_get [OF w, of "mo_store (sample_env 1 0)" "''1''"]
    by (subst node_serves_line [of _ "''GET '' @ ''a''"]) (simp_all add: sample_env_def kv_get_def)
  then have "one_piece sample_env (port_for_node 1) (''GET '' @ ''a'' @ [NL]) = Received (''VALUE '' @ ''1'' @ [NL])"
    by (simp add: one_piece_def port_for_node_def)
  then show ?thesis
    using client_get_limit [of 1 "''a''" "sample_env 1" "\<lambda>_. one_piece sample_env" "''1''"] w one_piece_serves [of 1 sample_env]
    by (simp add: sample_env_def kv_get_def)
qed

end
