(* ===== verification/Spec2Isabelle.thy ===== *)
theory Spec2Isabelle
  imports Wal_Props Kv_Types Kv_Checkpoint Kv_Torn_Tail Object_Crash Object_Demo_Props
    Raft_Props Raft_Propose Raft_Demo_Props Network_Props
begin

text \<open>
  A verification of kv-engine-cpp: a storage engine with a write-ahead log, an object store on
  top of it, a Raft node that replicates it, and the programs around them.

  \<^bold>\<open>The program and its parts.\<close>
  A \<^verbatim>\<open>KVStore\<close> (\<^verbatim>\<open>src/src/kv_store.cpp\<close>) keeps a map in memory.  Every write is first appended to the
  buffer of a \<^verbatim>\<open>Wal\<close> (\<^verbatim>\<open>src/src/wal.cpp\<close>), whose records carry a CRC-32; the buffer reaches the file
  and the disk when a group of writes is full or on an explicit flush.  \<^verbatim>\<open>open\<close> loads a
  snapshot and replays the log onto it.  An \<^verbatim>\<open>ObjectStore\<close> (\<^verbatim>\<open>src/src/object_store.cpp\<close>) cuts objects into
  chunks under keys of the engine and commits them by their metadata; a garbage collector
  removes chunks that no metadata names.  A \<^verbatim>\<open>RaftNode\<close> (\<^verbatim>\<open>src/src/raft.cpp\<close>) runs an election, a heartbeat
  and an apply thread and replicates a log of writes over a transport
  (\<^verbatim>\<open>src/src/raft_transport.cpp\<close>) that calls the peers' handlers directly; committed entries go to
  \<^verbatim>\<open>ApplyPut\<close> and \<^verbatim>\<open>ApplyDel\<close> of a store.  Servers (\<^verbatim>\<open>src/src/server_main.cpp\<close>, \<^verbatim>\<open>src/src/cluster_demo.cpp\<close>), a client
  (\<^verbatim>\<open>src/src/kv_client.cpp\<close>), a command line (\<^verbatim>\<open>src/src/main.cpp\<close>) and demonstration programs use them.

  \<^bold>\<open>The model.\<close>
  \<^item> \<open>Kv_Prelude\<close>: the word types, bytes of little-endian numbers, lists and association lists.
  \<^item> \<open>Crc32\<close>: \<^verbatim>\<open>crc32_update\<close>, its table, a bit-serial reference, and that the two agree; detection of bursts.
  \<^item> \<open>Host_Io\<close>: files as bytes with a durable prefix, power loss, and the outcomes of system calls.
  \<^item> \<open>Wal\<close>: class \<^verbatim>\<open>Wal\<close>: record images, \<^verbatim>\<open>append_put\<close>, \<^verbatim>\<open>append_del\<close>, \<^verbatim>\<open>flush\<close>, \<^verbatim>\<open>replay_into\<close>, \<^verbatim>\<open>truncate_to_last_good\<close>.
    \<open>Framing\<close> is the locale of self-delimiting records; \<open>Wal_Log\<close> interprets it for log
    records and \<open>Server_Props\<close> for lines.
  \<^item> \<open>Text_Streams\<close>, \<open>Text_Numbers\<close>: \<^verbatim>\<open>operator>>\<close>, \<^verbatim>\<open>getline\<close>, \<^verbatim>\<open>stoull\<close>, \<^verbatim>\<open>stoi\<close>, \<^verbatim>\<open>to_string\<close>.
  \<^item> \<open>Kv_Store\<close>: class \<^verbatim>\<open>KVStore\<close>, one definition per method, on a store and a disk.
  \<^item> \<open>Kv_Api\<close>: the locale of a key-value store as its clients see it, interpreted for the engine (object
    store) and for the state machine of a Raft node.
  \<^item> \<open>Object_Codec\<close>, \<open>Object_Store\<close>: types, key codec, metadata text, and class \<^verbatim>\<open>ObjectStore\<close>.
  \<^item> \<open>Object_Demos\<close>: the five programs \<^verbatim>\<open>src/src/object_store*_demo.cpp\<close>.
  \<^item> \<open>Raft\<close>: class \<^verbatim>\<open>RaftNode\<close>: handlers and locked sections on the node's record, and the transport.
    \<open>Raft_Steps\<close>: the threads as step relations, a step being one locked section or one call of
    a peer; \<^verbatim>\<open>Start\<close>, \<^verbatim>\<open>Stop\<close>, registration, and the restart of a node.  \<open>Raft_Exec\<close>: a scheduler that computes
    the steps, and that it agrees with the relations.
  \<^item> \<open>Raft_Demo\<close>: the set-up of a cluster and \<^verbatim>\<open>src/src/raft_demo.cpp\<close> beside its running threads.
  \<^item> \<open>Server\<close>, \<open>Network\<close>: the line protocol of both servers, the command line, and the programs around a socket.

  \<^bold>\<open>What is shown.\<close>
  \<^item> Log (\<open>Wal_Props\<close>): replay applies exactly the records of a log, stops in front of damage and at a torn tail;
    the checksum equals the bit-serial one.
  \<^item> Engine (\<open>Kv_Log_Inv\<close>, \<open>Kv_Recovery\<close>, \<open>Kv_Power_Cut\<close>, \<open>Kv_Durability\<close>, \<open>Kv_Checkpoint\<close>, \<open>Kv_Torn_Tail\<close>, \<open>Kv_Types\<close>):
    recovery after power loss yields a prefix of the writes that contains everything flushed, also
    when power is cut in the middle of a sequence of calls; an open store refines a partial map, and the group commit
    bounds what waits in memory, both for any outcomes of the system calls; the type invariant over
    all methods; checkpoints and snapshots, with the cases in which they fail.
  \<^item> Object store (\<open>Object_Lemmas\<close>, \<open>Object_Props\<close>, \<open>Object_Gc\<close>, \<open>Object_Crash\<close>, \<open>Object_Demo_Props\<close>): get returns
    what was put; a power cut during \<^verbatim>\<open>PutObject\<close> leaves the old or the new object; garbage collection
    removes exactly the unreachable chunks; deletion and listing; what the programs print.
  \<^item> Raft (\<open>Raft_Election\<close>, \<open>Raft_Ledger\<close>, \<open>Raft_Log_Matching\<close>, \<open>Raft_Validity\<close>, \<open>Raft_Propose\<close>, \<open>Raft_Traces\<close>, \<open>Raft_Props\<close>,
    \<open>Raft_Demo_Props\<close>): election safety, log matching, append-only leaders, commitment by the majority
    of the recorded indices (and a run in which that is no majority of the logs), validity, termination of proposals, progress of the apply loop, over all interleavings; and
    runs that show the faults of the replication code.
  \<^item> Programs (\<open>Server_Props\<close>, \<open>Network_Props\<close>): independence of how the network cuts the stream, one reply per
    line, a client's redirect to the leader and what it can show when its one read returns the whole reply,
    and what goes wrong when it returns less.

  \<^bold>\<open>Choices and bounds.\<close>
  No definition uses fuel: loops recurse over the data they consume, or have a measure.  What the operating
  system answers (a short or interrupted write, a failed flush, the bytes of a read), the
  clock, \<^verbatim>\<open>std::hash\<close> and the iteration order of hash maps are arguments of the definitions; a theorem that fixes an
  outcome says so.  A method of the engine takes one record \<open>io\<close> of outcomes; an operation that calls the engine
  several times takes \<open>ios\<close>, with a record for each of its calls, so that one may fail and the next
  succeed.  \<open>io_ok\<close> is the device on which every call succeeds, \<open>works io\<close> says that the calls of a flush do.  Numbers have their width; the
  one exception to wrap-around is a candidacy in the last 64-bit term, which is excluded in
  \<open>start_election\<close>.  \<open>orderly\<close> runs are those in which no step comes between the two locked sections of a
  proposal and logs are shorter than 2 to the 64; without the former, log matching fails, as a run in \<open>Raft_Props\<close>
  shows.  Unbounded loops of the servers are modelled over the connections accepted so far.

  \<^bold>\<open>Not modelled.\<close>
  The clock and the random timeouts of the Raft node (an election may start at any time), so nothing is shown about
  how soon a leader is elected; two object store operations interleaved by threads; the log output on
  standard error; memory exhaustion and the exceptions it raises; the shell scripts.  Every other
  operation of the sources has a definition.
\<close>

end
